(* ===== verification/Prelude.thy ===== *)
theory Prelude
  imports Complex_Main "HOL-Library.Word" "HOL-Library.AList"
begin

text \<open>
  Shared vocabulary of the development: byte buffers with the reads and writes of Node's
  Buffer, JavaScript errors and numbers as values, insertion-ordered maps (the JavaScript
  Map, as an association list), decimal printing and splitting of strings, and the machine
  locale with which every stateful component lifts a one-step invariant to whole runs.
\<close>

unbundle bit_operations_syntax

named_theorems buffer_simps \<open>reads, writes and lengths of byte buffers\<close>

section \<open>Values and errors\<close>

type_synonym byte = "8 word"
type_synonym bytes = "8 word list"
type_synonym u32 = "32 word"

datatype js_error = TypeError string | RangeError string | GenericError string

type_synonym 'a result = "js_error + 'a"

text \<open>A JavaScript number, as far as the argument checks of the constructors tell them apart.\<close>

datatype js_number = Num rat | NaN | Infinity | NegInfinity

definition isFinite :: "js_number \<Rightarrow> bool" where
  "isFinite n = (case n of Num _ \<Rightarrow> True | _ \<Rightarrow> False)"

definition isInteger :: "js_number \<Rightarrow> bool" where
  "isInteger n = (case n of Num q \<Rightarrow> of_int \<lfloor>q\<rfloor> = q | _ \<Rightarrow> False)"

definition bind_result :: "'a result \<Rightarrow> ('a \<Rightarrow> 'b result) \<Rightarrow> 'b result" where
  "bind_result r f = (case r of Inl e \<Rightarrow> Inl e | Inr a \<Rightarrow> f a)"

lemma bind_result_simps [simp]:
  "bind_result (Inl e) f = Inl e" "bind_result (Inr a) f = f a"
  by (simp_all add: bind_result_def)

section \<open>Byte buffers\<close>

text \<open>An out-of-range read \<open>packet[i]\<close> is undefined, which the bit operators read as 0.\<close>

definition byte_at :: "bytes \<Rightarrow> nat \<Rightarrow> byte" where
  "byte_at p i = (if i < length p then p ! i else 0)"

definition u16be :: "bytes \<Rightarrow> nat \<Rightarrow> nat" where
  "u16be p i = unat (byte_at p i) * 256 + unat (byte_at p (i + 1))"

definition readUInt16BE :: "bytes \<Rightarrow> nat \<Rightarrow> nat result" where
  "readUInt16BE p i =
     (if i + 2 \<le> length p then Inr (u16be p i) else Inl (RangeError ''ERR_OUT_OF_RANGE''))"

definition u32be :: "bytes \<Rightarrow> nat \<Rightarrow> u32" where
  "u32be p i = word_of_nat (u16be p i * 65536 + u16be p (i + 2))"

definition u16_bytes :: "nat \<Rightarrow> bytes" where
  "u16_bytes n = [word_of_nat (n div 256), word_of_nat n]"

definition u32_bytes :: "u32 \<Rightarrow> bytes" where
  "u32_bytes w = u16_bytes (unat w div 65536) @ u16_bytes (unat w mod 65536)"

text \<open>
  \<open>subarray p a b\<close> is \<open>p.subarray(a, b)\<close> and \<open>p.slice(a, b)\<close> for \<open>0 \<le> a\<close> and \<open>0 \<le> b\<close>;
  \<open>put dst off src\<close> is \<open>src.copy(dst, off)\<close>, which clips at the end of \<open>dst\<close>.
\<close>

definition subarray :: "bytes \<Rightarrow> nat \<Rightarrow> nat \<Rightarrow> bytes" where
  "subarray p a b = take (b - a) (drop a p)"

definition put :: "bytes \<Rightarrow> nat \<Rightarrow> bytes \<Rightarrow> bytes" where
  "put dst off src = take off dst @ take (length dst - off) src @ drop (off + length src) dst"

definition alloc :: "nat \<Rightarrow> bytes" where
  "alloc n = replicate n 0"

lemma readUInt16BE_in_range: "i + 2 \<le> length p \<Longrightarrow> readUInt16BE p i = Inr (u16be p i)"
  by (simp add: readUInt16BE_def)

lemma byte_lt [simp]: "unat (b :: byte) < 256"
  using unsigned_less [where w = b and 'a = nat] by simp

lemma u16be_lt: "u16be p i < 65536"
proof -
  have "unat (byte_at p i) \<le> 255" "unat (byte_at p (i + 1)) \<le> 255"
    using byte_lt [of "byte_at p i"] byte_lt [of "byte_at p (i + 1)"] by linarith+
  then show ?thesis by (simp add: u16be_def)
qed

lemma length_u16_bytes [simp]: "length (u16_bytes n) = 2"
  by (simp add: u16_bytes_def)

lemma length_u32_bytes [simp]: "length (u32_bytes w) = 4"
  by (simp add: u32_bytes_def)

lemma length_alloc [simp]: "length (alloc n) = n"
  by (simp add: alloc_def)

lemma length_put [simp, buffer_simps]: "off \<le> length dst \<Longrightarrow> length (put dst off src) = length dst"
  by (simp add: put_def)

lemma length_subarray [simp, buffer_simps]:
  "b \<le> length p \<Longrightarrow> length (subarray p a b) = b - a"
  by (simp add: subarray_def)

lemma subarray_full [simp]: "subarray p 0 (length p) = p"
  by (simp add: subarray_def)

lemma byte_at_append1 [buffer_simps]: "i < length p \<Longrightarrow> byte_at (p @ q) i = byte_at p i"
  by (simp add: byte_at_def nth_append)

lemma byte_at_append2 [buffer_simps]:
  "length p \<le> i \<Longrightarrow> byte_at (p @ q) i = byte_at q (i - length p)"
  by (simp add: byte_at_def nth_append) auto

lemma byte_at_Cons_0 [simp, buffer_simps]: "byte_at (b # p) 0 = b"
  by (simp add: byte_at_def)

lemma byte_at_Cons_Suc [simp, buffer_simps]: "byte_at (b # p) (Suc i) = byte_at p i"
  by (simp add: byte_at_def)

lemma byte_at_Cons_numeral [simp, buffer_simps]:
  "byte_at (b # p) (numeral n) = byte_at p (pred_numeral n)"
  by (simp add: numeral_eq_Suc)

lemma u16be_append1 [buffer_simps]: "i + 1 < length p \<Longrightarrow> u16be (p @ q) i = u16be p i"
  by (simp add: u16be_def byte_at_append1)

lemma u16be_append2 [buffer_simps]:
  "length p \<le> i \<Longrightarrow> u16be (p @ q) i = u16be q (i - length p)"
  by (simp add: u16be_def byte_at_append2 Suc_diff_le)

lemma unat_word_of_nat_byte: "unat (word_of_nat n :: byte) = n mod 256"
  by (simp add: unat_of_nat)

lemma u16_value: "n < 65536 \<Longrightarrow>
    unat (word_of_nat (n div 256) :: byte) * 256 + unat (word_of_nat n :: byte) = n"
  by (simp add: unat_word_of_nat_byte)

lemma u16be_u16_bytes [simp, buffer_simps]: "n < 65536 \<Longrightarrow> u16be (u16_bytes n @ q) 0 = n"
  by (simp add: u16be_def u16_bytes_def u16_value)

lemma u16be_Cons2: "u16be (a # b # q) 0 = unat a * 256 + unat b"
  by (simp add: u16be_def)

lemma u32be_u32_bytes [simp, buffer_simps]: "u32be (u32_bytes w @ q) 0 = w"
proof -
  have lt: "unat w < 4294967296" using unsigned_less [where w = w and 'a = nat] by simp
  have hi: "u16be (u32_bytes w @ q) 0 = unat w div 65536"
    using lt by (simp add: u32_bytes_def)
  have lo: "u16be (u32_bytes w @ q) 2 = unat w mod 65536"
    by (simp add: u32_bytes_def u16be_append2)
  show ?thesis
    unfolding u32be_def by (simp add: hi lo numeral_2_eq_2 [symmetric])
qed

section \<open>Decimal strings\<close>

definition digit_char :: "nat \<Rightarrow> char" where
  "digit_char d = char_of (48 + d)"

fun dec :: "nat \<Rightarrow> string" where
  "dec n = (if n < 10 then [digit_char n] else dec (n div 10) @ [digit_char (n mod 10)])"

declare dec.simps [simp del]

definition is_digit :: "char \<Rightarrow> bool" where
  "is_digit c \<longleftrightarrow> 48 \<le> (of_char c :: nat) \<and> (of_char c :: nat) \<le> 57"

definition digit_value :: "char \<Rightarrow> nat" where
  "digit_value c = of_char c - 48"

definition dec_value :: "string \<Rightarrow> nat" where
  "dec_value s = foldl (\<lambda>n c. 10 * n + digit_value c) 0 s"

fun split_on :: "char \<Rightarrow> string \<Rightarrow> string list" where
  "split_on c [] = [[]]"
| "split_on c (x # xs) =
     (if x = c then [] # split_on c xs
      else (case split_on c xs of [] \<Rightarrow> [[x]] | y # ys \<Rightarrow> (x # y) # ys))"

lemma digit_char_props:
  "d < 10 \<Longrightarrow> is_digit (digit_char d)" "d < 10 \<Longrightarrow> digit_value (digit_char d) = d"
  by (simp_all add: is_digit_def digit_char_def digit_value_def)

lemma dec_digits: "c \<in> set (dec n) \<Longrightarrow> is_digit c"
proof (induction n rule: dec.induct)
  case (1 n)
  then show ?case
    by (subst (asm) dec.simps) (auto simp: digit_char_props split: if_splits)
qed

lemma dec_value_dec [simp]: "dec_value (dec n) = n"
proof (induction n rule: dec.induct)
  case (1 n)
  then show ?case
    by (subst dec.simps) (simp add: dec_value_def digit_char_props)
qed

lemma dec_inj: "dec m = dec n \<Longrightarrow> m = n"
  using dec_value_dec by metis

lemma dec_not_Nil [simp]: "dec n \<noteq> []"
  by (subst dec.simps) simp

lemma length_dec_le: "n < 10 ^ k \<Longrightarrow> 0 < k \<Longrightarrow> length (dec n) \<le> k"
proof (induction n arbitrary: k rule: dec.induct)
  case (1 n)
  show ?case
  proof (cases "n < 10")
    case True
    then show ?thesis using "1.prems" by (subst dec.simps) simp
  next
    case False
    then obtain j where k: "k = Suc j" and j: "0 < j"
      using "1.prems" by (cases k; cases "k = 1") auto
    with "1.prems" have "n div 10 < 10 ^ j" by (simp add: div_less_iff_less_mult)
    then have "length (dec (n div 10)) \<le> j" using "1.IH" False j by simp
    then show ?thesis using False k by (subst dec.simps) simp
  qed
qed

lemma split_on_no_sep: "c \<notin> set s \<Longrightarrow> split_on c s = [s]"
  by (induction s) auto

lemma split_on_append: "c \<notin> set s \<Longrightarrow> split_on c (s @ c # t) = s # split_on c t"
  by (induction s) auto

lemma sep_not_in_dec: "\<not> is_digit c \<Longrightarrow> c \<notin> set (dec n)"
  using dec_digits by blast

lemma dot_not_digit [simp]: "\<not> is_digit CHR ''.''" "\<not> is_digit CHR ''|''" "\<not> is_digit CHR '':''"
  by (simp_all add: is_digit_def)

section \<open>Insertion-ordered maps\<close>

text \<open>
  A JavaScript Map keeps its entries in insertion order and overwrites in place:
  \<open>AList.update\<close> does exactly this, \<open>AList.delete\<close> is \<open>Map.delete\<close>, \<open>map_of\<close> is \<open>Map.get\<close>.
\<close>

type_synonym ('k, 'v) jsmap = "('k \<times> 'v) list"

abbreviation map_get :: "('k, 'v) jsmap \<Rightarrow> 'k \<Rightarrow> 'v option" where
  "map_get m k \<equiv> map_of m k"

abbreviation map_set :: "'k \<Rightarrow> 'v \<Rightarrow> ('k, 'v) jsmap \<Rightarrow> ('k, 'v) jsmap" where
  "map_set k v m \<equiv> AList.update k v m"

abbreviation map_delete :: "'k \<Rightarrow> ('k, 'v) jsmap \<Rightarrow> ('k, 'v) jsmap" where
  "map_delete k m \<equiv> AList.delete k m"

definition map_has :: "('k, 'v) jsmap \<Rightarrow> 'k \<Rightarrow> bool" where
  "map_has m k = (map_get m k \<noteq> None)"

lemma map_get_set [simp]: "map_get (map_set k v m) k' = (if k' = k then Some v else map_get m k')"
  by (simp add: update_conv')

lemma map_get_delete [simp]:
  "map_get (map_delete k m) k' = (if k' = k then None else map_get m k')"
  by (simp add: delete_conv')

lemma map_has_iff: "map_has m k \<longleftrightarrow> k \<in> fst ` set m"
  by (simp add: map_has_def map_of_eq_None_iff)

lemma map_set_fresh: "k \<notin> fst ` set m \<Longrightarrow> map_set k v m = m @ [(k, v)]"
  by (induction m) auto

lemma length_map_set:
  "length (map_set k v m) = (if k \<in> fst ` set m then length m else Suc (length m))"
  by (induction m) auto

lemma length_map_delete_le: "length (map_delete k m) \<le> length m"
  by (simp add: length_delete_le)

lemma map_delete_filter: "map_delete k m = filter (\<lambda>r. fst r \<noteq> k) m"
  by (induction m) auto

section \<open>Machines: from one step to whole runs\<close>

fun run :: "('s \<Rightarrow> 'e \<Rightarrow> 's) \<Rightarrow> 's \<Rightarrow> 'e list \<Rightarrow> 's" where
  "run step s [] = s"
| "run step s (e # es) = run step (step s e) es"

text \<open>\<open>admissible ok step s es\<close>: every event of the run is allowed in the state it meets.\<close>

fun admissible :: "('s \<Rightarrow> 'e \<Rightarrow> bool) \<Rightarrow> ('s \<Rightarrow> 'e \<Rightarrow> 's) \<Rightarrow> 's \<Rightarrow> 'e list \<Rightarrow> bool" where
  "admissible ok step s [] = True"
| "admissible ok step s (e # es) = (ok s e \<and> admissible ok step (step s e) es)"

lemma run_append [simp]: "run step s (xs @ ys) = run step (run step s xs) ys"
  by (induction xs arbitrary: s) auto

lemma admissible_append [simp]:
  "admissible ok step s (xs @ ys) =
     (admissible ok step s xs \<and> admissible ok step (run step s xs) ys)"
  by (induction xs arbitrary: s) auto

lemma admissible_always [simp]: "admissible (\<lambda>_ _. True) step s es"
  by (induction es arbitrary: s) auto

locale machine =
  fixes ok :: "'s \<Rightarrow> 'e \<Rightarrow> bool"
    and step :: "'s \<Rightarrow> 'e \<Rightarrow> 's"
    and inv :: "'s \<Rightarrow> bool"
  assumes step_inv: "inv s \<Longrightarrow> ok s e \<Longrightarrow> inv (step s e)"
begin

lemma run_inv: "inv s \<Longrightarrow> admissible ok step s es \<Longrightarrow> inv (run step s es)"
  by (induction es arbitrary: s) (auto intro: step_inv)

lemma every_state_inv:
  assumes "inv s" "admissible ok step s (xs @ ys)"
  shows "inv (run step s xs)"
  using assms by (auto intro: run_inv)

end

text \<open>A machine whose steps also never decrease a measured quantity.\<close>

locale monotone_machine = machine ok step inv
  for ok :: "'s \<Rightarrow> 'e \<Rightarrow> bool" and step :: "'s \<Rightarrow> 'e \<Rightarrow> 's" and inv :: "'s \<Rightarrow> bool" +
  fixes level :: "'s \<Rightarrow> 'l :: preorder"
  assumes step_level: "inv s \<Longrightarrow> ok s e \<Longrightarrow> level s \<le> level (step s e)"
begin

lemma run_level: "inv s \<Longrightarrow> admissible ok step s es \<Longrightarrow> level s \<le> level (run step s es)"
proof (induction es arbitrary: s)
  case Nil
  then show ?case by simp
next
  case (Cons e es)
  then have "level s \<le> level (step s e)" "level (step s e) \<le> level (run step (step s e) es)"
    by (auto intro: step_level step_inv)
  then show ?case by (auto intro: order_trans)
qed

end

end
