(* ===== verification/Packet_Utils.thy ===== *)
theory Packet_Utils
  imports Prelude
begin

text \<open>
  Model of packet_utils.js: the Internet checksum, dotted-quad addresses, the IPv4 and UDP
  parsers and the IPv4 builder, with the in-place transport checksum.
\<close>

section \<open>The Internet checksum\<close>

text \<open>\<open>for (i; i + 1 < n; i += 2) sum += data.readUInt16BE(i)\<close>, every read in range by the guard.\<close>

function sum_words :: "bytes \<Rightarrow> nat \<Rightarrow> nat \<Rightarrow> int \<Rightarrow> int" where
  "sum_words data i n acc =
     (if i + 1 < n then sum_words data (i + 2) n (acc + int (u16be data i)) else acc)"
  by pat_completeness auto
termination
  by (relation "measure (\<lambda>(data, i, n, acc). n - i)") auto

declare sum_words.simps [simp del]

text \<open>\<open>while (sum > 0xffff) sum = (sum & 0xffff) + Math.floor(sum / 0x10000)\<close>\<close>

function fold_carries :: "int \<Rightarrow> int" where
  "fold_carries s = (if s > 0xffff then fold_carries (s mod 0x10000 + s div 0x10000) else s)"
  by pat_completeness auto
termination
  by (relation "measure nat") (auto simp: minus_mult_div_eq_mod [symmetric])

declare fold_carries.simps [simp del]

definition last_byte_shifted :: "bytes \<Rightarrow> int" where
  "last_byte_shifted data = int (unat (byte_at data (length data - 1))) * 256"

definition complement16 :: "int \<Rightarrow> nat" where
  "complement16 s = nat ((- s - 1) mod 0x10000)"

definition internetChecksum :: "bytes \<Rightarrow> nat" where
  "internetChecksum data =
     (let s = sum_words data 0 (length data) 0;
          s = (if length data mod 2 \<noteq> 0 then s + last_byte_shifted data else s)
      in complement16 (fold_carries s))"

section \<open>Addresses\<close>

text \<open>\<open>AddrOther\<close> stands for an argument that is neither a Buffer nor a string.\<close>

datatype address = AddrBuffer bytes | AddrString string | AddrOther

text \<open>The regular expression \<open>/^\d{1,3}$/\<close>.\<close>

definition octet_text :: "string \<Rightarrow> bool" where
  "octet_text part \<longleftrightarrow> 1 \<le> length part \<and> length part \<le> 3 \<and> list_all is_digit part"

text \<open>
  \<open>Number(part)\<close> is only looked at after the regular expression has accepted every part, and
  is then the decimal value.
\<close>

definition ipv4Bytes :: "address \<Rightarrow> bytes result" where
  "ipv4Bytes address =
     (case address of
        AddrBuffer b \<Rightarrow>
          if length b \<noteq> 4 then Inl (TypeError ''IPv4 address must contain four bytes'') else Inr b
      | AddrOther \<Rightarrow> Inl (TypeError ''Invalid IPv4 address'')
      | AddrString s \<Rightarrow>
          let parts = split_on CHR ''.'' s; octets = map dec_value parts
          in if length parts \<noteq> 4 \<or> list_ex (\<lambda>part. \<not> octet_text part) parts
                \<or> list_ex (\<lambda>octet. octet > 255) octets
             then Inl (TypeError ''Invalid IPv4 address'')
             else Inr (map word_of_nat octets))"

definition formatIPv4 :: "bytes \<Rightarrow> nat \<Rightarrow> string" where
  "formatIPv4 ipPacket offset =
     dec (unat (byte_at ipPacket offset)) @ ''.'' @
     dec (unat (byte_at ipPacket (offset + 1))) @ ''.'' @
     dec (unat (byte_at ipPacket (offset + 2))) @ ''.'' @
     dec (unat (byte_at ipPacket (offset + 3)))"

section \<open>Parsing\<close>

record ipv4_packet =
  ip_packet :: bytes
  ip_headerLength :: nat
  ip_totalLength :: nat
  ip_protocol :: nat
  ip_srcIP :: string
  ip_dstIP :: string
  ip_moreFragments :: bool
  ip_fragmentOffset :: nat

definition parseIPv4Packet :: "bytes \<Rightarrow> ipv4_packet option" where
  "parseIPv4Packet ipPacket =
     (if length ipPacket < 20 then None
      else
        let version = unat (drop_bit 4 (byte_at ipPacket 0));
            headerLength = unat (byte_at ipPacket 0 AND 0x0f) * 4
        in if version \<noteq> 4 \<or> headerLength < 20 \<or> length ipPacket < headerLength then None
           else
             let totalLength = u16be ipPacket 2
             in if totalLength < headerLength \<or> totalLength > length ipPacket then None
                else
                  let fragmentField = u16be ipPacket 6
                  in Some \<lparr>ip_packet = subarray ipPacket 0 totalLength,
                           ip_headerLength = headerLength,
                           ip_totalLength = totalLength,
                           ip_protocol = unat (byte_at ipPacket 9),
                           ip_srcIP = formatIPv4 ipPacket 12,
                           ip_dstIP = formatIPv4 ipPacket 16,
                           ip_moreFragments = (fragmentField AND 0x2000 \<noteq> 0),
                           ip_fragmentOffset = fragmentField AND 0x1fff\<rparr>)"

record udp_datagram =
  udp_srcPort :: nat
  udp_dstPort :: nat
  udp_length :: nat
  udp_payload :: bytes

definition parseUDPDatagram :: "ipv4_packet option \<Rightarrow> udp_datagram option" where
  "parseUDPDatagram parsed =
     (case parsed of None \<Rightarrow> None
      | Some r \<Rightarrow>
          if ip_protocol r \<noteq> 17 then None
          else
            let udpOffset = ip_headerLength r; packet = ip_packet r
            in if length packet < udpOffset + 8 then None
               else
                 let len = u16be packet (udpOffset + 4)
                 in if len < 8 \<or> udpOffset + len > length packet then None
                    else Some \<lparr>udp_srcPort = u16be packet udpOffset,
                               udp_dstPort = u16be packet (udpOffset + 2),
                               udp_length = len,
                               udp_payload = subarray packet (udpOffset + 8) (udpOffset + len)\<rparr>)"

section \<open>Building\<close>

text \<open>
  \<open>mem\<close> is the uninitialised memory that \<open>Buffer.allocUnsafe(packetLength)\<close> returns; every
  byte of it is overwritten, so \<open>buildIPv4Packet\<close> may as well start from zeros.
\<close>

definition buildIPv4Packet_in ::
  "bytes \<Rightarrow> bytes \<Rightarrow> address \<Rightarrow> address \<Rightarrow> nat \<Rightarrow> nat \<Rightarrow> bytes result" where
  "buildIPv4Packet_in mem payload src dst protocol identification =
     (let packetLength = 20 + length payload
      in if packetLength > 0xffff
         then Inl (RangeError ''IPv4 packet exceeds the 65535-byte maximum'')
         else if identification > 0xffff then Inl (RangeError ''ERR_OUT_OF_RANGE'')
         else bind_result (ipv4Bytes src) (\<lambda>s. bind_result (ipv4Bytes dst) (\<lambda>d.
           let packet = put mem 0 [0x45, 0];
               packet = put packet 2 (u16_bytes packetLength);
               packet = put packet 4 (u16_bytes identification);
               packet = put packet 6 (u16_bytes 0);
               packet = put packet 8 [64, word_of_nat protocol];
               packet = put packet 10 (u16_bytes 0);
               packet = put packet 12 s;
               packet = put packet 16 d;
               packet = put packet 10 (u16_bytes (internetChecksum (subarray packet 0 20)))
           in Inr (put packet 20 payload))))"

definition buildIPv4Packet :: "bytes \<Rightarrow> address \<Rightarrow> address \<Rightarrow> nat \<Rightarrow> nat \<Rightarrow> bytes result" where
  "buildIPv4Packet payload src dst protocol identification =
     buildIPv4Packet_in (alloc (20 + length payload)) payload src dst protocol identification"

section \<open>The transport checksum\<close>

definition transportChecksum :: "bytes \<Rightarrow> nat \<Rightarrow> nat \<Rightarrow> nat result" where
  "transportChecksum ipPacket protocol checksumOffset =
     (let headerLength = unat (byte_at ipPacket 0 AND 0x0f) * 4
      in if headerLength < 20 \<or> length ipPacket < headerLength
         then Inl (RangeError ''Invalid IPv4 header length'')
         else
           let transportLength = length ipPacket - headerLength
           in if transportLength > 0xffff
              then Inl (RangeError ''Transport length exceeds 65535 bytes'')
              else if transportLength < checksumOffset + 2
              then Inl (RangeError ''Transport packet is too short for its checksum field'')
              else
                let s = int protocol + int transportLength;
                    s = sum_words ipPacket 12 20 s;
                    s = s - int (u16be ipPacket (headerLength + checksumOffset));
                    s = sum_words ipPacket headerLength (length ipPacket) s;
                    s = (if transportLength mod 2 \<noteq> 0 then s + last_byte_shifted ipPacket else s)
                in Inr (complement16 (fold_carries s)))"

definition tcpChecksum :: "bytes \<Rightarrow> nat result" where
  "tcpChecksum ipPacket = transportChecksum ipPacket 6 16"

definition udpChecksum :: "bytes \<Rightarrow> nat result" where
  "udpChecksum ipPacket = transportChecksum ipPacket 17 6"


section \<open>Ones' complement arithmetic\<close>

text \<open>The reference reading: a buffer as a list of big-endian 16-bit words, zero padded.\<close>

fun words16 :: "bytes \<Rightarrow> int" where
  "words16 (a # b # r) = int (unat a * 256 + unat b) + words16 r"
| "words16 [a] = int (unat a) * 256"
| "words16 [] = 0"

lemma words16_nonneg [simp]: "0 \<le> words16 p"
  by (induction p rule: words16.induct) auto

lemma words16_append: "even (length p) \<Longrightarrow> words16 (p @ q) = words16 p + words16 q"
  by (induction p rule: words16.induct) auto

lemma words16_zeros [simp]: "words16 (replicate n 0) = 0"
  by (induction n rule: induct_nat_012) auto

lemma words16_u16_bytes [simp]: "n < 65536 \<Longrightarrow> words16 (u16_bytes n) = int n"
  using u16_value [of n] by (simp add: u16_bytes_def)

lemma drop2_eq: "i + 1 < length p \<Longrightarrow> drop i p = byte_at p i # byte_at p (i + 1) # drop (i + 2) p"
  by (simp add: byte_at_def Cons_nth_drop_Suc)

lemma sum_words_whole:
  "i \<le> length p \<Longrightarrow>
   sum_words p i (length p) acc + (if odd (length p - i) then last_byte_shifted p else 0) =
   acc + words16 (drop i p)"
proof (induction p i "length p" acc rule: sum_words.induct)
  case (1 p i acc)
  show ?case
  proof (cases "i + 1 < length p")
    case True
    then have odd_iff: "odd (length p - (i + 2)) = odd (length p - i)"
      by (simp add: less_imp_Suc_add)
    show ?thesis
      using "1.hyps" True odd_iff
      by (subst sum_words.simps) (simp add: drop2_eq u16be_def)
  next
    case False
    with "1.prems" consider "i = length p" | "length p = Suc i" by linarith
    then show ?thesis
    proof cases
      case 1
      then show ?thesis by (subst sum_words.simps) simp
    next
      case 2
      then have "drop i p = [p ! i]"
        by (metis Cons_nth_drop_Suc drop_all lessI order_refl)
      with 2 show ?thesis
        by (subst sum_words.simps) (simp add: last_byte_shifted_def byte_at_def)
    qed
  qed
qed

lemma sum_words_range:
  "i \<le> n \<Longrightarrow> n \<le> length p \<Longrightarrow> even (n - i) \<Longrightarrow>
   sum_words p i n acc = acc + words16 (subarray p i n)"
proof (induction p i n acc rule: sum_words.induct)
  case (1 p i n acc)
  show ?case
  proof (cases "i + 1 < n")
    case True
    then have "n - i = Suc (Suc (n - (i + 2)))" by linarith
    moreover have "sum_words p (i + 2) n (acc + int (u16be p i)) =
        acc + int (u16be p i) + words16 (subarray p (i + 2) n)"
      using True "1.prems" by (intro "1.IH") auto
    ultimately show ?thesis
      using True "1.prems" by (subst sum_words.simps) (simp add: subarray_def drop2_eq u16be_def)
  next
    case False
    with "1.prems" have "n = i" by presburger
    then show ?thesis by (subst sum_words.simps) (simp add: subarray_def)
  qed
qed

lemma fold_carries_value:
  "0 \<le> s \<Longrightarrow> fold_carries s = (if s = 0 then 0 else (s - 1) mod 65535 + 1)"
proof (induction s rule: fold_carries.induct)
  case (1 s)
  show ?case
  proof (cases "s > 65535")
    case True
    define t where "t = s mod 65536 + s div 65536"
    have s: "s = s div 65536 * 65536 + s mod 65536" by simp
    have "0 < s div 65536" using True by (simp add: pos_imp_zdiv_pos_iff)
    moreover have "0 \<le> s mod 65536" by simp
    ultimately have t: "0 < t" "t - 1 = (s - 1) - s div 65536 * 65535"
      using s unfolding t_def by linarith+
    have "fold_carries t = (t - 1) mod 65535 + 1"
      using "1.IH" True t(1) by (simp add: t_def)
    also have "(t - 1) mod 65535 = (s - 1) mod 65535"
      unfolding t(2) by (metis mod_mult_self4 mult.commute uminus_add_conv_diff mult_minus_left)
    finally show ?thesis
      using True by (subst fold_carries.simps) (simp add: t_def)
  next
    case False
    then show ?thesis using "1.prems" by (subst fold_carries.simps) simp
  qed
qed

lemma fold_carries_bounds: "0 \<le> s \<Longrightarrow> 0 \<le> fold_carries s \<and> fold_carries s \<le> 65535"
proof -
  assume "0 \<le> s"
  moreover have "(s - 1) mod 65535 \<le> 65534"
    using pos_mod_bound [of 65535 "s - 1"] by linarith
  ultimately show ?thesis by (simp add: fold_carries_value)
qed

lemma complement16_eq: "0 \<le> s \<Longrightarrow> s \<le> 65535 \<Longrightarrow> complement16 s = nat (65535 - s)"
proof -
  assume "0 \<le> s" "s \<le> 65535"
  then have "(- s - 1) mod 65536 = 65535 - s"
    using mod_pos_pos_trivial [of "65535 - s" 65536] mod_add_self2 [of "- s - 1" "65536 :: int"]
    by (simp add: algebra_simps)
  then show ?thesis by (simp add: complement16_def)
qed

text \<open>The checksum of a sum of words, and what a receiver computes from it.\<close>

definition checksum_of :: "int \<Rightarrow> nat" where
  "checksum_of s = nat (65535 - fold_carries s)"

lemma checksum_of_lt: "0 \<le> s \<Longrightarrow> checksum_of s < 65536"
  using fold_carries_bounds [of s] by (simp add: checksum_of_def nat_less_iff)

lemma complement16_fold: "0 \<le> s \<Longrightarrow> complement16 (fold_carries s) = checksum_of s"
  using fold_carries_bounds [of s] by (simp add: checksum_of_def complement16_eq)

lemma checksum_of_self: "0 \<le> s \<Longrightarrow> fold_carries (s + int (checksum_of s)) = 65535"
proof (cases "s = 0")
  case True
  then show ?thesis by (simp add: checksum_of_def fold_carries_value)
next
  case False
  assume "0 \<le> s"
  with False have s: "0 < s" by simp
  have bounds: "0 \<le> fold_carries s" "fold_carries s \<le> 65535"
    using fold_carries_bounds [of s] s by simp_all
  have "s + int (checksum_of s) - 1 = (s - 1) - (s - 1) mod 65535 + 65534"
    using bounds s by (simp add: checksum_of_def fold_carries_value)
  also have "\<dots> = 65534 + 65535 * ((s - 1) div 65535)"
    by (simp add: minus_mod_eq_mult_div)
  also have "\<dots> mod 65535 = 65534"
    by (simp only: mod_mult_self2) simp
  finally show ?thesis
    using s by (simp add: fold_carries_value)
qed

lemma internetChecksum_words: "internetChecksum p = checksum_of (words16 p)"
proof -
  have "(if length p mod 2 \<noteq> 0 then sum_words p 0 (length p) 0 + last_byte_shifted p
         else sum_words p 0 (length p) 0) = words16 p"
    using sum_words_whole [of 0 p 0] by (auto simp: odd_iff_mod_2_eq_one even_iff_mod_2_eq_zero)
  then show ?thesis
    by (simp add: internetChecksum_def Let_def complement16_fold)
qed

lemma internetChecksum_lt: "internetChecksum p < 65536"
  by (simp add: internetChecksum_words checksum_of_lt)


section \<open>Building and parsing agree\<close>

lemma put_append:
  "off + length src \<le> length p \<Longrightarrow> put (p @ q) off src = put p off src @ q"
  by (simp add: put_def)

lemma put_Nil_end: "length p = off \<Longrightarrow> length q = length src \<Longrightarrow> put (p @ q) off src = p @ src"
  by (simp add: put_def)

lemma put_same [simp]: "off + length src \<le> length p \<Longrightarrow> length src = length src' \<Longrightarrow>
    put (put p off src) off src' = put p off src'"
  by (simp add: put_def)

definition ipv4_header :: "nat \<Rightarrow> nat \<Rightarrow> nat \<Rightarrow> bytes \<Rightarrow> bytes \<Rightarrow> nat \<Rightarrow> bytes" where
  "ipv4_header len ident protocol src dst cks =
     [0x45, 0] @ u16_bytes len @ u16_bytes ident @ u16_bytes 0 @ [64, word_of_nat protocol]
       @ u16_bytes cks @ src @ dst"

lemma length_ipv4_header [simp]:
  "length src = 4 \<Longrightarrow> length dst = 4 \<Longrightarrow> length (ipv4_header n i pr src dst c) = 20"
  by (simp add: ipv4_header_def)

lemma list4_cases:
  assumes "length s = 4"
  obtains a b c d where "s = [a, b, c, d]"
  using assms by (auto simp: length_Suc_conv numeral_eq_Suc)

lemma ipv4Bytes_length: "ipv4Bytes a = Inr b \<Longrightarrow> length b = 4"
  by (auto simp: ipv4Bytes_def Let_def split: address.splits if_splits)

lemma put_first: "length src \<le> length mem \<Longrightarrow> put mem 0 src = src @ drop (length src) mem"
  by (simp add: put_def)

lemma put_next:
  "length pre = off \<Longrightarrow> off + length src \<le> length mem \<Longrightarrow>
   put (pre @ drop off mem) off src = (pre @ src) @ drop (off + length src) mem"
  by (simp add: put_def add.commute)

lemma consecutive_puts:
  assumes "length mem = 20" "length s = 4" "length d = 4" "length a = 2" "length b = 2"
    "length c = 2" "length e = 2" "length f = 2" "length g = 2"
  shows "put (put (put (put (put (put (put (put mem 0 a) 2 b) 4 c) 6 e) 8 f) 10 g) 12 s) 16 d =
         a @ b @ c @ e @ f @ g @ s @ d"
proof -
  have "put (put (put (put (put (put (put (put mem 0 a) 2 b) 4 c) 6 e) 8 f) 10 g) 12 s) 16 d =
      (((((((a @ b) @ c) @ e) @ f) @ g) @ s) @ d) @ drop 20 mem"
    using assms by (simp add: put_first put_next del: append_assoc)
  then show ?thesis using assms(1) by simp
qed

lemma header_writes:
  assumes "length mem = 20" "length s = 4" "length d = 4"
  shows "put (put (put (put (put (put (put (put mem 0 [0x45, 0]) 2 (u16_bytes n)) 4 (u16_bytes i))
           6 (u16_bytes 0)) 8 [64, word_of_nat pr]) 10 (u16_bytes c)) 12 s) 16 d =
         ipv4_header n i pr s d c"
  using assms by (simp add: consecutive_puts ipv4_header_def)

lemma header_checksum_write:
  assumes "length s = 4" "length d = 4"
  shows "put (ipv4_header n i pr s d c) 10 (u16_bytes c') = ipv4_header n i pr s d c'"
  using assms by (simp add: put_def ipv4_header_def u16_bytes_def)

lemma buildIPv4Packet_in_shape:
  assumes mem: "length mem = 20 + length payload"
    and size: "20 + length payload \<le> 0xffff" and ident: "ident \<le> 0xffff"
    and src: "ipv4Bytes src = Inr s" and dst: "ipv4Bytes dst = Inr d"
  shows "buildIPv4Packet_in mem payload src dst protocol ident =
    Inr (ipv4_header (20 + length payload) ident protocol s d
           (internetChecksum (ipv4_header (20 + length payload) ident protocol s d 0)) @ payload)"
proof -
  note lens = ipv4Bytes_length [OF src] ipv4Bytes_length [OF dst]
  define hd0 tl0 where "hd0 = take 20 mem" and "tl0 = drop 20 mem"
  have mem_eq: "mem = hd0 @ tl0" and hd0: "length hd0 = 20" and tl0: "length tl0 = length payload"
    using mem by (simp_all add: hd0_def tl0_def)
  show ?thesis
    using size ident
    by (simp add: buildIPv4Packet_in_def src dst lens mem_eq hd0 put_append Let_def header_writes
        subarray_def header_checksum_write put_Nil_end tl0 del: put_same)
qed

lemma buildIPv4Packet_error:
  "\<not> (20 + length payload \<le> 0xffff \<and> ident \<le> 0xffff \<and>
      (\<exists>s. ipv4Bytes src = Inr s) \<and> (\<exists>d. ipv4Bytes dst = Inr d)) \<Longrightarrow>
   \<exists>e. buildIPv4Packet_in mem payload src dst protocol ident = Inl e"
  by (cases "ipv4Bytes src"; cases "ipv4Bytes dst")
     (auto simp: buildIPv4Packet_in_def Let_def)

lemma words16_header:
  assumes "length s = 4" "length d = 4" "c < 65536"
  shows "words16 (ipv4_header n i pr s d c) = words16 (ipv4_header n i pr s d 0) + int c"
proof -
  obtain s0 s1 s2 s3 where s: "s = [s0, s1, s2, s3]" using assms(1) by (rule list4_cases)
  obtain d0 d1 d2 d3 where d: "d = [d0, d1, d2, d3]" using assms(2) by (rule list4_cases)
  show ?thesis
    using u16_value [OF assms(3)] by (simp add: s d ipv4_header_def u16_bytes_def)
qed

lemma header_checksum_zero:
  assumes "length s = 4" "length d = 4"
  shows "internetChecksum (ipv4_header n i pr s d (internetChecksum (ipv4_header n i pr s d 0))) = 0"
proof -
  let ?S = "words16 (ipv4_header n i pr s d 0)"
  have "words16 (ipv4_header n i pr s d (checksum_of ?S)) = ?S + int (checksum_of ?S)"
    using assms by (intro words16_header checksum_of_lt words16_nonneg)
  moreover have "checksum_of (?S + int (checksum_of ?S)) = 0"
    by (subst checksum_of_def) (simp add: checksum_of_self)
  ultimately show ?thesis by (simp add: internetChecksum_words)
qed


section \<open>The transport checksum against its definition\<close>

definition pseudo_header :: "bytes \<Rightarrow> nat \<Rightarrow> nat \<Rightarrow> bytes" where
  "pseudo_header ipPacket protocol transportLength =
     subarray ipPacket 12 20 @ [0, word_of_nat protocol] @ u16_bytes transportLength"

definition header_len :: "bytes \<Rightarrow> nat" where
  "header_len ipPacket = unat (byte_at ipPacket 0 AND 0x0f) * 4"

definition transport_of :: "bytes \<Rightarrow> bytes" where
  "transport_of ipPacket = drop (header_len ipPacket) ipPacket"

text \<open>What a receiver checks: the words of pseudo-header and transport add up to all ones.\<close>

definition transport_valid :: "bytes \<Rightarrow> nat \<Rightarrow> bool" where
  "transport_valid ipPacket protocol \<longleftrightarrow>
     fold_carries (words16 (pseudo_header ipPacket protocol (length (transport_of ipPacket))
       @ transport_of ipPacket)) = 65535"

lemma words16_take_drop:
  "even n \<Longrightarrow> n \<le> length p \<Longrightarrow> words16 p = words16 (take n p) + words16 (drop n p)"
  using words16_append [of "take n p" "drop n p"] by simp

lemma words16_put:
  assumes "even off" "off + 2 \<le> length p" "n < 65536"
  shows "words16 (put p off (u16_bytes n)) = words16 p - int (u16be p off) + int n"
proof -
  have split: "words16 (take off p @ x @ drop (off + 2) p) =
      words16 (take off p) + words16 x + words16 (drop (off + 2) p)" if "length x = 2" for x
    using assms that by (simp add: words16_append)
  have "p = take off p @ [byte_at p off, byte_at p (off + 1)] @ drop (off + 2) p"
    using assms drop2_eq [of off p] by (metis append_Cons append_Nil append_take_drop_id
        less_le_trans nat_add_left_cancel_less one_less_numeral_iff semiring_norm(76))
  then have "words16 p = words16 (take off p) + int (u16be p off) + words16 (drop (off + 2) p)"
    using split [of "[byte_at p off, byte_at p (off + 1)]"] by (simp add: u16be_def)
  moreover have "words16 (put p off (u16_bytes n)) =
      words16 (take off p) + int n + words16 (drop (off + 2) p)"
    using assms split [of "u16_bytes n"] by (simp add: put_def)
  ultimately show ?thesis by simp
qed

lemma u16be_drop: "k + i + 1 < length p \<Longrightarrow> u16be (drop k p) i = u16be p (k + i)"
  by (simp add: u16be_def byte_at_def less_diff_conv add_ac)

lemma words16_pseudo_header:
  assumes "20 \<le> length p" "protocol < 256" "tlen < 65536"
  shows "words16 (pseudo_header p protocol tlen @ q) =
    int protocol + int tlen + words16 (subarray p 12 20) + words16 q"
  using assms
  by (simp add: pseudo_header_def words16_append unat_word_of_nat_byte)

lemma word16_le_words16:
  assumes "even off" "off + 2 \<le> length p"
  shows "int (u16be p off) \<le> words16 p"
  using words16_put [OF assms, of 0] words16_nonneg [of "put p off (u16_bytes 0)"] by linarith

lemma transportChecksum_eq:
  assumes "20 \<le> header_len p" "header_len p \<le> length p"
    and "length (transport_of p) \<le> 0xffff" "checksumOffset + 2 \<le> length (transport_of p)"
    and "protocol < 256" "even checksumOffset"
  shows "transportChecksum p protocol checksumOffset =
    Inr (internetChecksum (pseudo_header p protocol (length (transport_of p))
           @ put (transport_of p) checksumOffset (u16_bytes 0)))"
proof -
  let ?t = "transport_of p" and ?h = "header_len p"
  have len: "length p - ?h = length ?t" by (simp add: transport_of_def)
  have A: "sum_words p 12 20 acc = acc + words16 (subarray p 12 20)" for acc
    using assms(1,2) by (intro sum_words_range) auto
  have B: "sum_words p ?h (length p) acc +
      (if odd (length p - ?h) then last_byte_shifted p else 0) = acc + words16 ?t" for acc
    unfolding transport_of_def by (rule sum_words_whole [OF assms(2)])
  have C: "u16be p (?h + checksumOffset) = u16be ?t checksumOffset"
    using assms(2,4) u16be_drop [of ?h checksumOffset p] by (simp add: transport_of_def)
  let ?s = "int protocol + int (length ?t) + words16 (subarray p 12 20)
      - int (u16be ?t checksumOffset) + words16 ?t"
  have s: "?s = words16 (pseudo_header p protocol (length ?t) @ put ?t checksumOffset (u16_bytes 0))"
    using assms by (simp add: words16_pseudo_header words16_put)
  have B0: "length ?t mod 2 = 0 \<Longrightarrow> sum_words p ?h (length p) acc = acc + words16 ?t" for acc
    using B [of acc] unfolding len by (simp add: even_iff_mod_2_eq_zero)
  have B1: "length ?t mod 2 = Suc 0 \<Longrightarrow>
      sum_words p ?h (length p) acc + last_byte_shifted p = acc + words16 ?t" for acc
    using B [of acc] unfolding len by (simp add: odd_iff_mod_2_eq_one)
  have "transportChecksum p protocol checksumOffset = Inr (complement16 (fold_carries ?s))"
    using assms len unfolding transportChecksum_def header_len_def [symmetric]
    by (simp add: Let_def A C B0 B1)
  then show ?thesis
    unfolding s by (simp add: complement16_fold internetChecksum_words)
qed

lemma header_len_put:
  "0 < off \<Longrightarrow> off + length src \<le> length p \<Longrightarrow> header_len (put p off src) = header_len p"
  by (cases p) (auto simp: header_len_def put_def byte_at_def nth_append)

lemma transport_checksum_verifies:
  assumes "20 \<le> header_len p" "header_len p \<le> length p"
    and "length (transport_of p) \<le> 0xffff" "checksumOffset + 2 \<le> length (transport_of p)"
    and "protocol < 256" "even checksumOffset"
    and c: "transportChecksum p protocol checksumOffset = Inr c"
  shows "transport_valid (put p (header_len p + checksumOffset) (u16_bytes c)) protocol"
proof -
  let ?t = "transport_of p" and ?h = "header_len p"
  let ?p = "put p (?h + checksumOffset) (u16_bytes c)"
  let ?z = "put ?t checksumOffset (u16_bytes 0)"
  let ?ph = "pseudo_header p protocol (length ?t)"
  have len: "?h + checksumOffset + 2 \<le> length p" using assms by (simp add: transport_of_def)
  have h: "header_len ?p = ?h" using len assms by (intro header_len_put) auto
  have t: "transport_of ?p = put ?t checksumOffset (u16_bytes c)"
    using len unfolding transport_of_def h by (simp add: put_def drop_take add.commute)
  have ps: "subarray ?p 12 20 = subarray p 12 20"
    using assms len by (simp add: put_def subarray_def drop_take)
  have c_eq: "c = checksum_of (words16 (?ph @ ?z))"
    using c transportChecksum_eq [OF assms(1-6)] by (simp add: internetChecksum_words)
  then have "c < 65536" by (simp add: checksum_of_lt)
  then have "fold_carries (words16 (?ph @ put ?t checksumOffset (u16_bytes c))) =
      fold_carries (words16 (?ph @ ?z) + int c)"
    using assms by (simp add: words16_pseudo_header words16_put add.assoc)
  also have "\<dots> = 65535"
    unfolding c_eq by (intro checksum_of_self words16_nonneg)
  finally have "fold_carries (words16 (?ph @ put ?t checksumOffset (u16_bytes c))) = 65535" .
  moreover have "pseudo_header ?p protocol (length (transport_of ?p)) = ?ph"
    using assms(4) by (simp add: pseudo_header_def ps t)
  ultimately show ?thesis
    by (simp add: transport_valid_def t)
qed


section \<open>Addresses as text\<close>

lemma split_on_quad:
  "split_on CHR ''.'' (dec a @ ''.'' @ dec b @ ''.'' @ dec c @ ''.'' @ dec d) =
   [dec a, dec b, dec c, dec d]"
  by (simp add: split_on_append split_on_no_sep sep_not_in_dec)

lemma octet_text_dec: "n < 256 \<Longrightarrow> octet_text (dec n)"
proof -
  assume "n < 256"
  then have "length (dec n) \<le> 3" by (intro length_dec_le) simp_all
  moreover have "1 \<le> length (dec n)" by (simp add: Suc_le_eq)
  ultimately show ?thesis by (simp add: octet_text_def list_all_iff dec_digits)
qed

lemma ipv4Bytes_quad:
  fixes a b c d :: byte
  shows "ipv4Bytes (AddrString (dec (unat a) @ ''.'' @ dec (unat b) @ ''.'' @ dec (unat c) @ ''.''
    @ dec (unat d))) = Inr [a, b, c, d]"
proof -
  have le: "\<not> 255 < unat x" for x :: byte using byte_lt [of x] by linarith
  show ?thesis
    unfolding ipv4Bytes_def address.case split_on_quad
    by (simp add: octet_text_dec le)
qed

lemma formatIPv4_quad:
  "formatIPv4 p 0 = dec (unat (byte_at p 0)) @ ''.'' @ dec (unat (byte_at p 1)) @ ''.''
     @ dec (unat (byte_at p 2)) @ ''.'' @ dec (unat (byte_at p 3))"
  by (simp add: formatIPv4_def numeral_eq_Suc)

lemma subarray4:
  "o' + 4 \<le> length p \<Longrightarrow>
   subarray p o' (o' + 4) = [byte_at p o', byte_at p (o' + 1), byte_at p (o' + 2), byte_at p (o' + 3)]"
  by (simp add: subarray_def drop2_eq numeral_eq_Suc take_Suc_conv_app_nth byte_at_def)

lemma ipv4Bytes_formatIPv4:
  "o' + 4 \<le> length p \<Longrightarrow> ipv4Bytes (AddrString (formatIPv4 p o')) = Inr (subarray p o' (o' + 4))"
  by (simp only: formatIPv4_def ipv4Bytes_quad subarray4)

lemma formatIPv4_inj:
  assumes "formatIPv4 p i = formatIPv4 q j" "i + 4 \<le> length p" "j + 4 \<le> length q"
  shows "subarray p i (i + 4) = subarray q j (j + 4)"
  using assms ipv4Bytes_formatIPv4 by (metis sum.inject(2))

lemma formatIPv4_append [simp]: "i + 4 \<le> length p \<Longrightarrow> formatIPv4 (p @ q) i = formatIPv4 p i"
  by (simp add: formatIPv4_def byte_at_append1)

text \<open>No bar, so a flow key built from addresses can be taken apart again.\<close>

lemma formatIPv4_chars: "c \<in> set (formatIPv4 p i) \<Longrightarrow> is_digit c \<or> c = CHR ''.''"
  using dec_digits by (auto simp: formatIPv4_def)

section \<open>What the parsers guarantee\<close>

lemma parse_bounds:
  assumes "parseIPv4Packet p = Some r"
  shows "20 \<le> ip_headerLength r" "ip_headerLength r \<le> ip_totalLength r"
    "ip_totalLength r \<le> length p" "ip_packet r = take (ip_totalLength r) p"
    "length (ip_packet r) = ip_totalLength r" "header_len (ip_packet r) = ip_headerLength r"
    "ip_totalLength r < 65536" "ip_protocol r < 256"
proof -
  have "0 < length (take n p)" if "20 \<le> n" "20 \<le> length p" for n using that by auto
  then have "header_len (take n p) = header_len p" if "20 \<le> n" "20 \<le> length p" for n
    using that by (simp add: header_len_def byte_at_def)
  then show "20 \<le> ip_headerLength r" "ip_headerLength r \<le> ip_totalLength r"
    "ip_totalLength r \<le> length p" "ip_packet r = take (ip_totalLength r) p"
    "length (ip_packet r) = ip_totalLength r" "header_len (ip_packet r) = ip_headerLength r"
    "ip_totalLength r < 65536" "ip_protocol r < 256"
    using assms
    by (auto simp: parseIPv4Packet_def Let_def subarray_def header_len_def u16be_lt split: if_splits)
qed

lemma header_len_45: "header_len (0x45 # p) = 20"
  by (simp add: header_len_def)

lemma parse_header:
  assumes "length s = 4" "length d = 4" "n < 65536" "20 \<le> n" "length payload = n - 20" "pr < 256"
    and "i < 65536" "c < 65536"
  shows "parseIPv4Packet ((ipv4_header n i pr s d c @ payload) @ trailer) =
    Some \<lparr>ip_packet = ipv4_header n i pr s d c @ payload, ip_headerLength = 20, ip_totalLength = n,
      ip_protocol = pr, ip_srcIP = formatIPv4 s 0, ip_dstIP = formatIPv4 d 0,
      ip_moreFragments = False, ip_fragmentOffset = 0\<rparr>"
proof -
  obtain s0 s1 s2 s3 where s: "s = [s0, s1, s2, s3]" using assms(1) by (rule list4_cases)
  obtain d0 d1 d2 d3 where d: "d = [d0, d1, d2, d3]" using assms(2) by (rule list4_cases)
  let ?h = "ipv4_header n i pr s d c" and ?p = "(ipv4_header n i pr s d c @ payload) @ trailer"
  have byte0: "byte_at ?p 0 = 0x45" by (simp add: ipv4_header_def)
  have total: "u16be ?p 2 = n" and frag: "u16be ?p 6 = 0" and proto: "byte_at ?p 9 = word_of_nat pr"
    using assms(3) u16_value [OF assms(3)]
    by (simp_all add: ipv4_header_def u16_bytes_def u16be_def)
  have src: "formatIPv4 ?p 12 = formatIPv4 s 0" and dst: "formatIPv4 ?p 16 = formatIPv4 d 0"
    by (simp_all add: s d formatIPv4_def ipv4_header_def u16_bytes_def)
  have len: "length ?p = n + length trailer" using assms by simp
  have "subarray ?p 0 n = ?h @ payload" using assms by (simp add: subarray_def)
  then show ?thesis
    using assms len unfolding parseIPv4Packet_def byte0 total frag proto src dst
    by (simp add: Let_def unat_word_of_nat_byte)
qed


section \<open>Built packets\<close>

lemma buildIPv4Packet_InrE:
  assumes "buildIPv4Packet payload src dst pr i = Inr p"
  obtains s d c where "ipv4Bytes src = Inr s" "ipv4Bytes dst = Inr d" "length s = 4" "length d = 4"
    "20 + length payload \<le> 65535" "i \<le> 65535"
    "c = internetChecksum (ipv4_header (20 + length payload) i pr s d 0)" "c < 65536"
    "p = ipv4_header (20 + length payload) i pr s d c @ payload"
proof -
  have ok: "20 + length payload \<le> 65535 \<and> i \<le> 65535 \<and>
      (\<exists>s. ipv4Bytes src = Inr s) \<and> (\<exists>d. ipv4Bytes dst = Inr d)"
    using assms buildIPv4Packet_error [of payload i src dst] unfolding buildIPv4Packet_def
    by (metis sum.simps(4))
  then obtain s d where sd: "ipv4Bytes src = Inr s" "ipv4Bytes dst = Inr d" by blast
  show thesis
  proof (rule that [OF sd])
    show "p = ipv4_header (20 + length payload) i pr s d
        (internetChecksum (ipv4_header (20 + length payload) i pr s d 0)) @ payload"
      using ok sd assms unfolding buildIPv4Packet_def by (simp add: buildIPv4Packet_in_shape)
  qed (use ok sd ipv4Bytes_length in \<open>auto simp: internetChecksum_lt\<close>)
qed

lemma built_transport:
  assumes "buildIPv4Packet payload src dst pr i = Inr p"
  shows "header_len p = 20" "transport_of p = payload" "length p = 20 + length payload"
    "length payload \<le> 65515"
proof -
  obtain s d c where "length s = 4" "length d = 4"
    and size: "20 + length payload \<le> 65535"
    and p: "p = ipv4_header (20 + length payload) i pr s d c @ payload"
    using assms by (rule buildIPv4Packet_InrE)
  then have len: "length (ipv4_header (20 + length payload) i pr s d c) = 20" by simp
  show h: "header_len p = 20" by (simp add: p ipv4_header_def header_len_45)
  show "transport_of p = payload" by (simp add: transport_of_def h) (simp add: p len)
  show "length p = 20 + length payload" by (simp add: p len)
  show "length payload \<le> 65515" using size by simp
qed

lemma built_checksum:
  assumes "buildIPv4Packet payload src dst pr i = Inr p"
    and "pr < 256" "even off" "off + 2 \<le> length payload"
  obtains c where "transportChecksum p pr off = Inr c" "c < 65536"
    "transport_valid (put p (20 + off) (u16_bytes c)) pr"
proof -
  note b = built_transport [OF assms(1)]
  let ?c = "internetChecksum (pseudo_header p pr (length payload) @ put payload off (u16_bytes 0))"
  have c: "transportChecksum p pr off = Inr ?c"
    using assms b by (subst transportChecksum_eq) auto
  have "transport_valid (put p (header_len p + off) (u16_bytes ?c)) pr"
    using assms b c by (intro transport_checksum_verifies) auto
  then show thesis using that [OF c] b internetChecksum_lt by simp
qed

lemma build_succeeds:
  assumes "ipv4Bytes src = Inr s" "ipv4Bytes dst = Inr d" "length payload \<le> 65515" "i \<le> 65535"
  shows "\<exists>p. buildIPv4Packet payload src dst pr i = Inr p"
  using assms buildIPv4Packet_in_shape [of "alloc (20 + length payload)" payload i src s dst d pr]
  unfolding buildIPv4Packet_def by simp

section \<open>Properties of packet_utils.js\<close>

text \<open>
  C22: every branch of buildIPv4Packet. The payload size, the identification and then each
  address are checked in this order, and a packet that passes is the 20-byte header with the
  checksum of that header, followed by the payload; nothing of the uninitialised memory
  \<open>mem\<close> survives.
\<close>
theorem buildIPv4Packet_outcome:
  assumes "length mem = 20 + length payload"
  shows "buildIPv4Packet_in mem payload src dst protocol ident =
    (if 20 + length payload > 0xffff
     then Inl (RangeError ''IPv4 packet exceeds the 65535-byte maximum'')
     else if ident > 0xffff then Inl (RangeError ''ERR_OUT_OF_RANGE'')
     else case (ipv4Bytes src, ipv4Bytes dst) of
         (Inl e, _) \<Rightarrow> Inl e
       | (Inr s, Inl e) \<Rightarrow> Inl e
       | (Inr s, Inr d) \<Rightarrow>
           Inr (ipv4_header (20 + length payload) ident protocol s d
             (internetChecksum (ipv4_header (20 + length payload) ident protocol s d 0)) @ payload))"
proof (cases "20 + length payload \<le> 65535 \<and> ident \<le> 65535")
  case True
  then show ?thesis
  proof (cases "ipv4Bytes src")
    case (Inr s)
    with True assms show ?thesis
      by (cases "ipv4Bytes dst") (auto simp: buildIPv4Packet_in_shape, simp add: buildIPv4Packet_in_def)
  qed (simp add: buildIPv4Packet_in_def)
qed (auto simp: buildIPv4Packet_in_def Let_def)

theorem buildIPv4Packet_outcome_witness:
  "buildIPv4Packet_in (replicate 21 0xff) [7] (AddrBuffer [10, 0, 2]) (AddrBuffer [10, 0, 2, 15]) 17 1 =
     Inl (TypeError ''IPv4 address must contain four bytes'')"
  by (subst buildIPv4Packet_outcome) (simp_all add: ipv4Bytes_def)

text \<open>
  A packet that buildIPv4Packet returns carries a correct header checksum: the Internet
  checksum of its first 20 bytes, checksum field included, is zero.
\<close>
theorem built_header_checksum:
  assumes "buildIPv4Packet payload src dst protocol ident = Inr p"
  shows "internetChecksum (subarray p 0 20) = 0"
proof -
  obtain s d c where "length s = 4" "length d = 4"
    and "c = internetChecksum (ipv4_header (20 + length payload) ident protocol s d 0)"
    and "p = ipv4_header (20 + length payload) ident protocol s d c @ payload"
    using assms by (rule buildIPv4Packet_InrE)
  then show ?thesis by (simp add: subarray_def header_checksum_zero)
qed

theorem built_header_checksum_witness:
  "internetChecksum
     (subarray [69, 0, 0, 22, 0, 7, 0, 0, 64, 17, 98, 192, 10, 0, 2, 2, 10, 0, 2, 15, 1, 2] 0 20) = 0"
  by (rule built_header_checksum [of "[1, 2]" "AddrBuffer [10, 0, 2, 2]" "AddrBuffer [10, 0, 2, 15]" 17 7])
     (simp add: buildIPv4Packet_def buildIPv4Packet_in_shape [where s = "[10, 0, 2, 2]" and d = "[10, 0, 2, 15]"]
       ipv4Bytes_def ipv4_header_def u16_bytes_def internetChecksum_words checksum_of_def
       fold_carries_value)

text \<open>
  C21: parsing what was built gives back every field, also when the frame carries trailing
  bytes after the packet (Ethernet padding), and the addresses come back as text that
  ipv4Bytes reads as the same four bytes.
\<close>
theorem build_parse_roundtrip:
  assumes "buildIPv4Packet payload src dst protocol ident = Inr p" and "protocol < 256"
  shows "\<exists>r. parseIPv4Packet (p @ trailer) = Some r \<and> ip_packet r = p \<and> ip_headerLength r = 20 \<and>
    ip_totalLength r = 20 + length payload \<and> ip_protocol r = protocol \<and>
    subarray p 20 (length p) = payload \<and>
    ipv4Bytes (AddrString (ip_srcIP r)) = ipv4Bytes src \<and>
    ipv4Bytes (AddrString (ip_dstIP r)) = ipv4Bytes dst \<and>
    \<not> ip_moreFragments r \<and> ip_fragmentOffset r = 0"
proof -
  obtain s d c where sd: "ipv4Bytes src = Inr s" "ipv4Bytes dst = Inr d" "length s = 4" "length d = 4"
    and bounds: "20 + length payload \<le> 65535" "ident \<le> 65535" "c < 65536"
    and p: "p = ipv4_header (20 + length payload) ident protocol s d c @ payload"
    using assms(1) by (rule buildIPv4Packet_InrE)
  have "parseIPv4Packet (p @ trailer) = Some \<lparr>ip_packet = p, ip_headerLength = 20,
      ip_totalLength = 20 + length payload, ip_protocol = protocol, ip_srcIP = formatIPv4 s 0,
      ip_dstIP = formatIPv4 d 0, ip_moreFragments = False, ip_fragmentOffset = 0\<rparr>"
    unfolding p using sd bounds assms(2) by (intro parse_header) auto
  moreover have "subarray p 20 (length p) = payload" using sd by (simp add: p subarray_def)
  moreover have "ipv4Bytes (AddrString (formatIPv4 x 0)) = Inr x" if "length x = 4" for x
    using that ipv4Bytes_formatIPv4 [of 0 x] by (simp add: subarray_def)
  ultimately show ?thesis using sd by simp
qed

theorem build_parse_roundtrip_witness:
  "\<exists>p r. buildIPv4Packet [1, 2] (AddrBuffer [10, 0, 2, 2]) (AddrBuffer [10, 0, 2, 15]) 17 7 = Inr p \<and>
     parseIPv4Packet (p @ [0, 0]) = Some r \<and> ip_packet r = p"
proof -
  obtain p where p: "buildIPv4Packet [1, 2] (AddrBuffer [10, 0, 2, 2]) (AddrBuffer [10, 0, 2, 15]) 17 7 = Inr p"
    using build_succeeds [of "AddrBuffer [10, 0, 2, 2]" "[10, 0, 2, 2]" "AddrBuffer [10, 0, 2, 15]"
        "[10, 0, 2, 15]" "[1, 2]" 7] by (auto simp: ipv4Bytes_def)
  then show ?thesis using build_parse_roundtrip [OF p, of "[0, 0]"] by auto
qed

text \<open>
  C20: the in-place transport checksum (which sums the packet once and subtracts the old
  checksum word) equals the textbook one: the Internet checksum of the pseudo-header followed
  by the transport segment with its checksum field set to zero.
\<close>
theorem transport_checksum_reference:
  assumes "20 \<le> header_len p" "header_len p \<le> length p"
    and "length (transport_of p) \<le> 0xffff" "checksumOffset + 2 \<le> length (transport_of p)"
    and "protocol < 256" "even checksumOffset"
  shows "transportChecksum p protocol checksumOffset =
    Inr (internetChecksum (pseudo_header p protocol (length (transport_of p))
           @ put (transport_of p) checksumOffset (u16_bytes 0)))"
  using assms by (rule transportChecksum_eq)

theorem transport_checksum_reference_witness:
  "transportChecksum [0x45, 0, 0, 29, 0, 0, 0, 0, 64, 17, 0, 0, 10, 0, 2, 15, 8, 8, 8, 8,
     1, 2, 3, 4, 0, 9, 9, 9, 7] 17 6 =
   Inr (internetChecksum ([10, 0, 2, 15, 8, 8, 8, 8, 0, 17, 0, 9] @ [1, 2, 3, 4, 0, 9, 0, 0, 7]))"
  by (subst transport_checksum_reference)
     (simp_all add: header_len_def transport_of_def pseudo_header_def put_def u16_bytes_def
       subarray_def)

text \<open>
  For every TCP and UDP segment long enough for its header, the checksum that tcpChecksum
  and udpChecksum compute on the built packet exists, fits 16 bits, and once written at its
  offset (36 for TCP, 26 for UDP) the receiver's check succeeds.
\<close>
theorem built_transport_checksum:
  assumes "20 \<le> length tcp" "buildIPv4Packet tcp src dst 6 i = Inr p"
    and "8 \<le> length udp" "buildIPv4Packet udp src' dst' 17 i' = Inr q"
  shows "(\<exists>c. tcpChecksum p = Inr c \<and> c < 65536 \<and> transport_valid (put p 36 (u16_bytes c)) 6) \<and>
    (\<exists>c. udpChecksum q = Inr c \<and> c < 65536 \<and> transport_valid (put q 26 (u16_bytes c)) 17)"
proof
  obtain c where "transportChecksum p 6 16 = Inr c" "c < 65536"
    "transport_valid (put p (20 + 16) (u16_bytes c)) 6"
    by (rule built_checksum [OF assms(2), of 16]) (use assms in auto)
  then show "\<exists>c. tcpChecksum p = Inr c \<and> c < 65536 \<and> transport_valid (put p 36 (u16_bytes c)) 6"
    by (auto simp: tcpChecksum_def)
  obtain c where "transportChecksum q 17 6 = Inr c" "c < 65536"
    "transport_valid (put q (20 + 6) (u16_bytes c)) 17"
    by (rule built_checksum [OF assms(4), of 6]) (use assms in auto)
  then show "\<exists>c. udpChecksum q = Inr c \<and> c < 65536 \<and> transport_valid (put q 26 (u16_bytes c)) 17"
    by (auto simp: udpChecksum_def)
qed

theorem built_transport_checksum_witness:
  "\<exists>p c. buildIPv4Packet (alloc 20) (AddrBuffer [8, 8, 8, 8]) (AddrBuffer [10, 0, 2, 15]) 6 0 = Inr p
     \<and> tcpChecksum p = Inr c \<and> transport_valid (put p 36 (u16_bytes c)) 6"
proof -
  have a: "ipv4Bytes (AddrBuffer [8, 8, 8, 8]) = Inr [8, 8, 8, 8]"
    "ipv4Bytes (AddrBuffer [10, 0, 2, 15]) = Inr [10, 0, 2, 15]" by (simp_all add: ipv4Bytes_def)
  obtain p where p: "buildIPv4Packet (alloc 20) (AddrBuffer [8, 8, 8, 8]) (AddrBuffer [10, 0, 2, 15]) 6 0 = Inr p"
    using build_succeeds [OF a, of "alloc 20" 0] by auto
  obtain q where q: "buildIPv4Packet (alloc 8) (AddrBuffer [8, 8, 8, 8]) (AddrBuffer [10, 0, 2, 15]) 17 0 = Inr q"
    using build_succeeds [OF a, of "alloc 8" 0] by auto
  show ?thesis using p built_transport_checksum [OF _ p _ q] by auto
qed

text \<open>
  The parsers never look outside the frame. A parsed IPv4 packet has a header of at least
  20 bytes inside a total length inside the received bytes; a parsed UDP datagram lies inside
  that packet, its payload has the announced length, and both ports are 16-bit.
\<close>
theorem parsers_in_bounds:
  assumes "parseIPv4Packet p = Some r"
  shows "20 \<le> ip_headerLength r \<and> ip_headerLength r \<le> ip_totalLength r \<and> ip_totalLength r \<le> length p
    \<and> ip_packet r = take (ip_totalLength r) p
    \<and> (case parseUDPDatagram (Some r) of None \<Rightarrow> True
        | Some u \<Rightarrow> ip_protocol r = 17 \<and> 8 \<le> udp_length u
            \<and> ip_headerLength r + udp_length u \<le> ip_totalLength r
            \<and> length (udp_payload u) = udp_length u - 8
            \<and> udp_srcPort u < 65536 \<and> udp_dstPort u < 65536)"
  using parse_bounds [OF assms]
  by (auto simp: parseUDPDatagram_def Let_def u16be_lt split: option.splits)

theorem parsers_in_bounds_witness:
  "\<exists>r. parseIPv4Packet (0x45 # 0 # 0 # 20 # replicate 20 0) = Some r \<and> ip_totalLength r \<le> 24"
proof -
  have "parseIPv4Packet (0x45 # 0 # 0 # 20 # replicate 20 0) \<noteq> None"
    by (simp add: parseIPv4Packet_def Let_def u16be_def)
  then obtain r where r: "parseIPv4Packet (0x45 # 0 # 0 # 20 # replicate 20 0) = Some r" by blast
  then show ?thesis using parsers_in_bounds [OF r] by auto
qed

end
