(* ===== verification/Rate_Limiter.thy ===== *)
theory Rate_Limiter
  imports Prelude
begin

text \<open>
  Model of rate_limiter.js: the sliding-window limiter with its lazily pruned entry array,
  refined to the list of live entries, and the bandwidth guarantee over every window of a run.
\<close>

section \<open>State and operations\<close>

text \<open>
  An entry is a pair of a timestamp and the bytes accepted at it. The clock \<open>this.now()\<close> is an
  argument of the operations; numbers are exact rationals (all values the relay stores are
  integers below \<open>2 ^ 53\<close>, where JavaScript arithmetic is exact too).
\<close>

type_synonym entry = "rat \<times> rat"

record rate_limiter =
  maxBytes :: rat
  windowMs :: rat
  entries :: "entry list"
  head :: nat
  totalBytes :: rat

definition new_rate_limiter :: "js_number \<Rightarrow> js_number \<Rightarrow> rate_limiter result" where
  "new_rate_limiter maxB win =
     (case maxB of
        Num m \<Rightarrow>
          if m \<le> 0 then Inl (TypeError ''maxBytes must be positive'')
          else (case win of
              Num w \<Rightarrow>
                if w \<le> 0 then Inl (TypeError ''windowMs must be positive'')
                else Inr \<lparr>maxBytes = m, windowMs = w, entries = [], head = 0, totalBytes = 0\<rparr>
            | _ \<Rightarrow> Inl (TypeError ''windowMs must be positive''))
      | _ \<Rightarrow> Inl (TypeError ''maxBytes must be positive''))"

text \<open>The \<open>while\<close> loop of \<open>prune\<close>: it moves \<open>head\<close> past the expired entries.\<close>

function prune_loop :: "rat \<Rightarrow> entry list \<Rightarrow> nat \<Rightarrow> rat \<Rightarrow> nat \<times> rat" where
  "prune_loop cutoff es hd_i tot =
     (if hd_i < length es \<and> fst (es ! hd_i) \<le> cutoff
      then prune_loop cutoff es (hd_i + 1) (tot - snd (es ! hd_i)) else (hd_i, tot))"
  by pat_completeness auto
termination
  by (relation "measure (\<lambda>(cutoff, es, hd_i, tot). length es - hd_i)") auto

declare prune_loop.simps [simp del]

definition prune :: "rat \<Rightarrow> rate_limiter \<Rightarrow> rate_limiter" where
  "prune now rl =
     (let cutoff = now - windowMs rl;
          (hd_i, tot) = prune_loop cutoff (entries rl) (head rl) (totalBytes rl);
          rl = rl\<lparr>head := hd_i, totalBytes := tot\<rparr>
      in if head rl = length (entries rl) then rl\<lparr>entries := [], head := 0\<rparr>
         else if head rl \<ge> 1024 \<and> head rl * 2 \<ge> length (entries rl)
         then rl\<lparr>entries := drop (head rl) (entries rl), head := 0\<rparr>
         else rl)"

text \<open>
  \<open>last.bytes += bytes\<close> when the last entry has the same timestamp, otherwise \<open>push\<close>.
\<close>

definition add_entry :: "rat \<Rightarrow> rat \<Rightarrow> entry list \<Rightarrow> entry list" where
  "add_entry now b es =
     (if es \<noteq> [] \<and> fst (last es) = now then butlast es @ [(now, snd (last es) + b)]
      else es @ [(now, b)])"

definition tryConsume :: "rat \<Rightarrow> js_number \<Rightarrow> rate_limiter \<Rightarrow> bool result \<times> rate_limiter" where
  "tryConsume now bytes rl =
     (case bytes of
        Num b \<Rightarrow>
          if b < 0 then (Inl (TypeError ''bytes must be a non-negative number''), rl)
          else
            let rl = prune now rl
            in if totalBytes rl + b > maxBytes rl then (Inr False, rl)
               else if b > 0
               then (Inr True, rl\<lparr>entries := add_entry now b (entries rl),
                                  totalBytes := totalBytes rl + b\<rparr>)
               else (Inr True, rl)
      | _ \<Rightarrow> (Inl (TypeError ''bytes must be a non-negative number''), rl))"

definition usage :: "rat \<Rightarrow> rate_limiter \<Rightarrow> rat \<times> rate_limiter" where
  "usage now rl = (let rl = prune now rl in (totalBytes rl, rl))"

section \<open>The live entries\<close>

definition bytes_of :: "entry list \<Rightarrow> rat" where
  "bytes_of es = sum_list (map snd es)"

definition live :: "rate_limiter \<Rightarrow> entry list" where
  "live rl = drop (head rl) (entries rl)"

definition rl_inv :: "rate_limiter \<Rightarrow> bool" where
  "rl_inv rl \<longleftrightarrow> 0 < maxBytes rl \<and> 0 < windowMs rl \<and> head rl \<le> length (entries rl)
     \<and> (head rl = length (entries rl) \<longrightarrow> entries rl = [])
     \<and> totalBytes rl = bytes_of (live rl) \<and> (\<forall>e \<in> set (live rl). 0 < snd e)
     \<and> totalBytes rl \<le> maxBytes rl"

lemma bytes_of_simps [simp]:
  "bytes_of [] = 0" "bytes_of (e # es) = snd e + bytes_of es"
  "bytes_of (es @ fs) = bytes_of es + bytes_of fs"
  by (simp_all add: bytes_of_def)

lemma bytes_of_nonneg: "\<forall>e \<in> set es. 0 < snd e \<Longrightarrow> 0 \<le> bytes_of es"
  unfolding bytes_of_def by (intro sum_list_nonneg) (auto intro: less_imp_le)

lemma prune_loop_eq:
  "hd_i \<le> length es \<Longrightarrow> prune_loop cutoff es hd_i tot =
     (hd_i + length (takeWhile (\<lambda>e. fst e \<le> cutoff) (drop hd_i es)),
      tot - bytes_of (takeWhile (\<lambda>e. fst e \<le> cutoff) (drop hd_i es)))"
proof (induction cutoff es hd_i tot rule: prune_loop.induct)
  case (1 cutoff es hd_i tot)
  show ?case
  proof (cases "hd_i < length es")
    case True
    then have "drop hd_i es = es ! hd_i # drop (Suc hd_i) es" by (simp add: Cons_nth_drop_Suc)
    with True "1.IH" show ?thesis by (subst prune_loop.simps) auto
  next
    case False
    with "1.prems" show ?thesis by (subst prune_loop.simps) auto
  qed
qed

lemma bytes_takeWhile_dropWhile:
  "bytes_of (takeWhile P es) + bytes_of (dropWhile P es) = bytes_of es"
  by (metis bytes_of_simps(3) takeWhile_dropWhile_id)

lemma prune_params [simp]:
  "maxBytes (prune now rl) = maxBytes rl" "windowMs (prune now rl) = windowMs rl"
  by (simp_all add: prune_def Let_def split: prod.splits)

lemma prune_live:
  assumes "head rl \<le> length (entries rl)"
  shows "live (prune now rl) = dropWhile (\<lambda>e. fst e \<le> now - windowMs rl) (live rl)"
proof -
  let ?P = "\<lambda>e. fst e \<le> now - windowMs rl" and ?es = "drop (head rl) (entries rl)"
  let ?k = "length (takeWhile ?P ?es)"
  have loop: "prune_loop (now - windowMs rl) (entries rl) (head rl) (totalBytes rl) =
      (head rl + ?k, totalBytes rl - bytes_of (takeWhile ?P ?es))"
    using assms by (rule prune_loop_eq)
  have "drop (head rl + ?k) (entries rl) = dropWhile ?P ?es"
    by (simp add: dropWhile_eq_drop add.commute)
  then show ?thesis
    by (auto simp: prune_def live_def Let_def loop)
qed

lemma prune_inv:
  assumes "rl_inv rl"
  shows "rl_inv (prune now rl)"
proof -
  let ?P = "\<lambda>e. fst e \<le> now - windowMs rl" and ?es = "drop (head rl) (entries rl)"
  have hd_le: "head rl \<le> length (entries rl)" using assms by (simp add: rl_inv_def)
  have k: "head rl + length (takeWhile ?P ?es) \<le> length (entries rl)"
    using hd_le length_takeWhile_le [of ?P ?es] by simp
  have split: "bytes_of (takeWhile ?P ?es) + bytes_of (dropWhile ?P ?es) = bytes_of ?es"
    by (rule bytes_takeWhile_dropWhile)
  have tot: "totalBytes (prune now rl) = bytes_of (live (prune now rl))"
    using assms split unfolding prune_live [OF hd_le]
    by (auto simp: prune_def Let_def rl_inv_def live_def prune_loop_eq)
  have pos: "\<forall>e \<in> set (live (prune now rl)). 0 < snd e"
    using assms unfolding prune_live [OF hd_le] by (auto simp: rl_inv_def dest: set_dropWhileD)
  have "0 \<le> bytes_of (takeWhile ?P ?es)"
    using assms by (intro bytes_of_nonneg) (auto simp: rl_inv_def live_def dest: set_takeWhileD)
  then have "totalBytes (prune now rl) \<le> maxBytes rl"
    using assms by (auto simp: prune_def Let_def rl_inv_def prune_loop_eq)
  moreover have "head (prune now rl) \<le> length (entries (prune now rl)) \<and>
      (head (prune now rl) = length (entries (prune now rl)) \<longrightarrow> entries (prune now rl) = [])"
    using k by (auto simp: prune_def Let_def prune_loop_eq [OF hd_le])
  ultimately show ?thesis
    using assms tot pos by (simp add: rl_inv_def)
qed

lemma add_entry_drop:
  "h < length es \<Longrightarrow> drop h (add_entry now b es) = add_entry now b (drop h es)"
  by (auto simp: add_entry_def butlast_drop)

lemma add_entry_bytes: "bytes_of (add_entry now b es) = bytes_of es + b"
proof (cases "es = []")
  case False
  then have "bytes_of es = bytes_of (butlast es) + snd (last es)"
    by (metis append_butlast_last_id bytes_of_simps(1,2,3) add_0_right)
  with False show ?thesis by (simp add: add_entry_def)
qed (simp add: add_entry_def)

lemma add_entry_pos:
  "\<forall>e \<in> set es. 0 < snd e \<Longrightarrow> 0 < b \<Longrightarrow> \<forall>e \<in> set (add_entry now b es). 0 < snd e"
  by (auto simp: add_entry_def add_pos_pos dest: in_set_butlastD)

text \<open>One step of the limiter on the live entries: this is the abstract limiter.\<close>

definition spec_consume :: "rat \<Rightarrow> rat \<Rightarrow> rat \<Rightarrow> rat \<Rightarrow> entry list \<Rightarrow> bool \<times> entry list" where
  "spec_consume m w now b es =
     (let es = dropWhile (\<lambda>e. fst e \<le> now - w) es
      in if bytes_of es + b > m then (False, es)
         else (True, if b > 0 then add_entry now b es else es))"

lemma live_add:
  assumes "rl_inv rl"
  shows "live (rl\<lparr>entries := add_entry now b (entries rl), totalBytes := t\<rparr>) = add_entry now b (live rl)"
proof (cases "head rl < length (entries rl)")
  case True
  then show ?thesis by (simp add: live_def add_entry_drop)
next
  case False
  with assms have "entries rl = []" "head rl = 0" by (auto simp: rl_inv_def)
  then show ?thesis by (simp add: live_def)
qed

lemma tryConsume_refines:
  assumes inv: "rl_inv rl" and b: "0 \<le> b"
  shows "fst (tryConsume now (Num b) rl) =
      Inr (fst (spec_consume (maxBytes rl) (windowMs rl) now b (live rl)))"
    and "live (snd (tryConsume now (Num b) rl)) =
      snd (spec_consume (maxBytes rl) (windowMs rl) now b (live rl))"
proof -
  have hd_le: "head rl \<le> length (entries rl)" using inv by (simp add: rl_inv_def)
  have p: "rl_inv (prune now rl)" by (rule prune_inv [OF inv])
  then have tot: "totalBytes (prune now rl) = bytes_of (live (prune now rl))"
    by (simp add: rl_inv_def)
  show "fst (tryConsume now (Num b) rl) =
      Inr (fst (spec_consume (maxBytes rl) (windowMs rl) now b (live rl)))"
    using b tot by (simp add: tryConsume_def spec_consume_def Let_def prune_live [OF hd_le])
  show "live (snd (tryConsume now (Num b) rl)) =
      snd (spec_consume (maxBytes rl) (windowMs rl) now b (live rl))"
    using b tot live_add [OF p]
    by (simp add: tryConsume_def spec_consume_def Let_def prune_live [OF hd_le])
qed

lemma tryConsume_params [simp]:
  "maxBytes (snd (tryConsume now n rl)) = maxBytes rl"
  "windowMs (snd (tryConsume now n rl)) = windowMs rl"
  by (simp_all add: tryConsume_def Let_def split: js_number.splits)

lemma tryConsume_inv:
  assumes "rl_inv rl"
  shows "rl_inv (snd (tryConsume now n rl))"
proof (cases "\<exists>b > 0. n = Num b \<and> totalBytes (prune now rl) + b \<le> maxBytes rl")
  case True
  then obtain b where b: "0 < b" "n = Num b" "totalBytes (prune now rl) + b \<le> maxBytes rl" by blast
  let ?p = "prune now rl" let ?q = "snd (tryConsume now n rl)"
  have p: "rl_inv ?p" by (rule prune_inv [OF assms])
  have q: "?q = ?p\<lparr>entries := add_entry now b (entries ?p), totalBytes := totalBytes ?p + b\<rparr>"
    using b by (simp add: tryConsume_def Let_def)
  have "live ?q = add_entry now b (live ?p)" unfolding q by (rule live_add [OF p])
  moreover have "length (add_entry now b (entries ?p)) \<ge> length (entries ?p)"
    "add_entry now b (entries ?p) \<noteq> []" "head ?p < length (entries ?p) \<or> entries ?p = []"
    using p by (auto simp: add_entry_def rl_inv_def)
  ultimately show ?thesis
    using p b add_entry_pos [of "live ?p" b now]
    unfolding q by (auto simp: rl_inv_def add_entry_bytes)
next
  case False
  then have "snd (tryConsume now n rl) = rl \<or> snd (tryConsume now n rl) = prune now rl"
    by (auto simp: tryConsume_def Let_def split: js_number.splits)
  then show ?thesis using assms prune_inv by auto
qed

section \<open>Runs of the limiter\<close>

datatype rl_event = Consume rat js_number | Usage rat

fun rl_step :: "rate_limiter \<Rightarrow> rl_event \<Rightarrow> rate_limiter" where
  "rl_step rl (Consume now n) = snd (tryConsume now n rl)"
| "rl_step rl (Usage now) = snd (usage now rl)"

interpretation limiter: machine "\<lambda>_ _. True" rl_step rl_inv
proof
  fix rl e
  assume "rl_inv rl"
  then show "rl_inv (rl_step rl e)"
    by (cases e) (auto simp: usage_def Let_def intro: prune_inv tryConsume_inv)
qed

lemma new_rate_limiter_inv:
  "new_rate_limiter m w = Inr rl \<Longrightarrow> rl_inv rl \<and> m = Num (maxBytes rl) \<and> w = Num (windowMs rl)
     \<and> live rl = []"
  by (auto simp: new_rate_limiter_def rl_inv_def live_def split: js_number.splits if_splits)


section \<open>What a run has admitted\<close>

fun event_time :: "rl_event \<Rightarrow> rat" where
  "event_time (Consume now n) = now"
| "event_time (Usage now) = now"

definition admitted_by :: "rate_limiter \<Rightarrow> rl_event \<Rightarrow> entry list" where
  "admitted_by rl e =
     (case e of
        Consume now (Num b) \<Rightarrow> if fst (tryConsume now (Num b) rl) = Inr True then [(now, b)] else []
      | _ \<Rightarrow> [])"

fun admitted :: "rate_limiter \<Rightarrow> rl_event list \<Rightarrow> entry list" where
  "admitted rl [] = []"
| "admitted rl (e # es) = admitted_by rl e @ admitted (rl_step rl e) es"

definition bytes_after :: "rat \<Rightarrow> entry list \<Rightarrow> rat" where
  "bytes_after c es = bytes_of (filter (\<lambda>e. c < fst e) es)"

lemma bytes_after_simps [simp]:
  "bytes_after c [] = 0"
  "bytes_after c (e # es) = (if c < fst e then snd e else 0) + bytes_after c es"
  "bytes_after c (es @ fs) = bytes_after c es + bytes_after c fs"
  by (simp_all add: bytes_after_def)

lemma bytes_after_add_entry:
  "bytes_after c (add_entry now b es) = bytes_after c es + (if c < now then b else 0)"
proof (cases "es = []")
  case False
  then have es: "es = butlast es @ [last es]" by simp
  then have "bytes_after c es = bytes_after c (butlast es) + (if c < fst (last es) then snd (last es) else 0)"
    by (metis bytes_after_simps(1,2,3) add_0_right)
  with False show ?thesis by (auto simp: add_entry_def)
qed (simp add: add_entry_def)

lemma bytes_after_dropWhile:
  "k \<le> c \<Longrightarrow> bytes_after c (dropWhile (\<lambda>e. fst e \<le> k) es) = bytes_after c es"
  by (induction es) auto

lemma bytes_of_dropWhile_sorted:
  "sorted (map fst es) \<Longrightarrow> bytes_of (dropWhile (\<lambda>e. fst e \<le> k) es) = bytes_after k es"
proof (induction es)
  case (Cons e es)
  show ?case
  proof (cases "fst e \<le> k")
    case False
    with Cons.prems have "filter (\<lambda>e. k < fst e) (e # es) = e # es"
      by (intro filter_True) force
    with False show ?thesis by (simp add: bytes_after_def)
  qed (use Cons in simp)
qed simp

lemma sorted_add_entry:
  assumes "sorted (map fst es)" "\<forall>e \<in> set es. fst e \<le> now"
  shows "sorted (map fst (add_entry now b es)) \<and> (\<forall>e \<in> set (add_entry now b es). fst e \<le> now)"
  using assms
  by (auto simp: add_entry_def sorted_append map_butlast sorted_butlast dest!: in_set_butlastD)

text \<open>
  \<open>tracks t H rl\<close>: at time \<open>t\<close>, for every cutoff the limiter can still use, the live entries of
  \<open>rl\<close> account for the same bytes as the whole history \<open>H\<close>.
\<close>

definition tracks :: "rat \<Rightarrow> entry list \<Rightarrow> rate_limiter \<Rightarrow> bool" where
  "tracks t H rl \<longleftrightarrow> rl_inv rl \<and> sorted (map fst (live rl)) \<and> (\<forall>e \<in> set (live rl). fst e \<le> t)
     \<and> (\<forall>e \<in> set H. fst e \<le> t) \<and> (\<forall>c \<ge> t - windowMs rl. bytes_after c (live rl) = bytes_after c H)"

lemma dropWhile_live_sorted:
  assumes "sorted (map fst es)"
  shows "sorted (map fst (dropWhile P es))"
  using assms sorted_wrt_drop [of "(\<le>)" "map fst es"]
  by (metis drop_map dropWhile_eq_drop)

lemma tracks_prune:
  assumes "tracks t H rl" "t \<le> now"
  shows "tracks now H (prune now rl)"
    and "totalBytes (prune now rl) = bytes_after (now - windowMs rl) H"
proof -
  let ?L = "dropWhile (\<lambda>e. fst e \<le> now - windowMs rl) (live rl)"
  have inv: "rl_inv rl" and srt: "sorted (map fst (live rl))"
    and le: "\<forall>e \<in> set (live rl). fst e \<le> t" "\<forall>e \<in> set H. fst e \<le> t"
    and acc: "\<And>c. t - windowMs rl \<le> c \<Longrightarrow> bytes_after c (live rl) = bytes_after c H"
    using assms(1) by (auto simp: tracks_def)
  have live: "live (prune now rl) = ?L"
    using inv by (intro prune_live) (simp add: rl_inv_def)
  have p: "rl_inv (prune now rl)" by (rule prune_inv [OF inv])
  have "\<forall>e \<in> set ?L. fst e \<le> now" using le assms(2) by (auto dest!: set_dropWhileD)
  moreover have "\<forall>c \<ge> now - windowMs rl. bytes_after c ?L = bytes_after c H"
    using acc assms(2) by (auto simp: bytes_after_dropWhile)
  ultimately show "tracks now H (prune now rl)"
    using p le assms(2) dropWhile_live_sorted [OF srt] by (auto simp: tracks_def live)
  show "totalBytes (prune now rl) = bytes_after (now - windowMs rl) H"
    using p acc assms(2) by (simp add: rl_inv_def live bytes_of_dropWhile_sorted [OF srt])
qed

lemma tracks_consume:
  assumes tr: "tracks t H rl" and t: "t \<le> now"
  shows "fst (tryConsume now (Num b) rl) = Inr True \<longleftrightarrow>
      0 \<le> b \<and> bytes_after (now - windowMs rl) H + b \<le> maxBytes rl"
    and "tracks now (H @ admitted_by rl (Consume now (Num b))) (snd (tryConsume now (Num b) rl))"
proof -
  note p = tracks_prune [OF tr t]
  show dec: "fst (tryConsume now (Num b) rl) = Inr True \<longleftrightarrow>
      0 \<le> b \<and> bytes_after (now - windowMs rl) H + b \<le> maxBytes rl"
    using p(2) by (auto simp: tryConsume_def Let_def)
  show "tracks now (H @ admitted_by rl (Consume now (Num b))) (snd (tryConsume now (Num b) rl))"
  proof (cases "0 < b \<and> bytes_after (now - windowMs rl) H + b \<le> maxBytes rl")
    case True
    let ?p = "prune now rl" let ?q = "snd (tryConsume now (Num b) rl)"
    have q: "?q = ?p\<lparr>entries := add_entry now b (entries ?p), totalBytes := totalBytes ?p + b\<rparr>"
      using True p(2) by (simp add: tryConsume_def Let_def)
    have inv: "rl_inv ?p" "rl_inv ?q"
      using p(1) tr by (auto simp: tracks_def intro: tryConsume_inv)
    have live: "live ?q = add_entry now b (live ?p)" unfolding q by (rule live_add [OF inv(1)])
    have adm: "admitted_by rl (Consume now (Num b)) = [(now, b)]"
      using True dec by (simp add: admitted_by_def)
    show ?thesis
      using p(1) inv(2) sorted_add_entry [of "live ?p" now b] unfolding tracks_def live adm
      by (auto simp: bytes_after_add_entry)
  next
    case False
    then consider "b < 0" | "b = 0" | "0 < b" "fst (tryConsume now (Num b) rl) \<noteq> Inr True"
      using dec by fastforce
    then show ?thesis
    proof cases
      case 1
      then have "tracks now H rl" using tr t by (force simp: tracks_def)
      with 1 show ?thesis by (simp add: tryConsume_def admitted_by_def)
    next
      case 2
      with p(1) show ?thesis
        by (auto simp: tryConsume_def admitted_by_def Let_def tracks_def)
    next
      case 3
      with p(1) show ?thesis
        by (auto simp: tryConsume_def admitted_by_def Let_def split: if_splits)
    qed
  qed
qed

lemma tracks_step:
  assumes "tracks t H rl" "t \<le> event_time e"
  shows "tracks (event_time e) (H @ admitted_by rl e) (rl_step rl e)"
proof (cases e)
  case (Consume now n)
  show ?thesis
  proof (cases n)
    case (Num b)
    then show ?thesis using assms Consume by (simp add: tracks_consume(2))
  qed (use assms Consume in \<open>force simp: tryConsume_def admitted_by_def tracks_def\<close>)+
next
  case (Usage now)
  then show ?thesis
    using assms tracks_prune(1) by (simp add: usage_def Let_def admitted_by_def)
qed

lemma rl_step_params [simp]:
  "maxBytes (rl_step rl e) = maxBytes rl" "windowMs (rl_step rl e) = windowMs rl"
  by (cases e; simp add: usage_def Let_def)+

lemma run_params [simp]:
  "maxBytes (run rl_step rl es) = maxBytes rl" "windowMs (run rl_step rl es) = windowMs rl"
  by (induction es arbitrary: rl) simp_all

lemma tracks_run:
  "tracks t H rl \<Longrightarrow> sorted (t # map event_time es) \<Longrightarrow>
   tracks (last (t # map event_time es)) (H @ admitted rl es) (run rl_step rl es)"
proof (induction es arbitrary: t H rl)
  case (Cons e es)
  then have "tracks (event_time e) (H @ admitted_by rl e) (rl_step rl e)"
    by (intro tracks_step) auto
  from Cons.IH [OF this] Cons.prems(2) show ?case by simp
qed simp

definition window_bytes :: "rat \<Rightarrow> rat \<Rightarrow> entry list \<Rightarrow> rat" where
  "window_bytes w t es = bytes_of (filter (\<lambda>e. t - w < fst e \<and> fst e \<le> t) es)"

lemma window_bytes_snoc:
  "window_bytes w t (es @ [(now, b)]) = window_bytes w t es + (if t - w < now \<and> now \<le> t then b else 0)"
  by (simp add: window_bytes_def)

lemma window_le_after:
  "\<forall>e \<in> set H. fst e \<le> now \<and> 0 \<le> snd e \<Longrightarrow> now \<le> t \<Longrightarrow>
   window_bytes w t H \<le> bytes_after (now - w) H"
  by (induction H) (auto simp: window_bytes_def intro: add_mono add_increasing)

lemma window_bound_step:
  assumes tr: "tracks t H rl" and le: "t \<le> event_time e"
    and pos: "\<forall>e \<in> set H. 0 \<le> snd e" and win: "\<forall>u. window_bytes (windowMs rl) u H \<le> maxBytes rl"
  shows "(\<forall>e \<in> set (H @ admitted_by rl e). 0 \<le> snd e) \<and>
    (\<forall>u. window_bytes (windowMs rl) u (H @ admitted_by rl e) \<le> maxBytes rl)"
proof (cases "\<exists>now b. e = Consume now (Num b) \<and> fst (tryConsume now (Num b) rl) = Inr True")
  case True
  then obtain now b where e: "e = Consume now (Num b)" "fst (tryConsume now (Num b) rl) = Inr True"
    by blast
  have b: "0 \<le> b" "bytes_after (now - windowMs rl) H + b \<le> maxBytes rl"
    using e tracks_consume(1) [OF tr, of now b] le by auto
  have H: "\<forall>e \<in> set H. fst e \<le> now \<and> 0 \<le> snd e"
    using tr le pos e by (force simp: tracks_def)
  have "window_bytes (windowMs rl) u (H @ [(now, b)]) \<le> maxBytes rl" for u
    using b win window_le_after [OF H, of u "windowMs rl"]
    by (cases "now \<le> u") (auto simp: window_bytes_snoc intro: order_trans)
  with pos b e show ?thesis by (simp add: admitted_by_def)
next
  case False
  then have "admitted_by rl e = []"
    by (auto simp: admitted_by_def split: rl_event.splits js_number.splits)
  with pos win show ?thesis by simp
qed

lemma window_bound_run:
  assumes "tracks t H rl" "sorted (t # map event_time es)"
    and "\<forall>e \<in> set H. 0 \<le> snd e" "\<forall>u. window_bytes (windowMs rl) u H \<le> maxBytes rl"
  shows "window_bytes (windowMs rl) u (H @ admitted rl es) \<le> maxBytes rl"
  using assms
proof (induction es arbitrary: t H rl)
  case (Cons e es)
  then have step: "tracks (event_time e) (H @ admitted_by rl e) (rl_step rl e)"
    by (intro tracks_step) auto
  have "(\<forall>e \<in> set (H @ admitted_by rl e). 0 \<le> snd e) \<and>
    (\<forall>u. window_bytes (windowMs rl) u (H @ admitted_by rl e) \<le> maxBytes rl)"
    using Cons.prems by (intro window_bound_step) auto
  with Cons.IH [OF step] Cons.prems(2) show ?case by simp
qed simp

lemma tracks_new: "new_rate_limiter m w = Inr rl \<Longrightarrow> tracks t [] rl"
  using new_rate_limiter_inv by (fastforce simp: tracks_def)

section \<open>Properties of rate_limiter.js\<close>

text \<open>
  C30: the bandwidth guarantee. In any run of a fresh limiter under a clock that does not go
  back, the bytes admitted with timestamps in any half-open window \<open>(u - windowMs, u]\<close> never
  exceed \<open>maxBytes\<close>.
\<close>
theorem limiter_window_bound:
  assumes "new_rate_limiter m w = Inr rl" "sorted (map event_time es)"
  shows "window_bytes (windowMs rl) u (admitted rl es) \<le> maxBytes rl"
proof (cases es)
  case Nil
  then show ?thesis
    using new_rate_limiter_inv [OF assms(1)] by (simp add: window_bytes_def rl_inv_def less_imp_le)
next
  case (Cons e es')
  then have "sorted (event_time e # map event_time es)" using assms(2) by simp
  with tracks_new [OF assms(1)] show ?thesis
    using new_rate_limiter_inv [OF assms(1)] window_bound_run [of "event_time e" "[]" rl es u]
    by (simp add: window_bytes_def rl_inv_def less_imp_le)
qed

theorem limiter_window_bound_witness:
  "window_bytes 1000 1500 (admitted \<lparr>maxBytes = 10, windowMs = 1000, entries = [], head = 0, totalBytes = 0\<rparr>
     [Consume 0 (Num 6), Consume 900 (Num 6), Consume 1200 (Num 7)]) \<le> 10"
  using limiter_window_bound [of "Num 10" "Num 1000"
      "\<lparr>maxBytes = 10, windowMs = 1000, entries = [], head = 0, totalBytes = 0\<rparr>"
      "[Consume 0 (Num 6), Consume 900 (Num 6), Consume 1200 (Num 7)]" 1500]
  by (simp add: new_rate_limiter_def)

text \<open>
  C29: the admission decision is exact. After any run with a monotone clock, a request is
  granted if and only if the bytes admitted in the last \<open>windowMs\<close> milliseconds plus the
  request fit in \<open>maxBytes\<close>, although the limiter merges entries and prunes lazily.
\<close>
theorem limiter_admission_exact:
  assumes "new_rate_limiter m w = Inr rl" "sorted (map event_time es @ [now])" "0 \<le> b"
  shows "fst (tryConsume now (Num b) (run rl_step rl es)) =
    Inr (bytes_after (now - windowMs rl) (admitted rl es) + b \<le> maxBytes rl)"
proof -
  let ?t = "hd (map event_time es @ [now])"
  have srt: "sorted (?t # map event_time es)" "last (?t # map event_time es) \<le> now"
    using assms(2) by (cases es, simp, simp add: sorted_append)
      (cases es, simp, use assms(2) in \<open>auto simp: sorted_append last_map\<close>)
  have tr: "tracks (last (?t # map event_time es)) ([] @ admitted rl es) (run rl_step rl es)"
    using tracks_new [OF assms(1)] srt(1) by (rule tracks_run)
  have "fst (tryConsume now (Num b) (run rl_step rl es)) \<in> {Inr True, Inr False}"
    using assms(3) by (simp add: tryConsume_def Let_def)
  then show ?thesis
    using tracks_consume(1) [OF tr srt(2), of b] assms(3) by auto
qed

theorem limiter_admission_exact_witness:
  "fst (tryConsume 1200 (Num 7) (run rl_step
      \<lparr>maxBytes = 10, windowMs = 1000, entries = [], head = 0, totalBytes = 0\<rparr>
      [Consume 0 (Num 6), Consume 900 (Num 3)])) = Inr True"
proof -
  let ?rl = "\<lparr>maxBytes = 10, windowMs = 1000, entries = [], head = 0, totalBytes = 0\<rparr>"
  let ?rl1 = "\<lparr>maxBytes = 10, windowMs = 1000, entries = [(0, 6)], head = 0, totalBytes = 6\<rparr>"
  have p1: "prune 0 ?rl = ?rl" and p2: "prune 900 ?rl1 = ?rl1"
    by (simp_all add: prune_def prune_loop_eq)
  have s1: "tryConsume 0 (Num 6) ?rl = (Inr True, ?rl1)"
    by (simp add: tryConsume_def p1 add_entry_def)
  have s2: "fst (tryConsume 900 (Num 3) ?rl1) = Inr True"
    by (simp add: tryConsume_def p2)
  show ?thesis
    using limiter_admission_exact [of "Num 10" "Num 1000" ?rl "[Consume 0 (Num 6), Consume 900 (Num 3)]"
        1200 7]
    by (simp add: new_rate_limiter_def admitted_by_def s1 s2)
qed

text \<open>
  Whatever the clock does (it may step back), every state a limiter reaches has a
  consistent byte counter: it is the sum of the live entries, all positive, and stays between
  0 and \<open>maxBytes\<close>; a malformed argument changes nothing and raises TypeError.
\<close>
theorem limiter_counter_consistent:
  assumes "new_rate_limiter m w = Inr rl"
  shows "0 \<le> totalBytes (run rl_step rl es) \<and> totalBytes (run rl_step rl es) \<le> maxBytes rl
    \<and> totalBytes (run rl_step rl es) = bytes_of (live (run rl_step rl es))
    \<and> tryConsume now NaN (run rl_step rl es) =
        (Inl (TypeError ''bytes must be a non-negative number''), run rl_step rl es)"
proof -
  have inv: "rl_inv (run rl_step rl es)"
    using new_rate_limiter_inv [OF assms] by (intro limiter.run_inv) auto
  then have "0 \<le> bytes_of (live (run rl_step rl es))"
    by (intro bytes_of_nonneg) (simp add: rl_inv_def)
  with inv show ?thesis by (simp add: rl_inv_def tryConsume_def)
qed

theorem limiter_counter_consistent_witness:
  "totalBytes (run rl_step \<lparr>maxBytes = 10, windowMs = 1000, entries = [], head = 0, totalBytes = 0\<rparr>
     [Consume 500 (Num 6), Consume 100 (Num 3), Consume 700 (Num 5)]) \<le> 10"
  using limiter_counter_consistent [of "Num 10" "Num 1000"
      "\<lparr>maxBytes = 10, windowMs = 1000, entries = [], head = 0, totalBytes = 0\<rparr>"
      "[Consume 500 (Num 6), Consume 100 (Num 3), Consume 700 (Num 5)]" 0]
  by (simp add: new_rate_limiter_def)

end
