(* ===== verification/Tcp_Utils.thy ===== *)
theory Tcp_Utils
  imports Prelude
begin

text \<open>
  Model of tcp_utils.js without the reassembly buffer (theory Tcp\_Reassembly): the reversed
  flow tuple, the byte queue a connection sends from, and the TCP option parser. The byte
  queue is stated as an interface, byte\_fifo, against which the senders are verified.
\<close>

section \<open>The reversed flow\<close>

record reverse_flow =
  relaySrcIP :: string
  relayDstIP :: string
  relaySrcPort :: nat
  relayDstPort :: nat

definition getReverseFlow :: "string \<Rightarrow> string \<Rightarrow> nat \<Rightarrow> nat \<Rightarrow> reverse_flow" where
  "getReverseFlow srcIP dstIP srcPort dstPort =
     \<lparr>relaySrcIP = dstIP, relayDstIP = srcIP, relaySrcPort = dstPort, relayDstPort = srcPort\<rparr>"

section \<open>Taking bytes off a queue of buffers\<close>

text \<open>
  The queue is an array of buffers, so the TypeErrors for a non-array or a non-buffer entry
  cannot arise, except for \<open>queue[0]\<close> of an empty array, which is undefined. The loop writes
  \<open>length\<close> bytes into the uninitialised \<open>chunk\<close>. A queue that runs out has been emptied by the
  time RangeError is thrown, so the result pairs the outcome with the queue it leaves.
\<close>

function take_loop :: "nat \<Rightarrow> bytes \<Rightarrow> nat \<Rightarrow> bytes list \<Rightarrow> bytes result \<times> bytes list" where
  "take_loop n chunk offset queue =
     (if offset < n
      then (case queue of
          [] \<Rightarrow> (Inl (TypeError ''queue entries must be buffers''), [])
        | current # rest \<Rightarrow>
            let bytes = min (length current) (n - offset);
                chunk = put chunk offset (take bytes current);
                offset = offset + bytes;
                queue = (if bytes = length current then rest else drop bytes current # rest)
            in if queue = [] \<and> offset < n
               then (Inl (RangeError ''queue contains fewer bytes than requested''), queue)
               else take_loop n chunk offset queue)
      else (Inr chunk, queue))"
  by pat_completeness auto
termination
  by (relation "measure (\<lambda>(n, chunk, offset, queue). (n - offset) + length queue)") auto

declare take_loop.simps [simp del]

definition isSafeInteger :: "int \<Rightarrow> bool" where
  "isSafeInteger n \<longleftrightarrow> \<bar>n\<bar> \<le> 2 ^ 53 - 1"

definition takeQueuedBytes_in ::
  "bytes \<Rightarrow> bytes list \<Rightarrow> int \<Rightarrow> bytes result \<times> bytes list" where
  "takeQueuedBytes_in mem queue len =
     (if \<not> isSafeInteger len \<or> len \<le> 0
      then (Inl (TypeError ''length must be a positive integer''), queue)
      else (case queue of
          [] \<Rightarrow> (Inl (RangeError ''queue is empty''), queue)
        | first # rest \<Rightarrow>
            if length first \<ge> nat len
            then (Inr (take (nat len) first),
                  if length first = nat len then rest else drop (nat len) first # rest)
            else take_loop (nat len) mem 0 queue))"

definition takeQueuedBytes :: "bytes list \<Rightarrow> int \<Rightarrow> bytes result \<times> bytes list" where
  "takeQueuedBytes queue len = takeQueuedBytes_in (alloc (nat len)) queue len"

lemma put_prefix:
  "k + length src \<le> length chunk \<Longrightarrow>
   take (k + length src) (put chunk k src) = take k chunk @ src"
  by (simp add: put_def)

lemma take_loop_spec:
  "length chunk = n \<Longrightarrow> offset \<le> n \<Longrightarrow> queue \<noteq> [] \<or> offset = n \<Longrightarrow>
   n - offset \<le> length (concat queue) \<Longrightarrow>
   \<exists>queue'. take_loop n chunk offset queue =
       (Inr (take offset chunk @ take (n - offset) (concat queue)), queue')
     \<and> concat queue' = drop (n - offset) (concat queue)"
proof (induction n chunk offset queue rule: take_loop.induct)
  case (1 n chunk offset queue)
  show ?case
  proof (cases "offset < n")
    case False
    with "1.prems" show ?thesis by (subst take_loop.simps) simp
  next
    case True
    with "1.prems" obtain current rest where q: "queue = current # rest" by (cases queue) auto
    define b where "b = min (length current) (n - offset)"
    define chunk' where "chunk' = put chunk offset (take b current)"
    define queue' where "queue' = (if b = length current then rest else drop b current # rest)"
    have b: "b \<le> length current" "b \<le> n - offset" by (simp_all add: b_def)
    have content: "concat queue = take b current @ concat queue'"
      using b by (simp add: q queue'_def)
    have chunk: "length chunk' = n" "take (offset + b) chunk' = take offset chunk @ take b current"
      using "1.prems" b put_prefix [of offset "take b current" chunk]
      by (simp_all add: chunk'_def min_absorb2)
    have rest_len: "n - (offset + b) \<le> length (concat queue')"
      using "1.prems"(4) b content by simp
    have more: "queue' \<noteq> [] \<or> offset + b = n" using rest_len b True by (cases queue') auto
    have step: "take_loop n chunk offset queue = take_loop n chunk' (offset + b) queue'"
      unfolding q take_loop.simps [of n chunk offset "current # rest"] list.case Let_def b_def [symmetric]
        chunk'_def [symmetric] queue'_def [symmetric]
      using True more by auto
    obtain queue'' where
      "take_loop n chunk' (offset + b) queue' =
        (Inr (take (offset + b) chunk' @ take (n - (offset + b)) (concat queue')), queue'')"
      "concat queue'' = drop (n - (offset + b)) (concat queue')"
      using "1.IH" [OF True q b_def chunk'_def refl queue'_def] more chunk(1) b rest_len True
      by (fastforce simp: b_def)
    then show ?thesis
      using b by (simp add: step chunk(2) content min_absorb2)
  qed
qed

lemma take_loop_short:
  "length chunk = n \<Longrightarrow> offset < n \<Longrightarrow> queue \<noteq> [] \<Longrightarrow> length (concat queue) < n - offset \<Longrightarrow>
   take_loop n chunk offset queue =
     (Inl (RangeError ''queue contains fewer bytes than requested''), [])"
proof (induction n chunk offset queue rule: take_loop.induct)
  case (1 n chunk offset queue)
  then obtain current rest where q: "queue = current # rest" by (cases queue) auto
  with "1.prems" have b: "min (length current) (n - offset) = length current" by simp
  have lt: "offset + length current < n" using "1.prems" q by simp
  show ?case
  proof (cases "rest = []")
    case True
    with "1.prems" b lt show ?thesis by (subst take_loop.simps) (simp add: q Let_def)
  next
    case False
    have "take_loop n (put chunk offset (take (length current) current)) (offset + length current) rest =
        (Inl (RangeError ''queue contains fewer bytes than requested''), [])"
      using "1.IH" [OF "1.prems"(2) q refl refl refl refl] "1.prems" b False q by simp
    with "1.prems" b False show ?thesis by (subst take_loop.simps) (simp add: q Let_def)
  qed
qed

lemma takeQueuedBytes_in_spec:
  assumes "length mem = nat len" "0 < len" "isSafeInteger len" "nat len \<le> length (concat queue)"
  shows "\<exists>queue'. takeQueuedBytes_in mem queue len = (Inr (take (nat len) (concat queue)), queue')
    \<and> concat queue' = drop (nat len) (concat queue)"
proof (cases queue)
  case Nil
  with assms show ?thesis by simp
next
  case (Cons first rest)
  show ?thesis
  proof (cases "length first \<ge> nat len")
    case True
    with assms Cons show ?thesis by (simp add: takeQueuedBytes_in_def)
  next
    case False
    have "\<exists>queue'. take_loop (nat len) mem 0 queue =
        (Inr (take 0 mem @ take (nat len - 0) (concat queue)), queue')
      \<and> concat queue' = drop (nat len - 0) (concat queue)"
      using assms Cons by (intro take_loop_spec) auto
    with assms Cons False show ?thesis by (simp add: takeQueuedBytes_in_def)
  qed
qed

lemma takeQueuedBytes_in_short:
  assumes "length mem = nat len" "0 < len" "isSafeInteger len" "queue \<noteq> []"
    "length (concat queue) < nat len"
  shows "takeQueuedBytes_in mem queue len =
    (Inl (RangeError ''queue contains fewer bytes than requested''), [])"
proof -
  from assms(4) obtain first rest where "queue = first # rest" by (cases queue) auto
  with assms show ?thesis
    using take_loop_short [of mem "nat len" 0 queue] by (simp add: takeQueuedBytes_in_def)
qed

lemma takeQueuedBytes_spec:
  assumes "0 < n" "int n \<le> 2 ^ 53 - 1" "n \<le> length (concat queue)"
  shows "fst (takeQueuedBytes queue (int n)) = Inr (take n (concat queue))"
    and "concat (snd (takeQueuedBytes queue (int n))) = drop n (concat queue)"
  using takeQueuedBytes_in_spec [of "alloc n" "int n" queue] assms
  by (auto simp: takeQueuedBytes_def isSafeInteger_def)

section \<open>The queue as an interface\<close>

text \<open>
  What the senders need of a byte queue: \<open>content\<close> is the stream still to be sent, \<open>push\<close>
  appends to it and \<open>pop n\<close> takes a prefix of it, as long as that many bytes are there.
\<close>

locale byte_fifo =
  fixes content :: "'q \<Rightarrow> bytes"
    and push :: "bytes \<Rightarrow> 'q \<Rightarrow> 'q"
    and pop :: "nat \<Rightarrow> 'q \<Rightarrow> bytes \<times> 'q"
    and limit :: nat
  assumes content_push: "content (push b q) = content q @ b"
    and pop_bytes: "0 < n \<Longrightarrow> n \<le> limit \<Longrightarrow> n \<le> length (content q) \<Longrightarrow>
      fst (pop n q) = take n (content q)"
    and pop_rest: "0 < n \<Longrightarrow> n \<le> limit \<Longrightarrow> n \<le> length (content q) \<Longrightarrow>
      content (snd (pop n q)) = drop n (content q)"
begin

primrec drain :: "nat list \<Rightarrow> 'q \<Rightarrow> bytes list \<times> 'q" where
  "drain [] q = ([], q)"
| "drain (n # ns) q = (let (b, q) = pop n q; (bs, q) = drain ns q in (b # bs, q))"

lemma drain_stream:
  "\<forall>n \<in> set ns. 0 < n \<and> n \<le> limit \<Longrightarrow> sum_list ns \<le> length (content q) \<Longrightarrow>
   concat (fst (drain ns q)) = take (sum_list ns) (content q)
     \<and> content (snd (drain ns q)) = drop (sum_list ns) (content q)
     \<and> map length (fst (drain ns q)) = ns"
proof (induction ns arbitrary: q)
  case (Cons n ns)
  obtain b q' where pop: "pop n q = (b, q')" by (cases "pop n q")
  have q': "b = take n (content q)" "content q' = drop n (content q)"
    using Cons.prems pop_bytes [of n q] pop_rest [of n q] by (simp_all add: pop)
  moreover have "sum_list ns \<le> length (content q')" using Cons.prems q' by simp
  ultimately show ?case
    using Cons.IH [of q'] Cons.prems
    by (simp add: pop case_prod_unfold Let_def take_add add.commute)
qed simp

end

definition pop_queue :: "nat \<Rightarrow> bytes list \<Rightarrow> bytes \<times> bytes list" where
  "pop_queue n q =
     (case takeQueuedBytes q (int n) of (Inr b, q') \<Rightarrow> (b, q') | (Inl e, q') \<Rightarrow> ([], q'))"

interpretation send_queue: byte_fifo concat "\<lambda>b q. q @ [b]" pop_queue "2 ^ 53 - 1"
proof
  fix n :: nat and q :: "bytes list"
  assume n: "0 < n" "n \<le> 2 ^ 53 - 1" "n \<le> length (concat q)"
  then have "n \<le> 9007199254740991" by simp
  then have "int n \<le> 9007199254740991" by linarith
  then have "int n \<le> 2 ^ 53 - 1" by simp
  note spec = takeQueuedBytes_spec [OF n(1) this n(3)]
  show "fst (pop_queue n q) = take n (concat q)" "concat (snd (pop_queue n q)) = drop n (concat q)"
    using spec by (auto simp: pop_queue_def split: prod.splits)
qed simp

section \<open>TCP options\<close>

record tcp_options =
  opt_mss :: "nat option"
  opt_windowScale :: "nat option"

definition no_options :: tcp_options where
  "no_options = \<lparr>opt_mss = None, opt_windowScale = None\<rparr>"

text \<open>The body of the loop for one complete option: kind, length and data are inside the range.\<close>

definition record_option :: "bytes \<Rightarrow> nat \<Rightarrow> nat \<Rightarrow> byte \<Rightarrow> tcp_options \<Rightarrow> tcp_options" where
  "record_option packet offset len kind options =
     (if kind = 2 \<and> len = 4
      then (let mss = u16be packet (offset + 2)
            in if mss > 0 then options\<lparr>opt_mss := Some mss\<rparr> else options)
      else if kind = 3 \<and> len = 3
      then options\<lparr>opt_windowScale := Some (unat (byte_at packet (offset + 2)))\<rparr>
      else options)"

function options_loop :: "bytes \<Rightarrow> nat \<Rightarrow> nat \<Rightarrow> tcp_options \<Rightarrow> tcp_options" where
  "options_loop packet end_i offset options =
     (if offset < end_i
      then (let kind = byte_at packet offset
            in if kind = 0 then options
               else if kind = 1 then options_loop packet end_i (offset + 1) options
               else if offset + 1 \<ge> end_i then options
               else (let len = unat (byte_at packet (offset + 1))
                     in if len < 2 \<or> offset + len > end_i then options
                        else options_loop packet end_i (offset + len)
                               (record_option packet offset len kind options)))
      else options)"
  by pat_completeness auto
termination
  by (relation "measure (\<lambda>(packet, end_i, offset, options). end_i - offset)") auto

declare options_loop.simps [simp del]

definition parseTCPOptions :: "bytes \<Rightarrow> int \<Rightarrow> int \<Rightarrow> tcp_options result" where
  "parseTCPOptions packet start_i end_i =
     (if \<not> isSafeInteger start_i \<or> \<not> isSafeInteger end_i \<or> start_i < 0 \<or> end_i < start_i
         \<or> end_i > int (length packet)
      then Inl (RangeError ''invalid TCP option bounds'')
      else Inr (options_loop packet (nat end_i) (nat start_i) no_options))"


section \<open>Options as data\<close>

text \<open>The abstract syntax of an option list, its encoding, and what each option means.\<close>

datatype tcp_option = OptNop | OptMSS nat | OptWScale byte | OptOther byte bytes

fun encode_option :: "tcp_option \<Rightarrow> bytes" where
  "encode_option OptNop = [1]"
| "encode_option (OptMSS m) = [2, 4] @ u16_bytes m"
| "encode_option (OptWScale w) = [3, 3, w]"
| "encode_option (OptOther k d) = [k, word_of_nat (length d + 2)] @ d"

fun wf_option :: "tcp_option \<Rightarrow> bool" where
  "wf_option OptNop = True"
| "wf_option (OptMSS m) = (m < 65536)"
| "wf_option (OptWScale w) = True"
| "wf_option (OptOther k d) =
     (k \<noteq> 0 \<and> k \<noteq> 1 \<and> length d \<le> 253 \<and> (k = 2 \<longrightarrow> length d \<noteq> 2) \<and> (k = 3 \<longrightarrow> length d \<noteq> 1))"

fun apply_option :: "tcp_option \<Rightarrow> tcp_options \<Rightarrow> tcp_options" where
  "apply_option (OptMSS m) options = (if m > 0 then options\<lparr>opt_mss := Some m\<rparr> else options)"
| "apply_option (OptWScale w) options = options\<lparr>opt_windowScale := Some (unat w)\<rparr>"
| "apply_option _ options = options"

lemma byte_at_mid: "byte_at (pre @ q) (length pre + i) = byte_at q i"
  by (simp add: byte_at_append2)

lemma u16be_mid: "u16be (pre @ q) (length pre + i) = u16be q i"
  using byte_at_mid [of pre q i] byte_at_mid [of pre q "i + 1"] by (simp add: u16be_def)

lemma add_numeral_3: "n + 3 = Suc (Suc (Suc n))"
  by simp

lemma options_loop_step:
  assumes "wf_option opt" "length pre + length (encode_option opt) \<le> end_i"
  shows "options_loop (pre @ encode_option opt @ post) end_i (length pre) options =
    options_loop (pre @ encode_option opt @ post) end_i (length pre + length (encode_option opt))
      (apply_option opt options)"
proof (cases opt)
  case OptNop
  then show ?thesis
    using assms byte_at_mid [of pre "1 # post" 0] by (subst options_loop.simps) simp
next
  case (OptMSS m)
  let ?q = "2 # 4 # u16_bytes m @ post"
  have "byte_at (pre @ ?q) (length pre) = 2" "byte_at (pre @ ?q) (length pre + 1) = 4"
    "u16be (pre @ ?q) (length pre + 2) = m"
    using assms(1) OptMSS byte_at_mid [of pre ?q 0] byte_at_mid [of pre ?q 1] u16be_mid [of pre ?q 2]
      u16be_append2 [of "[2, 4]" 2 "u16_bytes m @ post"] by simp_all
  with OptMSS assms show ?thesis
    by (subst options_loop.simps) (simp add: record_option_def Let_def)
next
  case (OptWScale w)
  let ?q = "3 # 3 # w # post"
  have "byte_at (pre @ ?q) (length pre) = 3" "byte_at (pre @ ?q) (length pre + 1) = 3"
    "byte_at (pre @ ?q) (length pre + 2) = w"
    using byte_at_mid [of pre ?q 0] byte_at_mid [of pre ?q 1] byte_at_mid [of pre ?q 2] by simp_all
  with OptWScale assms show ?thesis
    by (subst options_loop.simps) (simp add: record_option_def Let_def add_numeral_3)
next
  case (OptOther k d)
  let ?q = "k # word_of_nat (length d + 2) # d @ post"
  have b: "byte_at (pre @ ?q) (length pre) = k"
    "unat (byte_at (pre @ ?q) (length pre + 1)) = length d + 2"
    using assms(1) OptOther byte_at_mid [of pre ?q 0] byte_at_mid [of pre ?q 1]
    by (simp_all add: unat_word_of_nat_byte del: of_nat_add of_nat_Suc)
  have "record_option (pre @ ?q) (length pre) (length d + 2) k options = options"
    using assms(1) OptOther by (auto simp: record_option_def)
  with b OptOther assms show ?thesis
    by (subst options_loop.simps) (simp add: Let_def del: of_nat_add of_nat_Suc)
qed

lemma options_loop_all:
  assumes "list_all wf_option opts" "length pre + length (concat (map encode_option opts)) \<le> end_i"
  shows "options_loop (pre @ concat (map encode_option opts) @ post) end_i (length pre) options =
    options_loop (pre @ concat (map encode_option opts) @ post) end_i
      (length pre + length (concat (map encode_option opts))) (fold apply_option opts options)"
  using assms
proof (induction opts arbitrary: pre options)
  case (Cons opt opts)
  let ?rest = "concat (map encode_option opts)"
  have "options_loop (pre @ encode_option opt @ ?rest @ post) end_i (length pre) options =
      options_loop ((pre @ encode_option opt) @ ?rest @ post) end_i (length (pre @ encode_option opt))
        (apply_option opt options)"
    using options_loop_step [of opt pre end_i "?rest @ post" options] Cons.prems by simp
  also have "\<dots> = options_loop ((pre @ encode_option opt) @ ?rest @ post) end_i
      (length (pre @ encode_option opt) + length ?rest) (fold apply_option opts (apply_option opt options))"
    using Cons.prems by (intro Cons.IH) auto
  finally show ?case by (simp add: add.assoc)
qed simp

lemma options_loop_bounds:
  "(\<forall>m. opt_mss options = Some m \<longrightarrow> 0 < m \<and> m < 65536) \<Longrightarrow>
   (\<forall>s. opt_windowScale options = Some s \<longrightarrow> s < 256) \<Longrightarrow>
   (\<forall>m. opt_mss (options_loop packet end_i offset options) = Some m \<longrightarrow> 0 < m \<and> m < 65536) \<and>
   (\<forall>s. opt_windowScale (options_loop packet end_i offset options) = Some s \<longrightarrow> s < 256)"
proof (induction packet end_i offset options rule: options_loop.induct)
  case (1 packet end_i offset options)
  let ?len = "unat (byte_at packet (offset + 1))" and ?kind = "byte_at packet offset"
  have rec: "(\<forall>m. opt_mss (record_option packet offset ?len ?kind options) = Some m \<longrightarrow> 0 < m \<and> m < 65536)
      \<and> (\<forall>s. opt_windowScale (record_option packet offset ?len ?kind options) = Some s \<longrightarrow> s < 256)"
    using "1.prems" by (auto simp: record_option_def Let_def u16be_lt)
  consider "\<not> offset < end_i \<or> ?kind = 0 \<or> (?kind \<noteq> 1 \<and> (offset + 1 \<ge> end_i \<or> ?len < 2 \<or> offset + ?len > end_i))"
    | "offset < end_i" "?kind = 1"
    | "offset < end_i" "?kind \<noteq> 0" "?kind \<noteq> 1" "\<not> offset + 1 \<ge> end_i" "\<not> (?len < 2 \<or> offset + ?len > end_i)"
    by blast
  then show ?case
  proof cases
    case 1
    then have "options_loop packet end_i offset options = options"
      by (subst options_loop.simps) (auto simp: Let_def)
    then show ?thesis using "1.prems" by simp
  next
    case 2
    then have "options_loop packet end_i offset options = options_loop packet end_i (offset + 1) options"
      by (subst options_loop.simps) (simp add: Let_def)
    then show ?thesis using "1.IH"(1) [OF 2(1) refl] 2 "1.prems" by simp
  next
    case 3
    then have "options_loop packet end_i offset options =
        options_loop packet end_i (offset + ?len) (record_option packet offset ?len ?kind options)"
      by (subst options_loop.simps) (simp add: Let_def)
    then show ?thesis using "1.IH"(2) [OF 3(1) refl 3(2,3,4) refl 3(5)] rec by simp
  qed
qed

section \<open>Properties of tcp_utils.js: queue and options\<close>

text \<open>
  Every outcome of takeQueuedBytes: a bad length and an empty queue are refused and leave
  the queue alone, a queue with too few bytes raises RangeError and is left empty, and in
  every other case the result is the first \<open>len\<close> bytes of the queued stream and the queue
  keeps exactly the rest, whatever the buffer boundaries and the uninitialised memory.
\<close>
theorem take_queued_bytes_outcome:
  assumes "length mem = nat len"
  shows "fst (takeQueuedBytes_in mem queue len) =
      (if \<not> isSafeInteger len \<or> len \<le> 0 then Inl (TypeError ''length must be a positive integer'')
       else if queue = [] then Inl (RangeError ''queue is empty'')
       else if length (concat queue) < nat len
       then Inl (RangeError ''queue contains fewer bytes than requested'')
       else Inr (take (nat len) (concat queue)))
    \<and> concat (snd (takeQueuedBytes_in mem queue len)) =
      (if \<not> isSafeInteger len \<or> len \<le> 0 then concat queue else drop (nat len) (concat queue))"
proof -
  consider "\<not> isSafeInteger len \<or> len \<le> 0" | "isSafeInteger len" "0 < len" "queue = []"
    | "isSafeInteger len" "0 < len" "queue \<noteq> []" "length (concat queue) < nat len"
    | "isSafeInteger len" "0 < len" "queue \<noteq> []" "nat len \<le> length (concat queue)"
    by linarith
  then show ?thesis
  proof cases
    case 3
    then show ?thesis using takeQueuedBytes_in_short [OF assms] by simp
  next
    case 4
    then obtain queue' where
      "takeQueuedBytes_in mem queue len = (Inr (take (nat len) (concat queue)), queue')"
      "concat queue' = drop (nat len) (concat queue)"
      using takeQueuedBytes_in_spec [OF assms] by blast
    with 4 show ?thesis by simp
  qed (auto simp: takeQueuedBytes_in_def)
qed

theorem take_queued_bytes_outcome_witness:
  "fst (takeQueuedBytes_in [0, 0, 0] [[1], [2, 3, 4]] 3) = Inr [1, 2, 3]"
  using take_queued_bytes_outcome [of "[0, 0, 0]" 3 "[[1], [2, 3, 4]]"]
  by (simp add: isSafeInteger_def)

text \<open>The chunks the drain loop of the relay takes off a queue, one call per segment size.\<close>

primrec take_segments :: "nat list \<Rightarrow> bytes list \<Rightarrow> bytes list \<times> bytes list" where
  "take_segments [] queue = ([], queue)"
| "take_segments (n # ns) queue =
     (let (b, queue) = pop_queue n queue; (bs, queue) = take_segments ns queue in (b # bs, queue))"

lemma take_segments_drain: "take_segments sizes queue = send_queue.drain sizes queue"
  by (induction sizes arbitrary: queue) simp_all



text \<open>
  C32: the option parser decodes every well-formed option list: placed anywhere in a packet,
  ended by the header length or by an end-of-list byte with arbitrary padding behind it, the
  result is what the options say, the last MSS and window scale winning and a zero MSS ignored.
\<close>
theorem parse_encoded_options:
  assumes "list_all wf_option opts" "tail_bytes = [] \<or> hd tail_bytes = 0"
    and "length pre + length (concat (map encode_option opts) @ tail_bytes) \<le> 65535"
  shows "parseTCPOptions (pre @ concat (map encode_option opts) @ tail_bytes @ rest) (int (length pre))
      (int (length pre + length (concat (map encode_option opts) @ tail_bytes))) =
    Inr (fold apply_option opts no_options)"
proof -
  let ?opts = "concat (map encode_option opts)"
  let ?p = "pre @ ?opts @ tail_bytes @ rest"
  let ?fin = "length pre + length (?opts @ tail_bytes)"
  have "options_loop ?p ?fin (length pre) no_options =
      options_loop ?p ?fin (length pre + length ?opts) (fold apply_option opts no_options)"
    using assms(1) by (intro options_loop_all) auto
  also have "\<dots> = fold apply_option opts no_options"
  proof (cases tail_bytes)
    case Nil
    then show ?thesis by (subst options_loop.simps) simp
  next
    case (Cons z zs)
    with assms(2) have "byte_at ?p (length pre + length ?opts) = 0"
      using byte_at_mid [of "pre @ ?opts" "0 # zs @ rest" 0] by simp
    with Cons show ?thesis by (subst options_loop.simps) simp
  qed
  finally show ?thesis
    using assms(3) unfolding parseTCPOptions_def nat_int
    by (simp add: isSafeInteger_def del: of_nat_add)
qed

theorem parse_encoded_options_witness:
  "parseTCPOptions ([9] @ [1, 2, 4, 5, 180, 3, 3, 7] @ [0, 99] @ [5]) 1 11 =
     Inr \<lparr>opt_mss = Some 1460, opt_windowScale = Some 7\<rparr>"
proof -
  have low: "(1460 :: byte) = 180" by simp
  show ?thesis
    using parse_encoded_options [of "[OptNop, OptMSS 1460, OptWScale 7]" "[0, 99]" "[9]" "[5]"]
    by (simp add: u16_bytes_def no_options_def low)
qed

text \<open>
  C33: whatever bytes a guest sends, the option parser returns when its bounds are inside the
  packet, and an MSS it reports is positive and 16-bit, a window scale is one byte.
\<close>
theorem parse_options_safe:
  assumes "0 \<le> start_i" "start_i \<le> end_i" "end_i \<le> int (length packet)" "end_i \<le> 65535"
  shows "\<exists>options. parseTCPOptions packet start_i end_i = Inr options
    \<and> (\<forall>m. opt_mss options = Some m \<longrightarrow> 0 < m \<and> m < 65536)
    \<and> (\<forall>s. opt_windowScale options = Some s \<longrightarrow> s < 256)"
  using assms options_loop_bounds [of no_options packet "nat end_i" "nat start_i"]
  by (auto simp: parseTCPOptions_def isSafeInteger_def no_options_def)

theorem parse_options_safe_witness:
  "\<exists>options. parseTCPOptions [2, 200, 1] 0 3 = Inr options"
  using parse_options_safe [of 0 3 "[2, 200, 1]"] by auto

end
