(* ===== verification/Tcp_Reassembly.thy ===== *)
theory Tcp_Reassembly
  imports Prelude "HOL-Library.Multiset"
begin

text \<open>
  Model of the reassembly buffer of tcp_utils.js: bufferTCPOutOfOrder keeps disjoint ranges of
  bytes ahead of the expected sequence number, drainTCPOutOfOrder delivers what has become
  contiguous. Positions are offsets from \<open>RCV.NXT\<close>, so the theorems hold across the wrap of the
  32-bit sequence space.
\<close>

section \<open>State\<close>

text \<open>
  The receive fields of a connection object; the connection record of theory Tcp\_Connection
  extends this one, so every operation here works on it as it is.
\<close>

record recv_state =
  vmSeq :: u32
  vmOutOfOrder :: "(u32, bytes) jsmap"
  vmOutOfOrderBytes :: int

definition seq_offset :: "('a recv_state_scheme) \<Rightarrow> u32 \<Rightarrow> nat" where
  "seq_offset conn seq = unat (seq - vmSeq conn)"

section \<open>bufferTCPOutOfOrder\<close>

definition add_range :: "bytes \<Rightarrow> nat \<Rightarrow> nat \<Rightarrow> nat \<Rightarrow> 'a recv_state_scheme \<Rightarrow> 'a recv_state_scheme" where
  "add_range payload start from_i to_i conn =
     (if to_i \<le> from_i then conn
      else
        let chunk = subarray payload (from_i - start) (to_i - start)
        in conn\<lparr>vmOutOfOrder := map_set (vmSeq conn + word_of_nat from_i) chunk (vmOutOfOrder conn),
                vmOutOfOrderBytes := vmOutOfOrderBytes conn + int (length chunk)\<rparr>)"

fun buffer_loop ::
  "bytes \<Rightarrow> nat \<Rightarrow> nat \<Rightarrow> (u32 \<times> bytes) list \<Rightarrow> nat \<Rightarrow> 'a recv_state_scheme \<Rightarrow> 'a recv_state_scheme" where
  "buffer_loop payload start end_i [] cursor conn = add_range payload start cursor end_i conn"
| "buffer_loop payload start end_i ((seq, buffered) # ranges) cursor conn =
     (let offset = seq_offset conn seq
      in if offset \<ge> end_i then add_range payload start cursor end_i conn
         else if offset + length buffered \<le> cursor
         then buffer_loop payload start end_i ranges cursor conn
         else
           let conn = add_range payload start cursor (min offset end_i) conn;
               cursor = max cursor (offset + length buffered)
           in if cursor \<ge> end_i then conn
              else buffer_loop payload start end_i ranges cursor conn)"

definition bufferTCPOutOfOrder ::
  "'a recv_state_scheme \<Rightarrow> u32 \<Rightarrow> bytes \<Rightarrow> nat \<Rightarrow> 'a recv_state_scheme" where
  "bufferTCPOutOfOrder conn sequence payload capacity =
     (let start = seq_offset conn sequence
      in if start = 0 \<or> start \<ge> capacity then conn
         else
           let end_i = min (start + length payload) capacity;
               ranges = sort_key (\<lambda>r. seq_offset conn (fst r)) (vmOutOfOrder conn)
           in buffer_loop payload start end_i ranges start conn)"

section \<open>drainTCPOutOfOrder\<close>

text \<open>
  \<open>write\<close> is the caller's callback: it hands a buffer to the sink and may update the connection
  (it sets \<open>receiveBackpressured\<close>). The result is the number of delivered ranges.
\<close>

fun drain_loop ::
  "(bytes \<Rightarrow> 'a recv_state_scheme \<Rightarrow> 'a recv_state_scheme) \<Rightarrow> (u32 \<times> bytes) list \<Rightarrow> nat
     \<Rightarrow> 'a recv_state_scheme \<Rightarrow> nat \<times> 'a recv_state_scheme" where
  "drain_loop write [] delivered conn = (delivered, conn)"
| "drain_loop write ((seq, buffered) # ranges) delivered conn =
     (if sint (seq - vmSeq conn) > 0 then (delivered, conn)
      else
        let conn = conn\<lparr>vmOutOfOrder := map_delete seq (vmOutOfOrder conn),
                        vmOutOfOrderBytes := vmOutOfOrderBytes conn - int (length buffered)\<rparr>;
            consumed = unat (vmSeq conn - seq)
        in if consumed \<ge> length buffered then drain_loop write ranges delivered conn
           else
             let tail_b = drop consumed buffered;
                 conn = write tail_b conn;
                 conn = conn\<lparr>vmSeq := vmSeq conn + word_of_nat (length tail_b)\<rparr>
             in drain_loop write ranges (delivered + 1) conn)"

definition drainTCPOutOfOrder ::
  "(bytes \<Rightarrow> 'a recv_state_scheme \<Rightarrow> 'a recv_state_scheme) \<Rightarrow> 'a recv_state_scheme
     \<Rightarrow> nat \<times> 'a recv_state_scheme" where
  "drainTCPOutOfOrder write conn =
     (if vmOutOfOrder conn = [] then (0, conn)
      else drain_loop write
             (sort_key (\<lambda>r. sint (fst r - vmSeq conn)) (vmOutOfOrder conn)) 0 conn)"

section \<open>The stored bytes\<close>

text \<open>\<open>stored conn k\<close> is the byte the buffer holds for offset \<open>k\<close>, if it holds one.\<close>

definition in_range :: "'a recv_state_scheme \<Rightarrow> nat \<Rightarrow> u32 \<times> bytes \<Rightarrow> bool" where
  "in_range conn k r \<longleftrightarrow>
     seq_offset conn (fst r) \<le> k \<and> k < seq_offset conn (fst r) + length (snd r)"

definition stored :: "'a recv_state_scheme \<Rightarrow> nat \<Rightarrow> byte option" where
  "stored conn k =
     map_option (\<lambda>r. snd r ! (k - seq_offset conn (fst r))) (find (in_range conn k) (vmOutOfOrder conn))"

definition apart :: "'a recv_state_scheme \<Rightarrow> u32 \<times> bytes \<Rightarrow> u32 \<times> bytes \<Rightarrow> bool" where
  "apart conn r r' \<longleftrightarrow>
     seq_offset conn (fst r) + length (snd r) \<le> seq_offset conn (fst r') \<or>
     seq_offset conn (fst r') + length (snd r') \<le> seq_offset conn (fst r)"

text \<open>
  The buffer invariant for a receive window of \<open>cap\<close> bytes: distinct keys, nonempty disjoint
  ranges strictly ahead of \<open>RCV.NXT\<close> and inside the window, and an exact byte counter.
\<close>

definition ooo_inv :: "nat \<Rightarrow> 'a recv_state_scheme \<Rightarrow> bool" where
  "ooo_inv cap conn \<longleftrightarrow>
     distinct (map fst (vmOutOfOrder conn))
     \<and> (\<forall>r \<in> set (vmOutOfOrder conn). 0 < seq_offset conn (fst r) \<and> snd r \<noteq> []
          \<and> seq_offset conn (fst r) + length (snd r) \<le> cap)
     \<and> (\<forall>r \<in> set (vmOutOfOrder conn). \<forall>r' \<in> set (vmOutOfOrder conn). r \<noteq> r' \<longrightarrow> apart conn r r')
     \<and> vmOutOfOrderBytes conn = int (sum_list (map (length \<circ> snd) (vmOutOfOrder conn)))"

lemma stored_iff:
  assumes "ooo_inv cap conn"
  shows "stored conn k = Some x \<longleftrightarrow>
    (\<exists>r \<in> set (vmOutOfOrder conn). in_range conn k r \<and> snd r ! (k - seq_offset conn (fst r)) = x)"
proof -
  have uniq: "r = r'" if "r \<in> set (vmOutOfOrder conn)" "r' \<in> set (vmOutOfOrder conn)"
    "in_range conn k r" "in_range conn k r'" for r r'
  proof (rule ccontr)
    assume "r \<noteq> r'"
    with that assms have "apart conn r r'" unfolding ooo_inv_def by blast
    with that show False by (auto simp: apart_def in_range_def)
  qed
  show ?thesis
  proof (cases "find (in_range conn k) (vmOutOfOrder conn)")
    case None
    then have "\<forall>r \<in> set (vmOutOfOrder conn). \<not> in_range conn k r"
      by (simp only: find_None_iff) blast
    with None show ?thesis by (simp add: stored_def)
  next
    case (Some r)
    then have r: "r \<in> set (vmOutOfOrder conn)" "in_range conn k r"
      by (auto simp: find_Some_iff)
    let ?f = "\<lambda>q. snd q ! (k - seq_offset conn (fst q))"
    have "(\<exists>q \<in> set (vmOutOfOrder conn). in_range conn k q \<and> ?f q = x) \<longleftrightarrow> ?f r = x"
      using r uniq [OF _ r(1) _ r(2)] by blast
    with Some show ?thesis by (simp add: stored_def)
  qed
qed

lemma stored_None_iff: "stored conn k = None \<longleftrightarrow> (\<forall>r \<in> set (vmOutOfOrder conn). \<not> in_range conn k r)"
  by (auto simp: stored_def find_None_iff)

lemma seq_offset_add [simp]:
  "n < 2 ^ 32 \<Longrightarrow> seq_offset conn (vmSeq conn + word_of_nat n) = n"
  by (simp add: seq_offset_def unat_of_nat)

lemma seq_offset_upd [simp]:
  "seq_offset (conn\<lparr>vmOutOfOrder := m\<rparr>) = seq_offset conn"
  "seq_offset (conn\<lparr>vmOutOfOrderBytes := b\<rparr>) = seq_offset conn"
  by (simp_all add: seq_offset_def fun_eq_iff)

lemma in_range_upd [simp]:
  "in_range (conn\<lparr>vmOutOfOrder := m\<rparr>) = in_range conn"
  "in_range (conn\<lparr>vmOutOfOrderBytes := b\<rparr>) = in_range conn"
  "apart (conn\<lparr>vmOutOfOrder := m\<rparr>) = apart conn"
  "apart (conn\<lparr>vmOutOfOrderBytes := b\<rparr>) = apart conn"
  by (simp_all add: in_range_def apart_def fun_eq_iff)

section \<open>Adding one gap\<close>

lemma add_range_vmSeq [simp]:
  "vmSeq (add_range payload start f t conn) = vmSeq conn"
  "seq_offset (add_range payload start f t conn) = seq_offset conn"
  by (simp_all add: add_range_def Let_def seq_offset_def fun_eq_iff)

lemma add_range_props:
  assumes inv: "ooo_inv cap conn" and cap: "cap \<le> 65535"
    and rng: "0 < start" "start \<le> f" "f < t" "t \<le> start + length payload" "t \<le> cap"
    and gap: "\<And>r. r \<in> set (vmOutOfOrder conn) \<Longrightarrow>
      seq_offset conn (fst r) + length (snd r) \<le> f \<or> t \<le> seq_offset conn (fst r)"
  shows "vmOutOfOrder (add_range payload start f t conn) =
      vmOutOfOrder conn @ [(vmSeq conn + word_of_nat f, subarray payload (f - start) (t - start))]"
    and "ooo_inv cap (add_range payload start f t conn)"
    and "stored (add_range payload start f t conn) k =
      (if f \<le> k \<and> k < t then Some (payload ! (k - start)) else stored conn k)"
proof -
  let ?key = "vmSeq conn + word_of_nat f" and ?chunk = "subarray payload (f - start) (t - start)"
  let ?conn = "add_range payload start f t conn"
  have off: "seq_offset conn ?key = f" using cap rng by simp
  have len: "length ?chunk = t - f" using rng by simp
  have ne: "?chunk \<noteq> []" using len rng(3) by (metis length_greater_0_conv zero_less_diff)
  have fresh: "?key \<notin> fst ` set (vmOutOfOrder conn)"
  proof
    assume "?key \<in> fst ` set (vmOutOfOrder conn)"
    then obtain r where r: "r \<in> set (vmOutOfOrder conn)" "fst r = ?key" by auto
    moreover have "snd r \<noteq> []" using inv r(1) by (auto simp: ooo_inv_def)
    ultimately show False using gap [OF r(1)] off rng by (cases "snd r") auto
  qed
  show ooo: "vmOutOfOrder ?conn = vmOutOfOrder conn @ [(?key, ?chunk)]"
    using rng map_set_fresh [OF fresh, of ?chunk] by (simp add: add_range_def Let_def)
  have bytes: "vmOutOfOrderBytes ?conn = vmOutOfOrderBytes conn + int (length ?chunk)"
    using rng by (simp add: add_range_def Let_def)
  have ap: "apart ?conn = apart conn" by (simp add: apart_def fun_eq_iff)
  have ir: "in_range ?conn = in_range conn" by (simp add: in_range_def fun_eq_iff)
  have new_apart: "apart conn r (?key, ?chunk) \<and> apart conn (?key, ?chunk) r"
    if "r \<in> set (vmOutOfOrder conn)" for r
    using gap [OF that] off len rng by (auto simp: apart_def)
  show "ooo_inv cap ?conn"
    using inv fresh off len ne rng new_apart
    unfolding ooo_inv_def ooo bytes ap by (auto simp: Ball_def)
  have none: "\<not> in_range conn k r" if "r \<in> set (vmOutOfOrder conn)" "f \<le> k" "k < t" for r
    using gap [OF that(1)] that by (auto simp: in_range_def)
  have find_app: "find P (xs @ [x]) = (case find P xs of None \<Rightarrow> (if P x then Some x else None) | Some r \<Rightarrow> Some r)"
    for P :: "u32 \<times> bytes \<Rightarrow> bool" and xs x
    by (induction xs) auto
  have key_in: "in_range conn k (?key, ?chunk) \<longleftrightarrow> f \<le> k \<and> k < t"
    using off len rng by (auto simp: in_range_def)
  show "stored ?conn k = (if f \<le> k \<and> k < t then Some (payload ! (k - start)) else stored conn k)"
  proof (cases "f \<le> k \<and> k < t")
    case True
    then have "find (in_range conn k) (vmOutOfOrder conn) = None"
      using none by (auto simp: find_None_iff)
    moreover have "k - f < t - f" "f - start + (k - f) = k - start" using True rng by linarith+
    then have "?chunk ! (k - f) = payload ! (k - start)"
      using rng by (simp add: subarray_def)
    ultimately show ?thesis
      using key_in off True by (simp add: stored_def ooo ir find_app)
  next
    case False
    then show ?thesis
      using key_in
      by (cases "find (in_range conn k) (vmOutOfOrder conn)") (auto simp: stored_def ooo ir find_app)
  qed
qed


section \<open>The whole insertion\<close>

lemma stored_Some_range:
  assumes "r \<in> set (vmOutOfOrder conn)" "in_range conn k r"
  shows "stored conn k \<noteq> None"
  using assms by (auto simp: stored_None_iff)

definition gap_between :: "'a recv_state_scheme \<Rightarrow> nat \<Rightarrow> nat \<Rightarrow> bool" where
  "gap_between conn f t \<longleftrightarrow> (\<forall>r \<in> set (vmOutOfOrder conn).
     seq_offset conn (fst r) + length (snd r) \<le> f \<or> t \<le> seq_offset conn (fst r))"

definition filled :: "'a recv_state_scheme \<Rightarrow> bytes \<Rightarrow> nat \<Rightarrow> nat \<Rightarrow> nat \<Rightarrow> nat \<Rightarrow> byte option" where
  "filled conn payload start f t k =
     (case stored conn k of Some x \<Rightarrow> Some x
      | None \<Rightarrow> if f \<le> k \<and> k < t then Some (payload ! (k - start)) else None)"

lemma gap_none: "gap_between conn f t \<Longrightarrow> f \<le> k \<Longrightarrow> k < t \<Longrightarrow> stored conn k = None"
  by (fastforce simp: gap_between_def stored_None_iff in_range_def)

lemma add_range_step:
  assumes inv: "ooo_inv cap conn" and cap: "cap \<le> 65535"
    and rng: "0 < start" "start \<le> f" "t \<le> start + length payload" "t \<le> cap"
    and gap: "gap_between conn f t"
  shows "ooo_inv cap (add_range payload start f t conn)"
    and "stored (add_range payload start f t conn) = filled conn payload start f t"
    and "set (vmOutOfOrder conn) \<subseteq> set (vmOutOfOrder (add_range payload start f t conn))"
    and "\<And>q. q \<in> set (vmOutOfOrder (add_range payload start f t conn)) - set (vmOutOfOrder conn) \<Longrightarrow>
      seq_offset conn (fst q) + length (snd q) \<le> t"
proof -
  let ?conn = "add_range payload start f t conn"
  have "ooo_inv cap ?conn \<and> stored ?conn = filled conn payload start f t
    \<and> set (vmOutOfOrder conn) \<subseteq> set (vmOutOfOrder ?conn)
    \<and> (\<forall>q \<in> set (vmOutOfOrder ?conn) - set (vmOutOfOrder conn).
        seq_offset conn (fst q) + length (snd q) \<le> t)"
  proof (cases "f < t")
    case False
    then show ?thesis
      using inv by (auto simp: add_range_def filled_def fun_eq_iff split: option.splits)
  next
    case True
    note a = add_range_props [OF inv cap rng(1,2) True rng(3,4)]
    have "seq_offset conn (vmSeq conn + word_of_nat f) = f" using rng True cap by simp
    moreover have "stored ?conn k = filled conn payload start f t k" for k
      using a(3) gap gap_none [OF gap, of k] by (auto simp: gap_between_def filled_def split: option.splits)
    ultimately show ?thesis
      using a(1,2) gap rng True by (auto simp: gap_between_def fun_eq_iff)
  qed
  then show "ooo_inv cap ?conn" "stored ?conn = filled conn payload start f t"
    "set (vmOutOfOrder conn) \<subseteq> set (vmOutOfOrder ?conn)"
    "\<And>q. q \<in> set (vmOutOfOrder ?conn) - set (vmOutOfOrder conn) \<Longrightarrow>
      seq_offset conn (fst q) + length (snd q) \<le> t" by blast+
qed

text \<open>
  The loop over the sorted ranges: everything not in \<open>ranges\<close> ends at or before \<open>cursor\<close>.
\<close>

lemma buffer_loop_spec:
  assumes cap: "cap \<le> 65535" and rng: "0 < start" "end_i \<le> start + length payload" "end_i \<le> cap"
  shows "ooo_inv cap conn \<Longrightarrow> sorted (map (\<lambda>r. seq_offset conn (fst r)) ranges) \<Longrightarrow>
    set ranges \<subseteq> set (vmOutOfOrder conn) \<Longrightarrow>
    (\<forall>r \<in> set (vmOutOfOrder conn) - set ranges. seq_offset conn (fst r) + length (snd r) \<le> cursor) \<Longrightarrow>
    start \<le> cursor \<Longrightarrow>
    ooo_inv cap (buffer_loop payload start end_i ranges cursor conn) \<and>
    vmSeq (buffer_loop payload start end_i ranges cursor conn) = vmSeq conn \<and>
    stored (buffer_loop payload start end_i ranges cursor conn) = filled conn payload start cursor end_i"
proof (induction ranges arbitrary: cursor conn)
  case Nil
  then have "gap_between conn cursor end_i" by (auto simp: gap_between_def)
  with Nil show ?case using add_range_step [OF Nil.prems(1) cap rng(1) Nil.prems(5) rng(2,3)] by simp
next
  case (Cons r ranges)
  obtain seq buffered where r: "r = (seq, buffered)" by (cases r)
  let ?off = "seq_offset conn seq" and ?fin = "seq_offset conn seq + length buffered"
  let ?conn = "add_range payload start cursor ?off conn" and ?cursor = "max cursor ?fin"
  have r_in: "r \<in> set (vmOutOfOrder conn)" using Cons.prems(3) by simp
  have later: "?off \<le> seq_offset conn (fst q)" if "q \<in> set ranges" for q
    using Cons.prems(2) that by (auto simp: r)
  have gap: "gap_between conn cursor ?off" unfolding gap_between_def
  proof
    fix q assume "q \<in> set (vmOutOfOrder conn)"
    then show "seq_offset conn (fst q) + length (snd q) \<le> cursor \<or> ?off \<le> seq_offset conn (fst q)"
      using Cons.prems(4) later [of q] by (cases "q = r"; cases "q \<in> set ranges") (auto simp: r)
  qed
  consider "end_i \<le> ?off" | "?off < end_i" "?fin \<le> cursor" | "?off < end_i" "cursor < ?fin" by linarith
  then show ?case
  proof cases
    case 1
    with gap have "gap_between conn cursor end_i" by (fastforce simp: gap_between_def)
    with Cons.prems 1 show ?thesis
      using add_range_step [OF Cons.prems(1) cap rng(1) Cons.prems(5) rng(2,3)] by (simp add: r)
  next
    case 2
    then have "\<forall>q \<in> set (vmOutOfOrder conn) - set ranges. seq_offset conn (fst q) + length (snd q) \<le> cursor"
      using Cons.prems(4) by (force simp: r)
    with Cons.prems 2 show ?thesis using Cons.IH [of conn cursor] by (auto simp: r)
  next
    case 3
    note a = add_range_step [OF Cons.prems(1) cap rng(1) Cons.prems(5) _ _ gap]
    have le: "?off \<le> start + length payload" "?off \<le> cap" using 3 rng by simp_all
    have covered: "stored conn k \<noteq> None" if "?off \<le> k" "k < ?fin" for k
      using stored_Some_range [OF r_in] that by (simp add: in_range_def r)
    have fill: "filled ?conn payload start ?cursor end_i k = filled conn payload start cursor end_i k"
      for k using covered [of k] 3 gap_none [OF gap, of k]
      by (auto simp: filled_def a(2) [OF le] split: option.splits)
    have stop: "filled conn payload start cursor end_i k = stored ?conn k" if "end_i \<le> ?cursor" for k
    proof -
      have "filled ?conn payload start ?cursor end_i k = stored ?conn k"
        using that by (auto simp: filled_def split: option.splits)
      with fill [of k] show ?thesis by simp
    qed
    have rest: "\<forall>q \<in> set (vmOutOfOrder ?conn) - set ranges.
        seq_offset ?conn (fst q) + length (snd q) \<le> ?cursor"
      using a(3,4) [OF le] Cons.prems(4) by (force simp: r)
    have "buffer_loop payload start end_i (r # ranges) cursor conn =
        (if end_i \<le> ?cursor then ?conn else buffer_loop payload start end_i ranges ?cursor ?conn)"
      using 3 by (simp add: r Let_def)
    then show ?thesis
      using Cons.IH [OF a(1) [OF le], of ?cursor] Cons.prems rest stop fill a(1,3) [OF le]
      by (auto simp: fun_eq_iff)
  qed
qed

lemma bufferTCPOutOfOrder_spec:
  assumes inv: "ooo_inv cap conn" and cap: "cap \<le> 65535"
  shows "ooo_inv cap (bufferTCPOutOfOrder conn sequence payload cap)"
    and "vmSeq (bufferTCPOutOfOrder conn sequence payload cap) = vmSeq conn"
    and "stored (bufferTCPOutOfOrder conn sequence payload cap) =
      (let start = seq_offset conn sequence
       in if start = 0 then stored conn
          else filled conn payload start start (min (start + length payload) cap))"
proof -
  let ?s = "seq_offset conn sequence" and ?e = "min (seq_offset conn sequence + length payload) cap"
  let ?r = "sort_key (\<lambda>r. seq_offset conn (fst r)) (vmOutOfOrder conn)"
  have all: "ooo_inv cap (bufferTCPOutOfOrder conn sequence payload cap)
    \<and> vmSeq (bufferTCPOutOfOrder conn sequence payload cap) = vmSeq conn
    \<and> stored (bufferTCPOutOfOrder conn sequence payload cap) =
      (if ?s = 0 then stored conn else filled conn payload ?s ?s ?e)"
  proof (cases "?s = 0 \<or> ?s \<ge> cap")
    case True
    then have "?s \<noteq> 0 \<Longrightarrow> filled conn payload ?s ?s ?e = stored conn"
      by (auto simp: filled_def fun_eq_iff split: option.splits)
    with True inv show ?thesis by (auto simp: bufferTCPOutOfOrder_def)
  next
    case False
    then have "0 < ?s" "?s \<le> ?s" by simp_all
    then show ?thesis
      using False inv cap buffer_loop_spec [of cap ?s ?e payload conn ?r ?s]
      by (simp add: bufferTCPOutOfOrder_def Let_def)
  qed
  then show "ooo_inv cap (bufferTCPOutOfOrder conn sequence payload cap)"
    "vmSeq (bufferTCPOutOfOrder conn sequence payload cap) = vmSeq conn"
    "stored (bufferTCPOutOfOrder conn sequence payload cap) =
      (let start = seq_offset conn sequence
       in if start = 0 then stored conn
          else filled conn payload start start (min (start + length payload) cap))"
    by (simp_all add: Let_def)
qed


section \<open>Delivering the contiguous prefix\<close>

text \<open>
  The sink as an interface: \<open>wr\<close> appends to what has been \<open>sent\<close> and leaves the receive
  fields of the connection alone. The relay's writeTCPReceiveData provides it while its socket
  is writable.
\<close>

locale receive_sink =
  fixes wr :: "bytes \<Rightarrow> 'a recv_state_scheme \<Rightarrow> 'a recv_state_scheme"
    and sent :: "'a recv_state_scheme \<Rightarrow> bytes"
    and writable :: "'a recv_state_scheme \<Rightarrow> bool"
  assumes write_frame: "vmSeq (wr b c) = vmSeq c" "vmOutOfOrder (wr b c) = vmOutOfOrder c"
      "vmOutOfOrderBytes (wr b c) = vmOutOfOrderBytes c"
    and write_sent: "writable c \<Longrightarrow> sent (wr b c) = sent c @ b"
    and write_writable: "writable c \<Longrightarrow> writable (wr b c)"
    and sent_frame: "sent (c\<lparr>vmSeq := s\<rparr>) = sent c" "sent (c\<lparr>vmOutOfOrder := m\<rparr>) = sent c"
      "sent (c\<lparr>vmOutOfOrderBytes := n\<rparr>) = sent c"
    and writable_frame: "writable (c\<lparr>vmSeq := s\<rparr>) = writable c"
      "writable (c\<lparr>vmOutOfOrder := m\<rparr>) = writable c"
      "writable (c\<lparr>vmOutOfOrderBytes := n\<rparr>) = writable c"

text \<open>
  The same loop over positions: \<open>p\<close> is how far delivery has come, a range is its offset and
  its bytes; the result is the new position, the bytes delivered and the ranges left over.
\<close>

fun drain_abs :: "nat \<Rightarrow> (nat \<times> bytes) list \<Rightarrow> nat \<times> bytes \<times> (nat \<times> bytes) list" where
  "drain_abs p [] = (p, [], [])"
| "drain_abs p ((k, b) # rs) =
     (if k > p then (p, [], (k, b) # rs)
      else if p - k \<ge> length b then drain_abs p rs
      else (case drain_abs (k + length b) rs of (p', out, rest) \<Rightarrow> (p', drop (p - k) b @ out, rest)))"

definition holds_byte :: "(nat \<times> bytes) list \<Rightarrow> nat \<Rightarrow> byte \<Rightarrow> bool" where
  "holds_byte rs k x \<longleftrightarrow> (\<exists>r \<in> set rs. fst r \<le> k \<and> k < fst r + length (snd r) \<and> snd r ! (k - fst r) = x)"

fun disjoint_sorted :: "(nat \<times> bytes) list \<Rightarrow> bool" where
  "disjoint_sorted [] = True"
| "disjoint_sorted (r # rs) =
     (snd r \<noteq> [] \<and> (\<forall>q \<in> set rs. fst r + length (snd r) \<le> fst q) \<and> disjoint_sorted rs)"

lemma disjoint_sorted_starts:
  "disjoint_sorted (r # rs) \<Longrightarrow> q \<in> set rs \<Longrightarrow> fst r < fst q"
  by (fastforce simp: neq_Nil_conv)

lemma drain_abs_spec:
  "disjoint_sorted rs \<Longrightarrow> drain_abs p rs = (p', out, rest) \<Longrightarrow>
   p' = p + length out \<and> (\<forall>i < length out. holds_byte rs (p + i) (out ! i))
   \<and> (\<forall>x. \<not> holds_byte rs p' x) \<and> rest = filter (\<lambda>r. fst r > p') rs
   \<and> (\<forall>r \<in> set rs. fst r \<le> p' \<longrightarrow> fst r + length (snd r) \<le> p')"
proof (induction p rs arbitrary: p' out rest rule: drain_abs.induct)
  case (1 p)
  then show ?case by (simp add: holds_byte_def)
next
  case (2 p k b rs)
  have rs: "disjoint_sorted rs" and after: "\<And>q. q \<in> set rs \<Longrightarrow> k + length b \<le> fst q"
    using "2.prems"(1) by auto
  have cons: "holds_byte ((k, b) # rs) j x \<longleftrightarrow>
      (k \<le> j \<and> j < k + length b \<and> b ! (j - k) = x) \<or> holds_byte rs j x" for j x
    by (auto simp: holds_byte_def)
  consider "k > p" | "k \<le> p" "p - k \<ge> length b" | "k \<le> p" "p - k < length b" by linarith
  then show ?case
  proof cases
    case 1
    have low: "p < fst q" if "q \<in> set ((k, b) # rs)" for q
      using 1 after [of q] that by (cases "q = (k, b)") auto
    have "\<not> holds_byte ((k, b) # rs) p x" for x
      using low unfolding holds_byte_def by (meson not_le)
    moreover have "filter (\<lambda>r. p < fst r) ((k, b) # rs) = (k, b) # rs"
      using low by (intro filter_True) blast
    moreover have "p' = p" "out = []" "rest = (k, b) # rs" using "2.prems"(2) 1 by auto
    moreover have "\<forall>r \<in> set ((k, b) # rs). fst r \<le> p \<longrightarrow> fst r + length (snd r) \<le> p"
      using low by (meson not_le)
    ultimately show ?thesis by simp
  next
    case 2
    note ih = "2.IH"(1) [OF _ 2(2) rs]
    have "drain_abs p rs = (p', out, rest)" using "2.prems"(2) 2 by simp
    then show ?thesis using ih 2 by (auto simp: cons)
  next
    case 3
    then obtain out' where d: "drain_abs (k + length b) rs = (p', out', rest)"
      and out: "out = drop (p - k) b @ out'"
      using "2.prems"(2) by (auto split: prod.splits)
    note ih = "2.IH"(2) [OF _ _ rs d]
    have len: "length out = k + length b - p + length out'" using 3 by (simp add: out)
    have "holds_byte ((k, b) # rs) (p + i) (out ! i)" if "i < length out" for i
    proof (cases "i < length b - (p - k)")
      case True
      then have "out ! i = b ! (p + i - k)" using 3 by (simp add: out nth_append)
      moreover have "k \<le> p + i" "p + i < k + length b" using True 3 by linarith+
      ultimately show ?thesis by (simp add: cons)
    next
      case False
      define j where "j = i - (length b - (p - k))"
      have "out ! i = out' ! j" using False by (simp add: out nth_append j_def)
      moreover have "p + i = k + length b + j" using False 3 by (simp add: j_def)
      moreover have "j < length out'" using False 3 that len by (simp add: j_def)
      then have "holds_byte rs (k + length b + j) (out' ! j)" using ih 3 by simp
      ultimately show ?thesis by (simp add: cons)
    qed
    then show ?thesis using ih 3 len by (auto simp: cons)
  qed
qed



text \<open>Ranges of the code as offsets from a base sequence number.\<close>

definition rel :: "u32 \<Rightarrow> u32 \<times> bytes \<Rightarrow> nat \<times> bytes" where
  "rel base r = (unat (fst r - base), snd r)"

lemma rel_simps [simp]: "fst (rel base r) = unat (fst r - base)" "snd (rel base r) = snd r"
  by (simp_all add: rel_def)

lemma rel_pair: "rel base (seq, b) = (unat (seq - base), b)"
  by (simp add: rel_def)

text \<open>Half the sequence space apart, the signed comparison of the code orders offsets.\<close>

lemma sint_offset:
  fixes a b :: u32
  assumes "unat (a - base) < 2 ^ 30" "b = base + word_of_nat p" "p < 2 ^ 30"
  shows "sint (a - b) = int (unat (a - base)) - int p"
proof -
  define k where "k = unat (a - base)"
  have "a - base = word_of_nat k" by (simp add: k_def)
  then have e: "a - b = word_of_int (int k - int p)" using assms(2) by (simp add: algebra_simps)
  have "- (2 ^ 31) \<le> int k - int p" "int k - int p < 2 ^ 31"
    using assms(1,3) by (simp_all only: k_def [symmetric]) simp_all
  then have "sint (a - b) = int k - int p"
    unfolding e signed_of_int by (simp add: signed_take_bit_int_eq_self_iff)
  then show ?thesis by (simp only: k_def)
qed

lemma unat_behind:
  fixes a b :: u32
  assumes "b = base + word_of_nat p" "p < 2 ^ 30" "unat (a - base) \<le> p"
  shows "unat (b - a) = p - unat (a - base)"
proof -
  have "b - a = word_of_nat p - word_of_nat (unat (a - base))"
    using assms(1) by (simp add: algebra_simps)
  also have "\<dots> = word_of_nat (p - unat (a - base))"
    using assms(3) by simp
  finally show ?thesis using assms(2) by (simp add: unat_of_nat)
qed

lemma delete_all:
  "map_delete k (filter (\<lambda>r. fst r \<notin> K) m) = filter (\<lambda>r. fst r \<notin> insert k K) m"
  by (auto simp: map_delete_filter intro: filter_cong)

context receive_sink
begin

lemma write_proj [simp]:
  "vmSeq (wr b c) = vmSeq c" "vmOutOfOrder (wr b c) = vmOutOfOrder c"
  "vmOutOfOrderBytes (wr b c) = vmOutOfOrderBytes c"
  by (rule write_frame)+

lemma drain_loop_abs:
  assumes base: "\<forall>r \<in> set rs. unat (fst r - base) + length (snd r) < 2 ^ 30"
    and p: "vmSeq c = base + word_of_nat p" "p < 2 ^ 30"
    and w: "writable c" and m: "vmOutOfOrder c = filter (\<lambda>r. fst r \<notin> K) m"
    and ab: "drain_abs p (map (rel base) rs) = (p', out, rest)"
  shows "\<exists>dn left. rs = dn @ left \<and> map (rel base) left = rest \<and>
    (\<exists>d' c'. drain_loop wr rs d c = (d', c') \<and>
      vmSeq c' = base + word_of_nat p' \<and> p' < 2 ^ 30 \<and> writable c' \<and> sent c' = sent c @ out
      \<and> vmOutOfOrder c' = filter (\<lambda>r. fst r \<notin> fst ` set dn \<union> K) m
      \<and> vmOutOfOrderBytes c' = vmOutOfOrderBytes c - int (sum_list (map (length \<circ> snd) dn)))"
  using assms
proof (induction rs arbitrary: p c d K out)
  case Nil
  then show ?case by simp
next
  case (Cons r rs)
  obtain seq b where r: "r = (seq, b)" by (cases r)
  let ?k = "unat (seq - base)"
  have k: "?k + length b < 2 ^ 30" using Cons.prems(1) by (simp add: r)
  have gt: "sint (seq - vmSeq c) > 0 \<longleftrightarrow> ?k > p"
    using sint_offset [of seq base "vmSeq c" p] k Cons.prems(2,3) by linarith
  have rs: "\<forall>r \<in> set rs. unat (fst r - base) + length (snd r) < 2 ^ 30" using Cons.prems(1) by simp
  show ?case
  proof (cases "?k > p")
    case True
    then have "drain_loop wr (r # rs) d c = (d, c)" using gt by (simp add: r)
    moreover have "p' = p" "out = []" "rest = map (rel base) (r # rs)"
      using Cons.prems(6) True by (auto simp: r rel_pair)
    ultimately show ?thesis using Cons.prems by (intro exI [of _ "r # rs", THEN exI [of _ "[]"]]) simp
  next
    case False
    let ?c = "c\<lparr>vmOutOfOrder := map_delete seq (vmOutOfOrder c),
                vmOutOfOrderBytes := vmOutOfOrderBytes c - int (length b)\<rparr>"
    have c1: "vmSeq ?c = base + word_of_nat p" "writable ?c" "sent ?c = sent c"
      "vmOutOfOrder ?c = filter (\<lambda>r. fst r \<notin> insert seq K) m"
      using Cons.prems(2,4,5) by (simp_all add: writable_frame sent_frame delete_all)
    have con: "unat (vmSeq c - seq) = p - ?k"
      using unat_behind [of "vmSeq c" base p seq] Cons.prems(2,3) False by simp
    show ?thesis
    proof (cases "p - ?k \<ge> length b")
      case True
      then have loop: "drain_loop wr (r # rs) d c = drain_loop wr rs d ?c"
        using gt False con by (simp add: r Let_def)
      have "drain_abs p (map (rel base) rs) = (p', out, rest)"
        using Cons.prems(6) True False by (simp add: r rel_pair)
      from Cons.IH [OF rs c1(1) Cons.prems(3) c1(2,4) this, of d]
      obtain dn left where "rs = dn @ left" "map (rel base) left = rest"
        and st: "\<exists>d' c'. drain_loop wr rs d ?c = (d', c') \<and>
          vmSeq c' = base + word_of_nat p' \<and> p' < 2 ^ 30 \<and> writable c' \<and> sent c' = sent ?c @ out
          \<and> vmOutOfOrder c' = filter (\<lambda>r. fst r \<notin> fst ` set dn \<union> insert seq K) m
          \<and> vmOutOfOrderBytes c' = vmOutOfOrderBytes ?c - int (sum_list (map (length \<circ> snd) dn))" by blast
      then show ?thesis
        unfolding loop by (intro exI [of _ left, THEN exI [of _ "r # dn"]]) (auto simp: c1(3) r comp_def)
    next
      case far: False
      define d2 where "d2 = wr (drop (p - ?k) b) ?c"
      define c2 where "c2 = d2\<lparr>vmSeq := vmSeq d2 + word_of_nat (length (drop (p - ?k) b))\<rparr>"
      have loop: "drain_loop wr (r # rs) d c = drain_loop wr rs (d + 1) c2"
        using gt False far con by (simp add: r Let_def c2_def d2_def)
      have add: "p + (length b - (p - ?k)) = ?k + length b" using far False by simp
      have "vmSeq c2 = base + word_of_nat p + word_of_nat (length b - (p - ?k))"
        using Cons.prems(2) by (simp add: c2_def d2_def)
      also have "\<dots> = base + word_of_nat (?k + length b)"
        unfolding add [symmetric] of_nat_add by (simp only: add.assoc)
      finally have c2a: "vmSeq c2 = base + word_of_nat (?k + length b)" .
      have c2: "writable c2" "sent c2 = sent c @ drop (p - ?k) b"
        "vmOutOfOrder c2 = filter (\<lambda>r. fst r \<notin> insert seq K) m"
        "vmOutOfOrderBytes c2 = vmOutOfOrderBytes c - int (length b)"
        using c1 by (simp_all add: c2_def d2_def writable_frame sent_frame write_writable write_sent)
      obtain out' where ab: "drain_abs (?k + length b) (map (rel base) rs) = (p', out', rest)"
        and out: "out = drop (p - ?k) b @ out'"
        using Cons.prems(6) far False by (auto simp: r rel_pair split: prod.splits)
      from Cons.IH [OF rs c2a k c2(1,3) ab, of "d + 1"]
      obtain dn left where "rs = dn @ left" "map (rel base) left = rest"
        and st: "\<exists>d' c'. drain_loop wr rs (d + 1) c2 = (d', c') \<and>
          vmSeq c' = base + word_of_nat p' \<and> p' < 2 ^ 30 \<and> writable c' \<and> sent c' = sent c2 @ out'
          \<and> vmOutOfOrder c' = filter (\<lambda>r. fst r \<notin> fst ` set dn \<union> insert seq K) m
          \<and> vmOutOfOrderBytes c' = vmOutOfOrderBytes c2 - int (sum_list (map (length \<circ> snd) dn))" by blast
      then show ?thesis
        unfolding loop by (intro exI [of _ left, THEN exI [of _ "r # dn"]]) (auto simp: c2 out r comp_def)
    qed
  qed
qed

end



text \<open>The buffer seen from \<open>base\<close>, the value of \<open>RCV.NXT\<close> when it last changed.\<close>

definition seen_from :: "u32 \<Rightarrow> 'a recv_state_scheme \<Rightarrow> 'a recv_state_scheme" where
  "seen_from base conn = conn\<lparr>vmSeq := base\<rparr>"

lemma seen_from_proj [simp]:
  "vmOutOfOrder (seen_from base conn) = vmOutOfOrder conn"
  "vmOutOfOrderBytes (seen_from base conn) = vmOutOfOrderBytes conn"
  "seq_offset (seen_from base conn) s = unat (s - base)"
  by (simp_all add: seen_from_def seq_offset_def)

lemma disjoint_sorted_rel:
  assumes "sorted (map (\<lambda>r. int (unat (fst r - base)) - int n) rs)" "distinct rs"
    and "\<And>r. r \<in> set rs \<Longrightarrow> snd r \<noteq> []"
    and "\<And>r r'. r \<in> set rs \<Longrightarrow> r' \<in> set rs \<Longrightarrow> r \<noteq> r' \<Longrightarrow>
      unat (fst r - base) + length (snd r) \<le> unat (fst r' - base)
      \<or> unat (fst r' - base) + length (snd r') \<le> unat (fst r - base)"
  shows "disjoint_sorted (map (rel base) rs)"
  using assms
proof (induction rs)
  case Nil
  then show ?case by simp
next
  case (Cons r rs)
  have "unat (fst r - base) + length (snd r) \<le> unat (fst q - base)" if q: "q \<in> set rs" for q
  proof -
    have "int (unat (fst r - base)) - int n \<le> int (unat (fst q - base)) - int n"
      using Cons.prems(1) q by (simp only: list.map sorted_wrt.simps set_map) blast
    then have "unat (fst r - base) \<le> unat (fst q - base)" by linarith
    moreover have "r \<noteq> q" using Cons.prems(2) q by auto
    then have "unat (fst r - base) + length (snd r) \<le> unat (fst q - base)
      \<or> unat (fst q - base) + length (snd q) \<le> unat (fst r - base)"
      using Cons.prems(4) q by (meson list.set_intros)
    moreover have "0 < length (snd q)" using Cons.prems(3) [of q] q by simp
    ultimately show ?thesis by linarith
  qed
  then show ?case using Cons by auto
qed

lemma holds_byte_stored:
  assumes inv: "ooo_inv cap (seen_from base conn)" and L: "set rs = set (vmOutOfOrder conn)"
  shows "holds_byte (map (rel base) rs) k x \<longleftrightarrow> stored (seen_from base conn) k = Some x"
  unfolding stored_iff [OF inv] by (auto simp: holds_byte_def in_range_def L)

lemma mset_filter_left:
  assumes "mset (dn @ left) = mset m" "distinct (map fst m)"
  shows "mset (filter (\<lambda>r. fst r \<notin> fst ` set dn) m) = mset left"
proof -
  have "distinct (map fst (dn @ left))"
    using assms by (metis mset_map mset_eq_imp_distinct_iff)
  then have dj: "fst ` set dn \<inter> fst ` set left = {}" by auto
  have "mset (filter (\<lambda>r. fst r \<notin> fst ` set dn) m)
      = mset (filter (\<lambda>r. fst r \<notin> fst ` set dn) (dn @ left))"
    using assms(1) by (metis mset_filter)
  also have "filter (\<lambda>r. fst r \<notin> fst ` set dn) (dn @ left) = left"
    using dj by (auto simp: filter_id_conv filter_empty_conv)
  finally show ?thesis .
qed

context receive_sink
begin

lemma drain_correct:
  assumes inv: "ooo_inv cap (seen_from base conn)" and cap: "cap \<le> 65535"
    and n: "vmSeq conn = base + word_of_nat n" "n < 2 ^ 29" and w: "writable conn"
  shows "\<exists>d c out. drainTCPOutOfOrder wr conn = (d, c)
    \<and> vmSeq c = base + word_of_nat (n + length out) \<and> n + length out < 2 ^ 30
    \<and> sent c = sent conn @ out \<and> writable c
    \<and> (\<forall>i < length out. stored (seen_from base conn) (n + i) = Some (out ! i))
    \<and> stored (seen_from base conn) (n + length out) = None
    \<and> ooo_inv cap c
    \<and> (\<forall>k. stored c k = stored (seen_from base conn) (n + length out + k))"
proof -
  let ?m = "vmOutOfOrder conn" and ?old = "seen_from base conn"
  define L where "L = sort_key (\<lambda>r. sint (fst r - vmSeq conn)) ?m"
  have L: "set L = set ?m" "mset L = mset ?m" by (simp_all add: L_def)
  have range: "\<forall>r \<in> set ?m. 0 < unat (fst r - base) \<and> snd r \<noteq> []
      \<and> unat (fst r - base) + length (snd r) \<le> cap"
    and dist: "distinct (map fst ?m)"
    and ap: "\<forall>r \<in> set ?m. \<forall>r' \<in> set ?m. r \<noteq> r' \<longrightarrow> apart ?old r r'"
    and cnt: "vmOutOfOrderBytes conn = int (sum_list (map (length \<circ> snd) ?m))"
    using inv by (simp_all add: ooo_inv_def)
  have small: "\<forall>r \<in> set L. unat (fst r - base) + length (snd r) < 2 ^ 30"
    using range cap L(1) by fastforce
  have dl: "distinct L" using dist L(2) by (metis distinct_map mset_eq_imp_distinct_iff)
  have "sorted (map (\<lambda>r. sint (fst r - vmSeq conn)) L)" unfolding L_def by simp
  moreover have "map (\<lambda>r. sint (fst r - vmSeq conn)) L = map (\<lambda>r. int (unat (fst r - base)) - int n) L"
  proof (rule map_cong [OF refl])
    fix r assume "r \<in> set L"
    then have "unat (fst r - base) < 2 ^ 30" using small by force
    then show "sint (fst r - vmSeq conn) = int (unat (fst r - base)) - int n"
      using sint_offset n by simp
  qed
  ultimately have ds: "disjoint_sorted (map (rel base) L)"
    using disjoint_sorted_rel [of base n L] dl range ap L(1) by (simp add: apart_def)
  obtain p out rest where ab: "drain_abs n (map (rel base) L) = (p, out, rest)"
    by (metis prod_cases3)
  note abs = drain_abs_spec [OF ds ab]
  have p: "p = n + length out" using abs by blast
  have hb: "holds_byte (map (rel base) L) k x \<longleftrightarrow> stored ?old k = Some x" for k x
    by (rule holds_byte_stored [OF inv L(1)])
  have "n < 2 ^ 30" using n(2) by simp
  from drain_loop_abs [OF small n(1) this w, of "{}" ?m p out rest 0] ab
  obtain dn left d c where split: "L = dn @ left" "map (rel base) left = rest"
    and c: "drain_loop wr L 0 conn = (d, c)" "vmSeq c = base + word_of_nat p" "p < 2 ^ 30"
      "writable c" "sent c = sent conn @ out"
      "vmOutOfOrder c = filter (\<lambda>r. fst r \<notin> fst ` set dn) ?m"
      "vmOutOfOrderBytes c = vmOutOfOrderBytes conn - int (sum_list (map (length \<circ> snd) dn))"
    by auto
  have drain: "drainTCPOutOfOrder wr conn = (d, c)"
    using c(1) by (auto simp: drainTCPOutOfOrder_def L_def)
  have rest: "rest = filter (\<lambda>r. p < fst r) (map (rel base) L)" using abs by blast
  have left_mset: "mset (vmOutOfOrder c) = mset left"
    using mset_filter_left [of dn left ?m] dist L(2) split(1) c(6) by simp
  have left: "r \<in> set left \<longleftrightarrow> r \<in> set ?m \<and> p < unat (fst r - base)" for r
  proof
    assume r: "r \<in> set left"
    then have "rel base r \<in> set rest" using split(2) by auto
    then show "r \<in> set ?m \<and> p < unat (fst r - base)" using rest r split(1) L(1) by auto
  next
    assume r: "r \<in> set ?m \<and> p < unat (fst r - base)"
    then have "rel base r \<in> set rest" using rest L(1) by auto
    then obtain q where q: "q \<in> set left" "rel base q = rel base r" using split(2) by auto
    then have "unat (fst q - base) = unat (fst r - base)" "snd q = snd r" by (simp_all add: rel_def)
    then have "fst q = fst r \<and> snd q = snd r"
      by (metis word_unat_eq_iff diff_add_cancel)
    then show "r \<in> set left" using q(1) by (metis prod_eqI)
  qed
  have c_set: "set (vmOutOfOrder c) = set left" using left_mset by (metis set_mset_mset)
  have off: "seq_offset c s = unat (s - base) - p" if "p < unat (s - base)" for s
  proof -
    have "s - vmSeq c = word_of_nat (unat (s - base)) - word_of_nat p" by (simp add: c(2))
    also have "\<dots> = word_of_nat (unat (s - base) - p)" using that by simp
    finally have "s - vmSeq c = word_of_nat (unat (s - base) - p)" .
    moreover have "unat (s - base) - p < 2 ^ 32"
      using unsigned_less [where w = "s - base" and 'a = nat] by simp
    ultimately show ?thesis by (simp add: seq_offset_def unat_of_nat)
  qed
  have offl: "seq_offset c (fst r) = unat (fst r - base) - p" if "r \<in> set left" for r
    using off left that by blast
  have inv': "ooo_inv cap c"
    unfolding ooo_inv_def
  proof (intro conjI ballI impI)
    show "distinct (map fst (vmOutOfOrder c))"
      using dist by (simp add: c(6) distinct_map_filter)
    have "int (sum_list (map (length \<circ> snd) ?m)) =
        int (sum_list (map (length \<circ> snd) dn)) + int (sum_list (map (length \<circ> snd) left))"
      using L(2) split(1) by (metis map_append mset_map of_nat_add sum_list.append sum_mset_sum_list)
    moreover have "sum_list (map (length \<circ> snd) (vmOutOfOrder c)) = sum_list (map (length \<circ> snd) left)"
      using left_mset by (metis mset_map sum_mset_sum_list)
    ultimately show "vmOutOfOrderBytes c = int (sum_list (map (length \<circ> snd) (vmOutOfOrder c)))"
      using c(7) cnt by linarith
  next
    fix r assume r: "r \<in> set (vmOutOfOrder c)"
    then have l: "r \<in> set left" "r \<in> set ?m" "p < unat (fst r - base)" using c_set left by auto
    then show "0 < seq_offset c (fst r)" using offl by simp
    show "snd r \<noteq> []" using range l(2) by blast
    have "unat (fst r - base) + length (snd r) \<le> cap" using range l(2) by blast
    then show "seq_offset c (fst r) + length (snd r) \<le> cap" using offl [OF l(1)] by linarith
  next
    fix r r' assume r: "r \<in> set (vmOutOfOrder c)" "r' \<in> set (vmOutOfOrder c)" "r \<noteq> r'"
    then have l: "r \<in> set left" "r' \<in> set left" "p < unat (fst r - base)" "p < unat (fst r' - base)"
      using c_set left by auto
    have "apart ?old r r'" using ap r c_set left by blast
    then show "apart c r r'" using l offl by (auto simp: apart_def)
  qed
  have st: "stored c k = stored ?old (p + k)" for k
  proof -
    have in_l: "in_range c k r \<longleftrightarrow> in_range ?old (p + k) r" if "r \<in> set left" for r
      using offl [OF that] left that by (auto simp: in_range_def)
    have "stored c k = Some x \<longleftrightarrow> stored ?old (p + k) = Some x" for x
    proof -
      have "in_range ?old (p + k) r \<Longrightarrow> r \<in> set left" if "r \<in> set ?m" for r
        using abs L(1) that left [of r] by (fastforce simp: in_range_def)
      moreover have "k - seq_offset c (fst r) = p + k - unat (fst r - base)"
        if "r \<in> set left" "in_range ?old (p + k) r" for r
        using offl [OF that(1)] left [of r] that by (auto simp: in_range_def)
      ultimately show ?thesis
        unfolding stored_iff [OF inv'] stored_iff [OF inv] c_set using in_l left by fastforce
    qed
    then show ?thesis by (metis option.exhaust)
  qed
  have "stored ?old p = None" using abs hb by (metis option.exhaust)
  then show ?thesis
    using drain c inv' st abs hb p by (intro exI [of _ out, THEN exI [of _ c, THEN exI [of _ d]]]) auto
qed

end

section \<open>The buffer never outgrows the window\<close>

lemma disjoint_sorted_sum:
  "disjoint_sorted rs \<Longrightarrow> (\<forall>r \<in> set rs. lo \<le> fst r \<and> fst r + length (snd r) \<le> hi) \<Longrightarrow> lo \<le> hi \<Longrightarrow>
   sum_list (map (\<lambda>r. length (snd r)) rs) \<le> hi - lo"
proof (induction rs arbitrary: lo)
  case Nil
  then show ?case by simp
next
  case (Cons r rs)
  have "sum_list (map (\<lambda>r. length (snd r)) rs) \<le> hi - (fst r + length (snd r))"
    using Cons.IH [of "fst r + length (snd r)"] Cons.prems by auto
  moreover have "lo \<le> fst r" "fst r + length (snd r) \<le> hi" using Cons.prems(2) by simp_all
  ultimately show ?case by simp
qed

lemma ooo_bytes_bounded:
  assumes inv: "ooo_inv cap conn"
  shows "0 \<le> vmOutOfOrderBytes conn \<and> vmOutOfOrderBytes conn \<le> int cap"
proof -
  let ?m = "vmOutOfOrder conn" and ?base = "vmSeq conn"
  define L where "L = sort_key (\<lambda>r. int (unat (fst r - ?base)) - int 0) ?m"
  have L: "set L = set ?m" "mset L = mset ?m" by (simp_all add: L_def)
  have range: "\<forall>r \<in> set ?m. snd r \<noteq> [] \<and> unat (fst r - ?base) + length (snd r) \<le> cap"
    and ap: "\<forall>r \<in> set ?m. \<forall>r' \<in> set ?m. r \<noteq> r' \<longrightarrow> apart conn r r'"
    and dist: "distinct (map fst ?m)"
    using inv by (simp_all add: ooo_inv_def seq_offset_def)
  have dl: "distinct L" using dist L(2) by (metis distinct_map mset_eq_imp_distinct_iff)
  have "sorted (map (\<lambda>r. int (unat (fst r - ?base)) - int 0) L)" unfolding L_def by (rule sorted_sort_key)
  from disjoint_sorted_rel [OF this dl]
  have ds: "disjoint_sorted (map (rel ?base) L)"
    using range ap L(1) by (simp add: apart_def seq_offset_def)
  have "\<forall>r \<in> set (map (rel ?base) L). 0 \<le> fst r \<and> fst r + length (snd r) \<le> cap"
    using range L(1) by simp
  from disjoint_sorted_sum [OF ds this] have "sum_list (map (length \<circ> snd) L) \<le> cap"
    by (simp add: comp_def)
  moreover have "sum_list (map (length \<circ> snd) L) = sum_list (map (length \<circ> snd) ?m)"
    using L(2) by (metis mset_map sum_mset_sum_list)
  ultimately show ?thesis using inv by (simp add: ooo_inv_def)
qed

end
