(* ===== verification/Tcp_Receive.thy ===== *)
theory Tcp_Receive
  imports Tcp_Reassembly
begin

text \<open>
  The receive side of a TCP connection in relay.js: sequence comparison, the sink a connection
  writes to, the advertised window, and what the two TCP handlers do with the payload of a
  segment. The theorems follow the byte stream of the VM from the wire to the sink.
\<close>

section \<open>Sequence numbers\<close>

definition seqLessThan :: "u32 \<Rightarrow> u32 \<Rightarrow> bool" where
  "seqLessThan a b = (let diff = unat (a - b) in diff > 0x7FFFFFFF)"

definition seqLessThanOrEqual :: "u32 \<Rightarrow> u32 \<Rightarrow> bool" where
  "seqLessThanOrEqual a b = (a = b \<or> seqLessThan a b)"

definition seqDiff :: "u32 \<Rightarrow> u32 \<Rightarrow> nat" where
  "seqDiff a b = (let diff = unat (a - b) in if diff > 0x7FFFFFFF then 0 else diff)"

section \<open>Sink and window\<close>

text \<open>
  A sink is the socket or PassThrough stream the payload is written to. \<open>accepts\<close> stands for
  the return value of its \<open>write\<close>, which depends on how fast its consumer reads.
\<close>

record sink =
  writable :: bool
  written :: "bytes list"
  writableCorked :: nat
  ended :: bool
  destroyed :: bool

text \<open>corkForTurn of tcp_utils.js: the next tick undoes it (\<open>uncork\<close>).\<close>

definition corkForTurn :: "sink \<Rightarrow> sink" where
  "corkForTurn stream =
     (if writableCorked stream > 0 \<or> \<not> writable stream then stream
      else stream\<lparr>writableCorked := writableCorked stream + 1\<rparr>)"

definition uncork :: "sink \<Rightarrow> sink" where
  "uncork stream = stream\<lparr>writableCorked := writableCorked stream - 1\<rparr>"

record receive_state = recv_state +
  receiveBackpressured :: bool
  receiveSink :: sink

definition writeTCPReceiveData ::
  "(bytes list \<Rightarrow> bytes \<Rightarrow> bool) \<Rightarrow> bytes \<Rightarrow> 'a receive_state_scheme \<Rightarrow> bool \<times> 'a receive_state_scheme" where
  "writeTCPReceiveData accepts payload conn =
     (let snk = receiveSink conn
      in if \<not> writable snk then (False, conn)
         else
           let snk = corkForTurn snk;
               conn' = conn\<lparr>receiveSink := snk\<lparr>written := written snk @ [payload]\<rparr>\<rparr>
           in (True, if \<not> accepts (written snk) payload
                     then conn'\<lparr>receiveBackpressured := True\<rparr> else conn'))"

definition tcpReceiveWindow :: "int \<Rightarrow> 'a receive_state_scheme \<Rightarrow> int" where
  "tcpReceiveWindow window_size conn =
     (if receiveBackpressured conn then 0
      else
        let buffered = vmOutOfOrderBytes conn
        in max 0 (min 0xffff (window_size - buffered)))"

section \<open>The payload of a segment\<close>

text \<open>
  What the handler has to acknowledge: nothing was accepted and the ACK goes out at once
  (\<open>scheduleTCPAck(conn, 0, true)\<close>), or so many segments were.
\<close>

datatype ack_request = Ack_Now | Ack_Segments nat

definition reorder_capacity :: "int \<Rightarrow> nat" where
  "reorder_capacity window_size = nat (min 0xffff window_size)"

definition drain_to_sink ::
  "(bytes list \<Rightarrow> bytes \<Rightarrow> bool) \<Rightarrow> 'a receive_state_scheme \<Rightarrow> nat \<times> 'a receive_state_scheme" where
  "drain_to_sink accepts conn =
     drainTCPOutOfOrder (\<lambda>buffered c. snd (writeTCPReceiveData accepts buffered c)) conn"

definition accept_reverse_payload ::
  "(bytes list \<Rightarrow> bytes \<Rightarrow> bool) \<Rightarrow> int \<Rightarrow> u32 \<Rightarrow> bytes \<Rightarrow> 'a receive_state_scheme
     \<Rightarrow> ack_request \<times> 'a receive_state_scheme" where
  "accept_reverse_payload accepts window_size seqNum payload conn =
     (let old = seqLessThan seqNum (vmSeq conn);
          alreadyHave = (if old then seqDiff (vmSeq conn) seqNum else 0)
      in if old \<and> alreadyHave \<ge> length payload then (Ack_Now, conn)
         else
           let effectivePayload = drop alreadyHave payload;
               effectiveSeq = (if old then vmSeq conn else seqNum)
           in if seqLessThan (vmSeq conn) effectiveSeq
              then (Ack_Now,
                    if receiveBackpressured conn then conn
                    else bufferTCPOutOfOrder conn effectiveSeq effectivePayload
                           (reorder_capacity window_size))
              else
                let conn = snd (writeTCPReceiveData accepts effectivePayload conn);
                    conn = conn\<lparr>vmSeq := vmSeq conn + word_of_nat (length effectivePayload)\<rparr>;
                    (drained, conn) = drain_to_sink accepts conn
                in (Ack_Segments (1 + drained), conn))"

text \<open>The forward handler updates \<open>vmSeq\<close> first and decides by three comparisons.\<close>

definition accept_forward_payload ::
  "(bytes list \<Rightarrow> bytes \<Rightarrow> bool) \<Rightarrow> int \<Rightarrow> u32 \<Rightarrow> bytes \<Rightarrow> 'a receive_state_scheme
     \<Rightarrow> ack_request \<times> 'a receive_state_scheme" where
  "accept_forward_payload accepts window_size seqNum payload conn =
     (let expected = vmSeq conn;
          deliver = (\<lambda>effectivePayload conn.
            let conn = (if writable (receiveSink conn)
                        then snd (writeTCPReceiveData accepts effectivePayload conn) else conn);
                (drained, conn) = drain_to_sink accepts conn
            in (Ack_Segments (1 + drained), conn))
      in if seqNum = expected
         then deliver payload (conn\<lparr>vmSeq := seqNum + word_of_nat (length payload)\<rparr>)
         else if seqLessThan seqNum expected
         then
           let alreadyHave = seqDiff expected seqNum
           in if alreadyHave \<ge> length payload then (Ack_Now, conn)
              else
                let effectivePayload = drop alreadyHave payload
                in deliver effectivePayload
                     (conn\<lparr>vmSeq := expected + word_of_nat (length effectivePayload)\<rparr>)
         else
           (Ack_Now,
            if receiveBackpressured conn then conn
            else bufferTCPOutOfOrder conn seqNum payload (reorder_capacity window_size)))"

section \<open>The sink provides the drain's contract\<close>

abbreviation sink_write ::
  "(bytes list \<Rightarrow> bytes \<Rightarrow> bool) \<Rightarrow> bytes \<Rightarrow> 'a receive_state_scheme \<Rightarrow> 'a receive_state_scheme" where
  "sink_write accepts \<equiv> (\<lambda>b c. snd (writeTCPReceiveData accepts b c))"

definition delivered :: "'a receive_state_scheme \<Rightarrow> bytes" where
  "delivered conn = concat (written (receiveSink conn))"

definition sink_open :: "'a receive_state_scheme \<Rightarrow> bool" where
  "sink_open conn = writable (receiveSink conn)"

lemma corkForTurn_fields [simp]:
  "writable (corkForTurn s) = writable s" "written (corkForTurn s) = written s"
  by (simp_all add: corkForTurn_def)

lemma write_fields [simp]:
  "vmSeq (sink_write accepts b c) = vmSeq c"
  "vmOutOfOrder (sink_write accepts b c) = vmOutOfOrder c"
  "vmOutOfOrderBytes (sink_write accepts b c) = vmOutOfOrderBytes c"
  "sink_open (sink_write accepts b c) = sink_open c"
  "sink_open c \<Longrightarrow> delivered (sink_write accepts b c) = delivered c @ b"
  by (simp_all add: writeTCPReceiveData_def Let_def sink_open_def delivered_def)

lemma view_fields [simp]:
  "delivered (c\<lparr>vmSeq := s\<rparr>) = delivered c" "delivered (c\<lparr>vmOutOfOrder := m\<rparr>) = delivered c"
  "delivered (c\<lparr>vmOutOfOrderBytes := n\<rparr>) = delivered c"
  "sink_open (c\<lparr>vmSeq := s\<rparr>) = sink_open c" "sink_open (c\<lparr>vmOutOfOrder := m\<rparr>) = sink_open c"
  "sink_open (c\<lparr>vmOutOfOrderBytes := n\<rparr>) = sink_open c"
  by (simp_all add: sink_open_def delivered_def)

interpretation tcp_sink: receive_sink "sink_write accepts" delivered sink_open for accepts
  by unfold_locales simp_all

lemmas drain_to_sink_correct = tcp_sink.drain_correct [folded drain_to_sink_def]



section \<open>Following one byte stream\<close>

text \<open>
  \<open>S\<close> is the stream the VM sends, \<open>n\<close> how much of it has been delivered. A segment is
  consistent when the bytes it carries at or after position \<open>n\<close> are those of \<open>S\<close>; its
  distance from \<open>RCV.NXT\<close> is read as a signed 32-bit number.
\<close>

definition follows :: "(nat \<Rightarrow> byte) \<Rightarrow> nat \<Rightarrow> nat \<Rightarrow> 'a receive_state_scheme \<Rightarrow> bool" where
  "follows S cap n conn \<longleftrightarrow>
     sink_open conn \<and> delivered conn = map S [0..<n] \<and> ooo_inv cap conn \<and>
     (\<forall>k x. stored conn k = Some x \<longrightarrow> x = S (n + k))"

definition consistent_segment :: "(nat \<Rightarrow> byte) \<Rightarrow> nat \<Rightarrow> 'a receive_state_scheme \<Rightarrow> u32 \<Rightarrow> bytes \<Rightarrow> bool" where
  "consistent_segment S n conn seqNum payload \<longleftrightarrow>
     payload \<noteq> [] \<and> length payload \<le> 65535 \<and> seqNum - vmSeq conn \<noteq> 0x80000000 \<and>
     (\<forall>i < length payload. \<forall>m. int m = int n + sint (seqNum - vmSeq conn) + int i \<longrightarrow>
        n \<le> m \<longrightarrow> payload ! i = S m)"

lemma sint_unat:
  fixes w :: u32
  shows "sint w = (if unat w < 2 ^ 31 then int (unat w) else int (unat w) - 2 ^ 32)"
proof -
  define k where "k = unat w"
  have k: "k < 2 ^ 32" using unsigned_less [where w = w and 'a = nat] by (simp add: k_def)
  have e: "w = word_of_int (int k)" by (simp add: k_def)
  moreover have "word_of_int (int k - 2 ^ 32) = (word_of_int (int k) :: u32)" by simp
  ultimately have e2: "w = word_of_int (int k - 2 ^ 32)" by simp
  show ?thesis
  proof (cases "k < 2 ^ 31")
    case True
    then have "sint w = int k"
      by (subst e, subst signed_of_int) (simp add: signed_take_bit_int_eq_self_iff)
    then show ?thesis using True by (simp add: k_def)
  next
    case False
    then have "sint w = int k - 2 ^ 32"
      using k by (subst e2, subst signed_of_int) (simp add: signed_take_bit_int_eq_self_iff)
    then show ?thesis using False by (simp add: k_def)
  qed
qed

lemma seqLessThan_sint: "seqLessThan a b \<longleftrightarrow> sint (a - b) < 0"
proof -
  define k where "k = unat (a - b)"
  have "k < 2 ^ 32" using unsigned_less [where w = "a - b" and 'a = nat] by (simp add: k_def)
  moreover have "seqLessThan a b \<longleftrightarrow> k > 0x7FFFFFFF" by (simp add: seqLessThan_def k_def Let_def)
  moreover have "sint (a - b) = (if k < 2 ^ 31 then int k else int k - 2 ^ 32)"
    unfolding k_def by (rule sint_unat)
  ultimately show ?thesis by (auto split: if_splits)
qed

lemma seen_from_vmSeq [simp]: "vmSeq (seen_from base conn) = base"
  by (simp add: seen_from_def)

text \<open>Half the sequence space apart aside, \<open>seqDiff\<close> is the distance behind.\<close>

lemma seqDiff_behind:
  assumes "sint (a - b) < 0" "a - b \<noteq> 0x80000000"
  shows "int (seqDiff b a) = - sint (a - b)"
proof -
  define k where "k = unat (a - b)"
  have k: "k < 2 ^ 32" using unsigned_less [where w = "a - b" and 'a = nat] by (simp add: k_def)
  have ab: "a - b = word_of_nat k" by (simp add: k_def)
  have s: "sint (a - b) = (if k < 2 ^ 31 then int k else int k - 2 ^ 32)"
    unfolding k_def by (rule sint_unat)
  then have ge: "k \<ge> 2 ^ 31" using assms(1) by (auto split: if_splits)
  moreover have "k \<noteq> 2 ^ 31" using assms(2) ab by auto
  ultimately have gt: "k > 2 ^ 31" by linarith
  have "b - a = - word_of_nat k" using ab by (metis minus_diff_eq)
  also have "\<dots> = word_of_nat (2 ^ 32 - k)"
    using k by simp
  finally have "b - a = word_of_nat (2 ^ 32 - k)" .
  then have "unat (b - a) = 2 ^ 32 - k" using gt by (simp add: unat_of_nat)
  then have "seqDiff b a = 2 ^ 32 - k" using gt by (simp add: seqDiff_def Let_def)
  then show ?thesis using s ge k by simp
qed


text \<open>In-order payload: it is written, RCV.NXT moves past it, and the buffer is drained.\<close>

lemma deliver_step:
  assumes f: "follows S cap n conn" and cap: "cap \<le> 65535"
    and b: "length b \<le> 65535" "\<And>i. i < length b \<Longrightarrow> b ! i = S (n + i)"
    and c1: "vmSeq c1 = vmSeq conn + word_of_nat (length b)" "sink_open c1"
      "delivered c1 = delivered conn @ b" "vmOutOfOrder c1 = vmOutOfOrder conn"
      "vmOutOfOrderBytes c1 = vmOutOfOrderBytes conn"
    and d: "drain_to_sink accepts c1 = (k, c)"
  shows "\<exists>m. m \<ge> n + length b \<and> follows S cap m c \<and> vmSeq c = vmSeq conn + word_of_nat (m - n)"
proof -
  have same: "seen_from (vmSeq conn) c1 = seen_from (vmSeq conn) c1" ..
  have inv: "ooo_inv cap (seen_from (vmSeq conn) c1)"
    using f c1 by (simp add: follows_def ooo_inv_def apart_def seq_offset_def)
  have st: "stored (seen_from (vmSeq conn) c1) = stored conn"
    using c1 by (simp add: fun_eq_iff stored_def in_range_def [abs_def] seq_offset_def)
  have len: "length b < 2 ^ 29" using b(1) by simp
  from drain_to_sink_correct [OF inv cap c1(1) len c1(2), of accepts] d
  obtain out where o: "vmSeq c = vmSeq conn + word_of_nat (length b + length out)"
      "delivered c = delivered c1 @ out" "sink_open c" "ooo_inv cap c"
      "\<forall>i < length out. stored conn (length b + i) = Some (out ! i)"
      "\<forall>k. stored c k = stored conn (length b + length out + k)"
    by (auto simp: st)
  let ?m = "n + (length b + length out)"
  have S: "x = S (n + j)" if "stored conn j = Some x" for j x
    using f that by (simp add: follows_def)
  have "b = map S [n..<n + length b]" using b(2) by (intro nth_equalityI) simp_all
  moreover have "out = map S [n + length b..<?m]"
    using o(5) S by (intro nth_equalityI) (auto simp: add.assoc)
  ultimately have "delivered c = map S [0..<n] @ map S [n..<n + length b] @ map S [n + length b..<?m]"
    using o(2) c1(3) f by (simp add: follows_def)
  also have "\<dots> = map S ([0..<n] @ [n..<n + length b] @ [n + length b..<?m])" by simp
  also have "[0..<n] @ [n..<n + length b] @ [n + length b..<?m] = [0..<?m]"
    by (metis upt_add_eq_append le_add1 zero_le add.assoc)
  finally have "delivered c = map S [0..<?m]" .
  moreover have "x = S (?m + j)" if "stored c j = Some x" for j x
    using S [of "length b + length out + j" x] o(6) that by (simp add: ac_simps)
  ultimately have "follows S cap ?m c" using o(3,4) by (simp add: follows_def)
  then show ?thesis using o(1) by (intro exI [of _ ?m]) simp
qed

text \<open>Buffering touches the two fields of the buffer and nothing else.\<close>

definition buffer_only :: "'a recv_state_scheme \<Rightarrow> 'a recv_state_scheme \<Rightarrow> bool" where
  "buffer_only c c' \<longleftrightarrow> (\<exists>m q. c' = c\<lparr>vmOutOfOrder := m, vmOutOfOrderBytes := q\<rparr>)"

lemma buffer_only_refl: "buffer_only c c"
proof -
  have "c = c\<lparr>vmOutOfOrder := vmOutOfOrder c, vmOutOfOrderBytes := vmOutOfOrderBytes c\<rparr>" by simp
  then show ?thesis unfolding buffer_only_def by blast
qed

lemma buffer_only_trans: "buffer_only c c' \<Longrightarrow> buffer_only c' c'' \<Longrightarrow> buffer_only c c''"
  unfolding buffer_only_def by clarsimp blast

lemma add_range_frame: "buffer_only conn (add_range payload start f t conn)"
  using buffer_only_refl [of conn] by (auto simp: add_range_def Let_def buffer_only_def)

lemma buffer_loop_frame: "buffer_only conn (buffer_loop payload start end_i rs cursor conn)"
proof (induction rs arbitrary: cursor conn)
  case Nil
  then show ?case by (simp add: add_range_frame)
next
  case (Cons r rs)
  then show ?case
    by (cases r) (auto simp: Let_def intro: add_range_frame buffer_only_trans [OF add_range_frame])
qed

lemma buffer_frame: "buffer_only conn (bufferTCPOutOfOrder conn s payload cap)"
  unfolding bufferTCPOutOfOrder_def Let_def by (simp add: buffer_only_refl buffer_loop_frame)

lemma buffer_step:
  assumes f: "follows S cap n conn" and cap: "cap \<le> 65535"
    and b: "\<And>i. i < length payload \<Longrightarrow> payload ! i = S (n + seq_offset conn seqNum + i)"
  shows "follows S cap n (bufferTCPOutOfOrder conn seqNum payload cap)"
    and "vmSeq (bufferTCPOutOfOrder conn seqNum payload cap) = vmSeq conn"
proof -
  have inv: "ooo_inv cap conn" using f by (simp add: follows_def)
  let ?c = "bufferTCPOutOfOrder conn seqNum payload cap"
  note spec = bufferTCPOutOfOrder_spec [OF inv cap, of seqNum payload]
  obtain m q where "?c = conn\<lparr>vmOutOfOrder := m, vmOutOfOrderBytes := q\<rparr>"
    using buffer_frame unfolding buffer_only_def by blast
  then have "delivered ?c = delivered conn" "sink_open ?c = sink_open conn" by simp_all
  moreover have "x = S (n + k)" if "stored ?c k = Some x" for k x
  proof -
    have old: "stored conn k = Some x \<Longrightarrow> x = S (n + k)" using f by (simp add: follows_def)
    have "payload ! (k - seq_offset conn seqNum) = S (n + k)"
      if "seq_offset conn seqNum \<le> k" "k < seq_offset conn seqNum + length payload"
      using b [of "k - seq_offset conn seqNum"] that by simp
    with old \<open>stored ?c k = Some x\<close> show ?thesis
      by (auto simp: spec(3) Let_def filled_def split: if_splits option.splits)
  qed
  ultimately show "follows S cap n ?c" using spec(1) f by (simp add: follows_def)
  show "vmSeq ?c = vmSeq conn" by (rule spec(2))
qed


lemma sint_seq_offset:
  assumes "0 \<le> sint (s - vmSeq conn)"
  shows "int (seq_offset conn s) = sint (s - vmSeq conn)"
proof -
  define k where "k = unat (s - vmSeq conn)"
  have "k < 2 ^ 32" using unsigned_less [where w = "s - vmSeq conn" and 'a = nat] by (simp add: k_def)
  moreover have "sint (s - vmSeq conn) = (if k < 2 ^ 31 then int k else int k - 2 ^ 32)"
    unfolding k_def by (rule sint_unat)
  moreover have "seq_offset conn s = k" by (simp add: seq_offset_def k_def)
  ultimately show ?thesis using assms by (auto split: if_splits)
qed

lemma sint_uminus_nonneg:
  fixes x :: u32
  assumes "0 \<le> sint x"
  shows "sint (- x) = - sint x"
proof -
  have lt: "sint x < 2 ^ 31" using sint_lt [of x] by simp
  have e: "- x = word_of_int (- sint x)" by simp
  show ?thesis
    by (subst e, subst signed_of_int) (use assms lt in \<open>simp add: signed_take_bit_int_eq_self_iff\<close>)
qed

lemma seqLessThan_ahead: "0 \<le> sint (b - a) \<Longrightarrow> seqLessThan a b \<longleftrightarrow> 0 < sint (b - a)"
  using sint_uminus_nonneg [of "b - a"] by (simp add: seqLessThan_sint)

lemma write_vmSeq_commute:
  "sink_write accepts b (c\<lparr>vmSeq := s\<rparr>) = (sink_write accepts b c)\<lparr>vmSeq := s\<rparr>"
  by (simp add: writeTCPReceiveData_def Let_def)

lemma reorder_capacity_le [simp]: "reorder_capacity w \<le> 65535"
  by (simp add: reorder_capacity_def)

text \<open>The part of both handlers that delivers.\<close>

definition deliver_in_order ::
  "(bytes list \<Rightarrow> bytes \<Rightarrow> bool) \<Rightarrow> bytes \<Rightarrow> 'a receive_state_scheme \<Rightarrow> nat \<times> 'a receive_state_scheme" where
  "deliver_in_order accepts b conn =
     drain_to_sink accepts
       ((sink_write accepts b conn)\<lparr>vmSeq := vmSeq conn + word_of_nat (length b)\<rparr>)"

lemma deliver_in_order_step:
  assumes f: "follows S cap n conn" and cap: "cap \<le> 65535"
    and b: "length b \<le> 65535" "\<And>i. i < length b \<Longrightarrow> b ! i = S (n + i)"
  shows "\<exists>m. m \<ge> n + length b \<and> follows S cap m (snd (deliver_in_order accepts b conn))
    \<and> vmSeq (snd (deliver_in_order accepts b conn)) = vmSeq conn + word_of_nat (m - n)"
proof -
  have "sink_open conn" using f by (simp add: follows_def)
  then show ?thesis
    unfolding deliver_in_order_def
    by (intro deliver_step [OF f cap b]) (simp_all add: prod_eq_iff)
qed

lemma accept_reverse_cases:
  "accept_reverse_payload accepts w s p conn =
    (let d = sint (s - vmSeq conn) in
     if d < 0 \<and> seqDiff (vmSeq conn) s \<ge> length p then (Ack_Now, conn)
     else if d > 0
     then (Ack_Now, if receiveBackpressured conn then conn
                    else bufferTCPOutOfOrder conn s p (reorder_capacity w))
     else (case deliver_in_order accepts (if d < 0 then drop (seqDiff (vmSeq conn) s) p else p) conn of
             (k, c) \<Rightarrow> (Ack_Segments (1 + k), c)))"
proof -
  have irr: "\<not> seqLessThan a a" for a by (simp add: seqLessThan_sint)
  consider "sint (s - vmSeq conn) < 0" | "sint (s - vmSeq conn) = 0" | "0 < sint (s - vmSeq conn)" by linarith
  then show ?thesis
  proof cases
    case 1
    then have "seqLessThan s (vmSeq conn)" by (simp add: seqLessThan_sint)
    then show ?thesis
      using 1 irr by (simp add: accept_reverse_payload_def Let_def deliver_in_order_def)
  next
    case 2
    then have "\<not> seqLessThan s (vmSeq conn)" "\<not> seqLessThan (vmSeq conn) s"
      using seqLessThan_ahead [of s "vmSeq conn"] by (simp_all add: seqLessThan_sint)
    then show ?thesis
      using 2 by (simp add: accept_reverse_payload_def Let_def deliver_in_order_def)
  next
    case 3
    then have "\<not> seqLessThan s (vmSeq conn)" "seqLessThan (vmSeq conn) s"
      using seqLessThan_ahead [of s "vmSeq conn"] by (simp_all add: seqLessThan_sint)
    then show ?thesis
      using 3 by (simp add: accept_reverse_payload_def Let_def)
  qed
qed

text \<open>The forward handler makes the same three-way choice.\<close>

lemma forward_is_reverse:
  "accept_forward_payload accepts w s p conn = accept_reverse_payload accepts w s p conn"
proof -
  have wr: "(if writable (receiveSink c) then sink_write accepts b c else c) = sink_write accepts b c"
    for b and c :: "'a receive_state_scheme"
    by (simp add: writeTCPReceiveData_def Let_def)
  have eq: "s = vmSeq conn \<longleftrightarrow> sint (s - vmSeq conn) = 0"
    using signed_word_eqI [of "s - vmSeq conn" 0] by auto
  show ?thesis
    unfolding accept_reverse_cases
    by (cases "s = vmSeq conn"; cases "sint (s - vmSeq conn) < 0")
      (use eq in \<open>simp_all add: accept_forward_payload_def Let_def wr write_vmSeq_commute
        deliver_in_order_def seqLessThan_sint\<close>)
qed


lemma accept_payload_step:
  assumes f: "follows S (reorder_capacity w) n conn" and seg: "consistent_segment S n conn s p"
  shows "\<exists>m. m \<ge> n
    \<and> (sint (s - vmSeq conn) \<le> 0 \<longrightarrow> int n + sint (s - vmSeq conn) + int (length p) \<le> int m)
    \<and> follows S (reorder_capacity w) m (snd (accept_reverse_payload accepts w s p conn))
    \<and> vmSeq (snd (accept_reverse_payload accepts w s p conn)) = vmSeq conn + word_of_nat (m - n)"
proof -
  let ?d = "sint (s - vmSeq conn)"
  have len: "length p \<le> 65535" and ne: "p \<noteq> []" and half: "s - vmSeq conn \<noteq> 0x80000000"
    and bytes: "\<And>i m. i < length p \<Longrightarrow> int m = int n + ?d + int i \<Longrightarrow> n \<le> m \<Longrightarrow> p ! i = S m"
    using seg by (auto simp: consistent_segment_def)
  consider "?d < 0" "int (length p) \<le> - ?d" | "?d < 0" "- ?d < int (length p)" | "?d = 0" | "0 < ?d"
    by linarith
  then show ?thesis
  proof cases
    case 1
    then have "accept_reverse_payload accepts w s p conn = (Ack_Now, conn)"
      using seqDiff_behind [OF 1(1) half] by (simp add: accept_reverse_cases Let_def)
    then show ?thesis using 1 f by (intro exI [of _ n]) simp
  next
    case 2
    let ?b = "drop (seqDiff (vmSeq conn) s) p"
    have skip: "int (seqDiff (vmSeq conn) s) = - ?d" using seqDiff_behind [OF 2(1) half] .
    have "?b ! i = S (n + i)" if "i < length ?b" for i
      using bytes [of "seqDiff (vmSeq conn) s + i" "n + i"] that skip by simp
    moreover have "length ?b \<le> 65535" using len by simp
    ultimately obtain m where m: "m \<ge> n + length ?b"
        "follows S (reorder_capacity w) m (snd (deliver_in_order accepts ?b conn))"
        "vmSeq (snd (deliver_in_order accepts ?b conn)) = vmSeq conn + word_of_nat (m - n)"
      using deliver_in_order_step [OF f reorder_capacity_le, of ?b accepts] by blast
    moreover have "snd (accept_reverse_payload accepts w s p conn) = snd (deliver_in_order accepts ?b conn)"
      using 2 skip by (simp add: accept_reverse_cases Let_def split: prod.split)
    moreover have "int (length ?b) = ?d + int (length p)" using skip 2 by simp
    ultimately show ?thesis using 2 by (intro exI [of _ m]) auto
  next
    case 3
    have "p ! i = S (n + i)" if "i < length p" for i using bytes [of i "n + i"] that 3 by simp
    moreover have "length p \<le> 65535" using len by simp
    ultimately obtain m where m: "m \<ge> n + length p"
        "follows S (reorder_capacity w) m (snd (deliver_in_order accepts p conn))"
        "vmSeq (snd (deliver_in_order accepts p conn)) = vmSeq conn + word_of_nat (m - n)"
      using deliver_in_order_step [OF f reorder_capacity_le, of p accepts] by blast
    moreover have "snd (accept_reverse_payload accepts w s p conn) = snd (deliver_in_order accepts p conn)"
      using 3 by (simp add: accept_reverse_cases Let_def split: prod.split)
    ultimately show ?thesis using 3 by (intro exI [of _ m]) auto
  next
    case 4
    have off: "int (seq_offset conn s) = ?d" using sint_seq_offset [of s conn] 4 by linarith
    have "p ! i = S (n + seq_offset conn s + i)" if "i < length p" for i
      using bytes [of i "n + seq_offset conn s + i"] that off by simp
    from buffer_step [OF f reorder_capacity_le this] show ?thesis
      using 4 f by (intro exI [of _ n]) (simp add: accept_reverse_cases Let_def)
  qed
qed

section \<open>Whole runs\<close>

definition receive_step ::
  "(bytes list \<Rightarrow> bytes \<Rightarrow> bool) \<Rightarrow> int \<Rightarrow> 'a receive_state_scheme \<Rightarrow> u32 \<times> bytes \<Rightarrow> 'a receive_state_scheme" where
  "receive_step accepts w conn seg = snd (accept_reverse_payload accepts w (fst seg) (snd seg) conn)"

definition carries :: "(nat \<Rightarrow> byte) \<Rightarrow> 'a receive_state_scheme \<Rightarrow> u32 \<times> bytes \<Rightarrow> bool" where
  "carries S conn seg = consistent_segment S (length (delivered conn)) conn (fst seg) (snd seg)"

definition stream_inv :: "(nat \<Rightarrow> byte) \<Rightarrow> u32 \<Rightarrow> int \<Rightarrow> 'a receive_state_scheme \<Rightarrow> bool" where
  "stream_inv S isn w conn \<longleftrightarrow>
     follows S (reorder_capacity w) (length (delivered conn)) conn
     \<and> vmSeq conn = isn + word_of_nat (length (delivered conn))"

lemma receive_step_inv:
  assumes inv: "stream_inv S isn w conn" and seg: "carries S conn seg"
  shows "stream_inv S isn w (receive_step accepts w conn seg)
    \<and> length (delivered conn) \<le> length (delivered (receive_step accepts w conn seg))"
proof -
  let ?n = "length (delivered conn)" and ?c = "receive_step accepts w conn seg"
  from assms obtain m where m: "m \<ge> ?n" "follows S (reorder_capacity w) m ?c"
      "vmSeq ?c = vmSeq conn + word_of_nat (m - ?n)"
    using accept_payload_step [of S w ?n conn "fst seg" "snd seg" accepts]
    by (auto simp: stream_inv_def carries_def receive_step_def)
  then have len: "length (delivered ?c) = m" by (simp add: follows_def)
  have "vmSeq ?c = isn + word_of_nat m"
    using m inv by (simp add: stream_inv_def)
  then show ?thesis using m(1,2) len by (simp add: stream_inv_def)
qed

interpretation vm_stream: monotone_machine "carries S" "receive_step accepts w" "stream_inv S isn w"
    "\<lambda>c. length (delivered c)"
  for S accepts w isn
  by unfold_locales (blast dest: receive_step_inv)+


section \<open>Properties\<close>

definition fresh_receive :: "u32 \<Rightarrow> receive_state" where
  "fresh_receive isn =
     \<lparr>vmSeq = isn, vmOutOfOrder = [], vmOutOfOrderBytes = 0, receiveBackpressured = False,
      receiveSink = \<lparr>writable = True, written = [], writableCorked = 0, ended = False, destroyed = False\<rparr>\<rparr>"

text \<open>
  C5: whatever order, overlap and repetition the segments of a VM's stream arrive in, the sink
  has received exactly a prefix of that stream, \<open>RCV.NXT\<close> stands right behind it (modulo the
  sequence space), and it only grows.
\<close>

theorem received_stream_prefix:
  assumes "stream_inv S isn w conn"
    and "admissible (carries S) (receive_step accepts w) conn segs"
  shows "let c = run (receive_step accepts w) conn segs; n = length (delivered c) in
    delivered c = map S [0..<n] \<and> vmSeq c = isn + word_of_nat n \<and> length (delivered conn) \<le> n
    \<and> ooo_inv (reorder_capacity w) c"
  using vm_stream.run_inv [OF assms] vm_stream.run_level [OF assms]
  by (simp add: stream_inv_def follows_def Let_def)

lemma fresh_stream_inv: "stream_inv S isn w (fresh_receive isn)"
  by (simp add: stream_inv_def follows_def fresh_receive_def ooo_inv_def sink_open_def delivered_def
      stored_def)

theorem received_stream_prefix_witness:
  "let c = run (receive_step (\<lambda>_ _. True) 10240) (fresh_receive 0xFFFFFFFE)
             [(0xFFFFFFFF, [1, 2]), (0xFFFFFFFE, [0 :: byte])] in
   delivered c = [0, 1, 2] \<and> delivered c = map word_of_nat [0..<length (delivered c)] \<and>
   vmSeq c = 0xFFFFFFFE + word_of_nat (length (delivered c)) \<and> ooo_inv (reorder_capacity 10240) c"
proof -
  let ?st = "receive_step (\<lambda>_ _. True) 10240"
  let ?c0 = "fresh_receive 0xFFFFFFFE"
  let ?c1 = "?c0\<lparr>vmOutOfOrder := [(0xFFFFFFFF, [1, 2 :: byte])], vmOutOfOrderBytes := 2\<rparr>"
  have s1: "?st ?c0 (0xFFFFFFFF, [1, 2]) = ?c1"
    by (simp add: receive_step_def accept_reverse_payload_def Let_def fresh_receive_def seqLessThan_def
        seqDiff_def bufferTCPOutOfOrder_def seq_offset_def reorder_capacity_def add_range_def subarray_def
        unsigned_minus_1_eq_mask mask_eq_exp_minus_1)
  have s2: "delivered (?st ?c1 (0xFFFFFFFE, [0])) = [0, 1, 2]"
    by (simp add: receive_step_def accept_reverse_payload_def Let_def fresh_receive_def seqLessThan_def
        writeTCPReceiveData_def drain_to_sink_def drainTCPOutOfOrder_def delivered_def)
  have adm: "admissible (carries word_of_nat) ?st ?c0 [(0xFFFFFFFF, [1, 2]), (0xFFFFFFFE, [0])]"
  proof -
    have two: "i < Suc (Suc 0) \<longleftrightarrow> i = 0 \<or> i = 1" for i by auto
    have "[1, 2] ! i = (word_of_nat m :: byte)" if "i < Suc (Suc 0)" "int m = 1 + int i" for i m
    proof -
      have "m = Suc i" using that(2) by simp
      then show ?thesis using that(1) by (auto simp: two)
    qed
    then have "carries word_of_nat ?c0 (0xFFFFFFFF, [1, 2])"
      by (simp add: carries_def consistent_segment_def fresh_receive_def delivered_def)
    moreover have "carries word_of_nat ?c1 (0xFFFFFFFE, [0])"
      by (simp add: carries_def consistent_segment_def fresh_receive_def delivered_def)
    ultimately show ?thesis by (simp only: admissible.simps s1 simp_thms)
  qed
  have "run ?st ?c0 [(0xFFFFFFFF, [1, 2]), (0xFFFFFFFE, [0])] = ?st ?c1 (0xFFFFFFFE, [0])"
    by (simp only: run.simps s1)
  then show ?thesis
    using received_stream_prefix [OF fresh_stream_inv adm] s2 by (simp only: Let_def)
qed


text \<open>
  Buffering a segment ahead of \<open>RCV.NXT\<close> keeps every byte already held, fills exactly the gaps
  that lie inside the window, keeps the ranges disjoint and the byte counter exact, and never
  holds more than the window.
\<close>

theorem reorder_buffer_fills_gaps:
  assumes "ooo_inv cap conn" "cap \<le> 65535"
  shows "let c = bufferTCPOutOfOrder conn sequence payload cap; start = seq_offset conn sequence in
    ooo_inv cap c \<and> vmSeq c = vmSeq conn \<and> 0 \<le> vmOutOfOrderBytes c \<and> vmOutOfOrderBytes c \<le> int cap \<and>
    (\<forall>k. stored c k =
      (case stored conn k of Some x \<Rightarrow> Some x
       | None \<Rightarrow> if start \<noteq> 0 \<and> start \<le> k \<and> k < min (start + length payload) cap
                then Some (payload ! (k - start)) else None))"
  using bufferTCPOutOfOrder_spec [OF assms, of sequence payload]
    ooo_bytes_bounded [OF bufferTCPOutOfOrder_spec(1) [OF assms, of sequence payload]]
  by (auto simp: Let_def filled_def split: option.splits)

definition reorder_example :: receive_state where
  "reorder_example = (fresh_receive 100)\<lparr>vmOutOfOrder := [(102, [20, 21])], vmOutOfOrderBytes := 2\<rparr>"

theorem reorder_buffer_fills_gaps_witness:
  "stored (bufferTCPOutOfOrder reorder_example 101 [1, 2, 3, 4, 5, 6] 6) 1 = Some 1 \<and>
   stored (bufferTCPOutOfOrder reorder_example 101 [1, 2, 3, 4, 5, 6] 6) 2 = Some 20 \<and>
   stored (bufferTCPOutOfOrder reorder_example 101 [1, 2, 3, 4, 5, 6] 6) 6 = None"
proof -
  have inv: "ooo_inv 6 reorder_example"
    by (simp add: reorder_example_def fresh_receive_def ooo_inv_def seq_offset_def)
  have start: "seq_offset reorder_example 101 = 1"
    by (simp add: reorder_example_def fresh_receive_def seq_offset_def)
  have held: "stored reorder_example (Suc 0) = None" "stored reorder_example 2 = Some 20"
      "stored reorder_example 6 = None"
    by (simp_all add: reorder_example_def fresh_receive_def stored_def in_range_def seq_offset_def)
  show ?thesis
    using reorder_buffer_fills_gaps [OF inv, of 101 "[1, 2, 3, 4, 5, 6]"]
    by (simp add: Let_def start held)
qed

text \<open>
  Draining after the window moved by \<open>n\<close> delivers exactly the bytes that have become
  contiguous, in order and each once, stops at the first missing byte, and leaves the buffer
  well formed with the same bytes still stored behind that gap.
\<close>

theorem drain_delivers_contiguous:
  assumes "ooo_inv cap (seen_from base conn)" "cap \<le> 65535"
    and "vmSeq conn = base + word_of_nat n" "n < 2 ^ 29" "sink_open conn"
  shows "\<exists>d c out. drain_to_sink accepts conn = (d, c)
    \<and> delivered c = delivered conn @ out
    \<and> (\<forall>i < length out. stored (seen_from base conn) (n + i) = Some (out ! i))
    \<and> stored (seen_from base conn) (n + length out) = None
    \<and> vmSeq c = vmSeq conn + word_of_nat (length out)
    \<and> ooo_inv cap c
    \<and> (\<forall>k. stored c k = stored (seen_from base conn) (n + length out + k))"
  using drain_to_sink_correct [OF assms, of accepts] assms(3)
  by (auto simp: add.assoc)

theorem drain_delivers_contiguous_witness:
  "\<exists>d c out. drain_to_sink (\<lambda>_ _. True) (reorder_example\<lparr>vmSeq := 103\<rparr>) = (d, c)
    \<and> delivered c = out \<and> out = [21] \<and> vmSeq c = 104"
proof -
  let ?conn = "reorder_example\<lparr>vmSeq := 103\<rparr>"
  have inv: "ooo_inv 6 (seen_from 100 ?conn)"
    by (simp add: reorder_example_def fresh_receive_def ooo_inv_def seq_offset_def seen_from_def)
  have st: "stored (seen_from 100 ?conn) k = (if k = 2 then Some 20 else if k = 3 then Some 21 else None)" for k
  proof -
    consider "k = 2" | "k = 3" | "k < 2" | "4 \<le> k" by linarith
    then show ?thesis
      by cases (simp_all add: stored_def in_range_def reorder_example_def fresh_receive_def
          seen_from_def seq_offset_def)
  qed
  have "vmSeq ?conn = 100 + word_of_nat 3" "(3 :: nat) < 2 ^ 29" "sink_open ?conn"
    by (simp_all add: sink_open_def reorder_example_def fresh_receive_def)
  from drain_delivers_contiguous [OF inv _ this, of "\<lambda>_ _. True"]
  obtain d c out where o: "drain_to_sink (\<lambda>_ _. True) ?conn = (d, c)" "delivered c = delivered ?conn @ out"
      "\<forall>i < length out. stored (seen_from 100 ?conn) (3 + i) = Some (out ! i)"
      "stored (seen_from 100 ?conn) (3 + length out) = None"
      "vmSeq c = vmSeq ?conn + word_of_nat (length out)" by auto
  have "length out = 1"
  proof (rule ccontr)
    assume "length out \<noteq> 1"
    moreover have "length out \<noteq> 0" using o(4) by (auto simp: st)
    ultimately have "1 < length out" by linarith
    with o(3) have "stored (seen_from 100 ?conn) (3 + 1) = Some (out ! 1)" by blast
    then show False by (simp add: st)
  qed
  moreover from this have "out ! 0 = 21" using o(3) by (auto simp: st dest: spec [of _ 0])
  ultimately have "out = [21]" by (cases out) auto
  then show ?thesis
    using o by (simp add: delivered_def reorder_example_def fresh_receive_def)
qed

text \<open>
  C25: the two payload paths of the relay, written separately for connections it opens and
  connections it accepts, treat every segment alike.
\<close>

theorem payload_paths_agree:
  "accept_forward_payload accepts window_size seqNum payload conn =
   accept_reverse_payload accepts window_size seqNum payload conn"
  by (rule forward_is_reverse)

text \<open>
  C38: exactly half the sequence space behind, \<open>seqLessThan\<close> says old and \<open>seqDiff\<close> says no byte is
  known yet, so both paths deliver the whole segment as if it were in order.
\<close>

theorem opposite_segment_is_delivered:
  assumes "sink_open conn" "vmOutOfOrder conn = []" "payload \<noteq> []"
  shows "delivered (snd (accept_reverse_payload accepts w (vmSeq conn + 0x80000000) payload conn)) =
    delivered conn @ payload"
proof -
  have "vmOutOfOrder (sink_write accepts payload conn) = []" using assms by simp
  then show ?thesis
    using assms
    by (simp add: accept_reverse_payload_def seqLessThan_def seqDiff_def Let_def drain_to_sink_def
        drainTCPOutOfOrder_def)
qed

theorem opposite_segment_is_delivered_witness:
  "delivered (snd (accept_reverse_payload (\<lambda>_ _. True) 10240 (5 + 0x80000000) [7, 8] (fresh_receive 5))) = [7, 8]"
  using opposite_segment_is_delivered [of "fresh_receive 5" "[7, 8]" "\<lambda>_ _. True" 10240]
  by (simp add: sink_open_def fresh_receive_def delivered_def)

end
