(* ===== verification/Tcp_Pacer.thy ===== *)
theory Tcp_Pacer
  imports Prelude
begin

text \<open>
  Model of tcp_pacer.js: the burst pacer of the segments sent to a VM. Clock readings and timer
  handles come from the environment and are arguments; the timer callback is an operation of
  its own (\<open>timer_fired\<close>), whose caller runs \<open>onReady\<close> afterwards.
\<close>

section \<open>State and constructor\<close>

datatype pacing_mode = Adaptive | Fixed | Off

definition valid_mode :: "string \<Rightarrow> pacing_mode option" where
  "valid_mode s =
     (if s = ''adaptive'' then Some Adaptive else if s = ''fixed'' then Some Fixed
      else if s = ''off'' then Some Off else None)"

record pacer =
  mode :: pacing_mode
  initialBurstSegments :: int
  maxBurstSegments :: int
  intervalMs :: int
  burstSegments :: int
  segmentsInBurst :: int
  ackedBytes :: int
  lastSegmentAt :: "rat option"
  blocked :: bool
  timer :: "nat option"

definition int_of :: "js_number \<Rightarrow> int option" where
  "int_of n = (case n of Num q \<Rightarrow> if isInteger n then Some \<lfloor>q\<rfloor> else None | _ \<Rightarrow> None)"

definition new_pacer :: "string \<Rightarrow> js_number \<Rightarrow> js_number \<Rightarrow> js_number \<Rightarrow> pacer result" where
  "new_pacer mode_arg initial maximum interval =
     (case valid_mode mode_arg of
        None \<Rightarrow> Inl (TypeError ''TCP pacing mode must be adaptive, fixed, or off'')
      | Some m \<Rightarrow>
     (case int_of initial of
        None \<Rightarrow> Inl (TypeError ''initial TCP pacing burst must be a positive integer'')
      | Some i \<Rightarrow>
        if i < 1 then Inl (TypeError ''initial TCP pacing burst must be a positive integer'') else
     (case int_of maximum of
        None \<Rightarrow> Inl (TypeError ''maximum TCP pacing burst must be at least the initial burst'')
      | Some x \<Rightarrow>
        if x < i then Inl (TypeError ''maximum TCP pacing burst must be at least the initial burst'') else
     (case int_of interval of
        None \<Rightarrow> Inl (TypeError ''TCP pacing interval must be a non-negative integer'')
      | Some t \<Rightarrow>
        if t < 0 then Inl (TypeError ''TCP pacing interval must be a non-negative integer'')
        else Inr \<lparr>mode = (if t = 0 then Off else m), initialBurstSegments = i, maxBurstSegments = x,
               intervalMs = t, burstSegments = i, segmentsInBurst = 0, ackedBytes = 0,
               lastSegmentAt = None, blocked = False, timer = None\<rparr>))))"

definition isOff :: "pacer \<Rightarrow> bool" where
  "isOff p = (mode p = Off)"

section \<open>Operations\<close>

definition noteAck :: "int \<Rightarrow> rat \<Rightarrow> pacer \<Rightarrow> bool \<times> pacer" where
  "noteAck acked congestionWindowBytes p =
     (if mode p \<noteq> Adaptive \<or> acked \<le> 0 then (False, p)
      else
        let threshold = max 1 \<lfloor>congestionWindowBytes\<rfloor>;
            p = p\<lparr>ackedBytes := ackedBytes p + acked\<rparr>
        in if ackedBytes p < threshold \<or> burstSegments p \<ge> maxBurstSegments p then (False, p)
           else (True, p\<lparr>ackedBytes := ackedBytes p - threshold, burstSegments := burstSegments p + 1\<rparr>))"

definition noteLoss :: "pacer \<Rightarrow> bool \<times> pacer" where
  "noteLoss p =
     (let p = p\<lparr>ackedBytes := 0\<rparr>
      in if mode p \<noteq> Adaptive then (False, p)
         else
           let reduced = max (initialBurstSegments p) (burstSegments p div 2)
           in if reduced = burstSegments p then (False, p)
              else (True, p\<lparr>burstSegments := reduced\<rparr>))"

definition noteSegment :: "rat \<Rightarrow> nat \<Rightarrow> pacer \<Rightarrow> bool \<times> pacer" where
  "noteSegment now handle p =
     (if isOff p then (False, p)
      else if blocked p then (True, p)
      else
        let p = (case lastSegmentAt p of
                   None \<Rightarrow> p
                 | Some t \<Rightarrow> if now - t \<ge> of_int (intervalMs p) then p\<lparr>segmentsInBurst := 0\<rparr> else p);
            p = p\<lparr>lastSegmentAt := Some now, segmentsInBurst := segmentsInBurst p + 1\<rparr>
        in if segmentsInBurst p < burstSegments p then (False, p)
           else (True, p\<lparr>segmentsInBurst := 0, blocked := True, timer := Some handle\<rparr>))"

definition timer_fired :: "pacer \<Rightarrow> pacer" where
  "timer_fired p = p\<lparr>timer := None, blocked := False\<rparr>"

definition close_pacer :: "pacer \<Rightarrow> pacer" where
  "close_pacer p = p\<lparr>timer := None, blocked := False, segmentsInBurst := 0\<rparr>"

section \<open>Invariant\<close>

datatype pacer_event = Ack int rat | Loss | Segment rat nat | Fire | Close

fun pacer_step :: "pacer \<Rightarrow> pacer_event \<Rightarrow> pacer" where
  "pacer_step p (Ack n w) = snd (noteAck n w p)"
| "pacer_step p Loss = snd (noteLoss p)"
| "pacer_step p (Segment now h) = snd (noteSegment now h p)"
| "pacer_step p Fire = timer_fired p"
| "pacer_step p Close = close_pacer p"

text \<open>A callback only runs for a timer that is armed: \<open>close\<close> cancels it.\<close>

fun pacer_ok :: "pacer \<Rightarrow> pacer_event \<Rightarrow> bool" where
  "pacer_ok p Fire = (timer p \<noteq> None)"
| "pacer_ok p _ = True"

definition pacer_inv :: "pacer \<Rightarrow> bool" where
  "pacer_inv p \<longleftrightarrow>
     1 \<le> initialBurstSegments p \<and> initialBurstSegments p \<le> burstSegments p
     \<and> burstSegments p \<le> maxBurstSegments p
     \<and> 0 \<le> segmentsInBurst p \<and> segmentsInBurst p < maxBurstSegments p
     \<and> 0 \<le> ackedBytes p \<and> 0 \<le> intervalMs p \<and> (intervalMs p = 0 \<longrightarrow> isOff p)
     \<and> (blocked p \<longleftrightarrow> timer p \<noteq> None) \<and> (blocked p \<longrightarrow> segmentsInBurst p = 0)
     \<and> (isOff p \<longrightarrow> timer p = None \<and> segmentsInBurst p = 0)
     \<and> (mode p \<noteq> Adaptive \<longrightarrow> burstSegments p = initialBurstSegments p)"

definition settings :: "pacer \<Rightarrow> pacing_mode \<times> int \<times> int \<times> int" where
  "settings p = (mode p, initialBurstSegments p, maxBurstSegments p, intervalMs p)"

lemma settings_step [simp]: "settings (pacer_step p e) = settings p"
  by (cases e)
    (simp_all add: settings_def noteAck_def noteLoss_def noteSegment_def timer_fired_def close_pacer_def
      Let_def split: option.split)

lemma noteAck_inv: "pacer_inv p \<Longrightarrow> pacer_inv (snd (noteAck n w p))"
  by (auto simp: noteAck_def Let_def pacer_inv_def isOff_def)

lemma noteLoss_inv: "pacer_inv p \<Longrightarrow> pacer_inv (snd (noteLoss p))"
  by (auto simp: noteLoss_def Let_def pacer_inv_def isOff_def)

lemma noteSegment_inv: "pacer_inv p \<Longrightarrow> pacer_inv (snd (noteSegment now h p))"
  by (cases "lastSegmentAt p") (auto simp: noteSegment_def Let_def pacer_inv_def isOff_def)

lemma new_pacer_inv: "new_pacer m i x t = Inr p \<Longrightarrow> pacer_inv p"
  by (auto simp: new_pacer_def pacer_inv_def isOff_def split: option.splits if_splits)

interpretation pacer: machine pacer_ok pacer_step pacer_inv
proof unfold_locales
  fix p e assume "pacer_inv p" "pacer_ok p e"
  then show "pacer_inv (pacer_step p e)"
    by (cases e) (simp_all add: noteAck_inv noteLoss_inv noteSegment_inv,
        auto simp: pacer_inv_def timer_fired_def close_pacer_def isOff_def)
qed

section \<open>Bursts\<close>

definition segments :: "(rat \<times> nat) list \<Rightarrow> pacer_event list" where
  "segments = map (\<lambda>(t, h). Segment t h)"

text \<open>\<open>dense d last ts\<close>: no gap of \<open>d\<close> or more between successive segments.\<close>

fun dense :: "rat \<Rightarrow> rat option \<Rightarrow> (rat \<times> nat) list \<Rightarrow> bool" where
  "dense d prev [] = True"
| "dense d prev ((t, h) # ts) =
     ((case prev of None \<Rightarrow> True | Some u \<Rightarrow> t - u < d) \<and> dense d (Some t) ts)"

lemma burst_run:
  assumes "pacer_inv p" "\<not> isOff p" "\<not> blocked p" "segmentsInBurst p < burstSegments p"
    and "dense (of_int (intervalMs p)) (lastSegmentAt p) ts"
    and "int (length ts) \<le> burstSegments p - segmentsInBurst p"
  shows "let q = run pacer_step p (segments ts) in
    blocked q = (int (length ts) = burstSegments p - segmentsInBurst p)
    \<and> (\<not> blocked q \<longrightarrow> segmentsInBurst q = segmentsInBurst p + int (length ts))"
  using assms
proof (induction ts arbitrary: p)
  case Nil
  then show ?case by (simp add: segments_def)
next
  case (Cons x ts)
  obtain t h where x: "x = (t, h)" by (cases x)
  let ?q = "snd (noteSegment t h p)"
  have inv: "pacer_inv ?q" using noteSegment_inv Cons.prems(1) .
  have go: "run pacer_step p (segments (x # ts)) = run pacer_step ?q (segments ts)"
    by (simp add: segments_def x)
  show ?case
  proof (cases "segmentsInBurst p + 1 < burstSegments p")
    case True
    then have q: "\<not> isOff ?q" "\<not> blocked ?q" "segmentsInBurst ?q = segmentsInBurst p + 1"
      "burstSegments ?q = burstSegments p" "intervalMs ?q = intervalMs p" "lastSegmentAt ?q = Some t"
      using Cons.prems by (auto simp: noteSegment_def Let_def isOff_def x split: option.splits)
    show ?thesis
      using Cons.IH [OF inv q(1,2)] True Cons.prems(5,6) unfolding go q
      by (simp add: x q Let_def) linarith
  next
    case False
    then have "blocked ?q"
      using Cons.prems by (auto simp: noteSegment_def Let_def isOff_def x split: option.splits)
    moreover have le: "1 + int (length ts) \<le> burstSegments p - segmentsInBurst p"
      using Cons.prems(6) by simp
    then have "length ts = 0" "burstSegments p - segmentsInBurst p = 1" using False by linarith+
    then have "ts = []" "burstSegments p - segmentsInBurst p = 1" by simp_all
    ultimately show ?thesis unfolding go by (simp add: segments_def)
  qed
qed

section \<open>Growth on clean acknowledgements\<close>

definition acks :: "rat \<Rightarrow> int list \<Rightarrow> pacer_event list" where
  "acks w ns = map (\<lambda>n. Ack n w) ns"

lemma ack_run_full:
  "maxBurstSegments p \<le> burstSegments p \<Longrightarrow>
   burstSegments (run pacer_step p (acks w ns)) = burstSegments p"
proof (induction ns arbitrary: p)
  case Nil
  then show ?case by (simp add: acks_def)
next
  case (Cons n ns)
  have "burstSegments (snd (noteAck n w p)) = burstSegments p"
    "maxBurstSegments (snd (noteAck n w p)) = maxBurstSegments p"
    using Cons.prems by (auto simp: noteAck_def Let_def)
  then show ?case using Cons.IH [of "snd (noteAck n w p)"] Cons.prems by (simp add: acks_def)
qed

lemma ack_run:
  assumes "mode p = Adaptive" "burstSegments p \<le> maxBurstSegments p" "1 \<le> w"
    and "0 \<le> ackedBytes p" "ackedBytes p < \<lfloor>w\<rfloor>" "\<forall>n \<in> set ns. 0 < n \<and> n \<le> \<lfloor>w\<rfloor>"
  shows "burstSegments (run pacer_step p (acks w ns)) =
    min (maxBurstSegments p) (burstSegments p + (ackedBytes p + sum_list ns) div \<lfloor>w\<rfloor>)"
  using assms
proof (induction ns arbitrary: p)
  case Nil
  then show ?case by (simp add: acks_def)
next
  case (Cons n ns)
  let ?W = "\<lfloor>w\<rfloor>" and ?q = "snd (noteAck n w p)"
  have W: "1 \<le> ?W" using Cons.prems(3) by linarith
  have n: "0 < n" "n \<le> ?W" using Cons.prems(6) by simp_all
  have ns0: "0 \<le> sum_list ns" using Cons.prems(6) by (intro sum_list_nonneg) fastforce
  have go: "run pacer_step p (acks w (n # ns)) = run pacer_step ?q (acks w ns)" by (simp add: acks_def)
  have th: "max 1 ?W = ?W" using W by simp
  show ?case
  proof (cases "burstSegments p \<ge> maxBurstSegments p")
    case True
    have "0 \<le> (ackedBytes p + sum_list (n # ns)) div ?W"
      using W n ns0 Cons.prems(4) by (intro pos_imp_zdiv_nonneg_iff [THEN iffD2]) simp_all
    then show ?thesis using ack_run_full [OF True] True Cons.prems(2) by simp
  next
    case False
    then have b: "burstSegments p + 1 \<le> maxBurstSegments p" by simp
    show ?thesis
    proof (cases "ackedBytes p + n < ?W")
      case True
      then have q: "mode ?q = mode p" "burstSegments ?q = burstSegments p"
        "maxBurstSegments ?q = maxBurstSegments p" "ackedBytes ?q = ackedBytes p + n"
        using Cons.prems(1) n W by (auto simp: noteAck_def Let_def)
      show ?thesis
        unfolding go using Cons.IH [of ?q] Cons.prems q n True by (simp add: add.assoc)
    next
      case more: False
      then have q: "mode ?q = mode p" "burstSegments ?q = burstSegments p + 1"
        "maxBurstSegments ?q = maxBurstSegments p" "ackedBytes ?q = ackedBytes p + n - ?W"
        using Cons.prems(1) n W False by (auto simp: noteAck_def Let_def th)
      have "ackedBytes p + n - ?W + sum_list ns = ackedBytes p + sum_list (n # ns) + (- 1) * ?W" by simp
      then have "(ackedBytes p + n - ?W + sum_list ns) div ?W = (ackedBytes p + sum_list (n # ns)) div ?W - 1"
        using W by (simp only: div_mult_self1)
      then show ?thesis
        unfolding go using Cons.IH [of ?q] Cons.prems q n more b by simp
    qed
  qed
qed

section \<open>Properties\<close>

text \<open>
  C34: from construction on, whatever acknowledgements, losses, segments, timer callbacks and
  closes happen, the burst stays between the configured bounds (and at the initial one unless
  adaptive), the pacer is blocked exactly while its timer is armed, a mode that is off never
  blocks, and the settings never change.
\<close>

theorem pacer_stays_in_bounds:
  assumes "new_pacer mode_arg initial maximum interval = Inr p" "admissible pacer_ok pacer_step p es"
  shows "let q = run pacer_step p es in
    settings q = settings p \<and> 1 \<le> initialBurstSegments q
    \<and> initialBurstSegments q \<le> burstSegments q \<and> burstSegments q \<le> maxBurstSegments q
    \<and> 0 \<le> segmentsInBurst q \<and> segmentsInBurst q < maxBurstSegments q
    \<and> (blocked q = (timer q \<noteq> None)) \<and> (isOff q \<longrightarrow> \<not> blocked q)
    \<and> (mode q \<noteq> Adaptive \<longrightarrow> burstSegments q = initialBurstSegments q)"
proof -
  have "pacer_inv (run pacer_step p es)" using pacer.run_inv [OF new_pacer_inv [OF assms(1)] assms(2)] .
  moreover have "settings (run pacer_step p es) = settings p" for es :: "pacer_event list"
    by (induction es arbitrary: p) simp_all
  ultimately show ?thesis by (simp add: pacer_inv_def Let_def)
qed

definition example_pacer :: pacer where
  "example_pacer = \<lparr>mode = Adaptive, initialBurstSegments = 3, maxBurstSegments = 8, intervalMs = 6,
     burstSegments = 3, segmentsInBurst = 0, ackedBytes = 0, lastSegmentAt = None, blocked = False,
     timer = None\<rparr>"

lemma example_pacer_new: "new_pacer ''adaptive'' (Num 3) (Num 8) (Num 6) = Inr example_pacer"
  by (simp add: new_pacer_def valid_mode_def int_of_def isInteger_def example_pacer_def)

theorem pacer_stays_in_bounds_witness:
  "let q = run pacer_step example_pacer
       [Segment 0 0, Segment 1 0, Ack 10240 10240, Segment 2 0, Segment 3 7, Fire, Loss] in
    burstSegments q \<le> maxBurstSegments q \<and> settings q = settings example_pacer \<and> \<not> blocked q"
proof -
  let ?es = "[Segment 0 0, Segment 1 0, Ack 10240 10240, Segment 2 0, Segment 3 7, Fire, Loss]"
  have "admissible pacer_ok pacer_step example_pacer ?es"
    "timer (run pacer_step example_pacer ?es) = None"
    by (simp_all add: example_pacer_def noteSegment_def noteAck_def noteLoss_def timer_fired_def isOff_def)
  then show ?thesis
    using pacer_stays_in_bounds [OF example_pacer_new, of ?es] by (simp only: Let_def) simp
qed

text \<open>
  An open burst closes exactly when its segments are used up. As long as no gap of the
  pacing interval separates segments, the pacer blocks after exactly
  \<open>burstSegments - segmentsInBurst\<close> more of them, never earlier and never later.
\<close>

theorem pacer_burst_exact:
  assumes "pacer_inv p" "\<not> isOff p" "\<not> blocked p" "segmentsInBurst p < burstSegments p"
    and "dense (of_int (intervalMs p)) (lastSegmentAt p) ts"
    and "int (length ts) \<le> burstSegments p - segmentsInBurst p"
  shows "blocked (run pacer_step p (segments ts)) =
    (int (length ts) = burstSegments p - segmentsInBurst p)"
  using burst_run [OF assms] by (simp add: Let_def)

theorem pacer_burst_exact_witness:
  "\<not> blocked (run pacer_step example_pacer (segments [(10, 0), (12, 1)])) \<and>
   blocked (run pacer_step example_pacer (segments [(10, 0), (12, 1), (17, 2)]))"
  using pacer_burst_exact [OF new_pacer_inv [OF example_pacer_new], of "[(10, 0), (12, 1)]"]
    pacer_burst_exact [OF new_pacer_inv [OF example_pacer_new], of "[(10, 0), (12, 1), (17, 2)]"]
  by (simp add: example_pacer_def isOff_def)

text \<open>
  In adaptive mode the burst grows by one segment for every full congestion window that has
  been acknowledged since the last loss, up to the configured ceiling.
\<close>

theorem pacer_growth_per_window:
  assumes "mode p = Adaptive" "burstSegments p \<le> maxBurstSegments p" "1 \<le> w"
    and "0 \<le> ackedBytes p" "ackedBytes p < \<lfloor>w\<rfloor>" "\<forall>n \<in> set ns. 0 < n \<and> n \<le> \<lfloor>w\<rfloor>"
  shows "burstSegments (run pacer_step p (map (\<lambda>n. Ack n w) ns)) =
    min (maxBurstSegments p) (burstSegments p + (ackedBytes p + sum_list ns) div \<lfloor>w\<rfloor>)"
  using ack_run [OF assms] by (simp add: acks_def)

theorem pacer_growth_per_window_witness:
  "burstSegments (run pacer_step example_pacer (map (\<lambda>n. Ack n 3000) [1460, 1460, 1460, 2000])) = 5"
  using pacer_growth_per_window [of example_pacer 3000 "[1460, 1460, 1460, 2000]"]
  by (simp add: example_pacer_def)

end
