(* ===== verification/Tcp_Retransmission.thy ===== *)
theory Tcp_Retransmission
  imports Prelude
begin

text \<open>
  Model of tcp_retransmission.js: the queue of sent but unacknowledged segments of one
  connection with its retransmission timer, zero-window probes and exponential backoff.

  The queue calls back into its owner, which may change the queue again (close it, track a
  probe). The operations that do so therefore run on the owner's state: a \<open>rtq_host\<close> says where
  the queue lies in it and gives the three callbacks, which may throw.
\<close>

section \<open>Segments and the queue\<close>

record tcp_flags =
  syn :: bool
  ack :: bool
  fin :: bool
  rst :: bool
  psh :: bool
  windowSize :: "int option"

definition no_flags :: tcp_flags where
  "no_flags = \<lparr>syn = False, ack = False, fin = False, rst = False, psh = False, windowSize = None\<rparr>"

definition sequenceDistance :: "u32 \<Rightarrow> u32 \<Rightarrow> nat" where
  "sequenceDistance later earlier = unat (later - earlier)"

definition sequence_length :: "bytes \<Rightarrow> tcp_flags \<Rightarrow> nat" where
  "sequence_length payload flags =
     length payload + (if syn flags then 1 else 0) + (if fin flags then 1 else 0)"

record segment =
  seg_seq :: u32
  seg_payload :: bytes
  seg_flags :: tcp_flags
  sequenceLength :: nat
  retransmissions :: nat

text \<open>
  \<open>rtq_timer\<close> is the armed timer: the generation its callback captured and its delay.
  \<open>can_probe\<close> says whether a persist probe callback was given.
\<close>

record rtq =
  sndUna :: u32
  sndNxt :: u32
  can_probe :: bool
  persist :: bool
  initialRtoMs :: int
  maxRtoMs :: int
  maxRetransmissions :: int
  currentRtoMs :: int
  timeoutRetransmissions :: int
  rtq_segments :: "segment list"
  payloadBytesInFlight :: int
  rtq_timer :: "(nat \<times> int) option"
  timerGeneration :: nat
  rtq_closed :: bool
  exhausted :: bool

definition new_rtq :: "int \<Rightarrow> bool \<Rightarrow> bool \<Rightarrow> int \<Rightarrow> int \<Rightarrow> int \<Rightarrow> rtq result" where
  "new_rtq initialSequence callbacks_given probe initial_ms max_ms max_retransmissions =
     (if \<not> callbacks_given then Inl (TypeError ''retransmission callbacks are required'')
      else if initial_ms \<le> 0 \<or> max_ms < initial_ms then Inl (TypeError ''invalid RTO range'')
      else if max_retransmissions < 1
      then Inl (TypeError ''maxRetransmissions must be a positive integer'')
      else Inr \<lparr>sndUna = word_of_int initialSequence, sndNxt = word_of_int initialSequence,
             can_probe = probe, persist = False, initialRtoMs = initial_ms, maxRtoMs = max_ms,
             maxRetransmissions = max_retransmissions, currentRtoMs = initial_ms,
             timeoutRetransmissions = 0, rtq_segments = [], payloadBytesInFlight = 0,
             rtq_timer = None, timerGeneration = 0, rtq_closed = False, exhausted = False\<rparr>)"

definition hasOutstanding :: "rtq \<Rightarrow> bool" where
  "hasOutstanding q = (length (rtq_segments q) > 0)"

definition oldest :: "rtq \<Rightarrow> segment option" where
  "oldest q = (case rtq_segments q of [] \<Rightarrow> None | s # _ \<Rightarrow> Some s)"

section \<open>Timers\<close>

definition armTimer :: "rtq \<Rightarrow> rtq" where
  "armTimer q =
     (if (\<not> hasOutstanding q \<and> \<not> persist q) \<or> rtq_closed q \<or> exhausted q then q
      else
        let generation = timerGeneration q + 1
        in q\<lparr>timerGeneration := generation, rtq_timer := Some (generation, currentRtoMs q)\<rparr>)"

definition clearTimer :: "rtq \<Rightarrow> rtq" where
  "clearTimer q = q\<lparr>timerGeneration := timerGeneration q + 1, rtq_timer := None\<rparr>"

section \<open>Tracking and acknowledging\<close>

definition track :: "u32 \<Rightarrow> bytes \<Rightarrow> tcp_flags \<Rightarrow> rtq \<Rightarrow> bool result \<times> rtq" where
  "track seq payload flags q =
     (if rtq_closed q \<or> exhausted q
      then (Inl (GenericError ''cannot track data on a closed retransmission queue''), q)
      else
        let len = sequence_length payload flags
        in if len = 0 then (Inr False, q)
           else if seq \<noteq> sndNxt q then (Inl (RangeError ''non-contiguous TCP segment''), q)
           else
             let seg = \<lparr>seg_seq = seq, seg_payload = payload, seg_flags = flags,
                        sequenceLength = len, retransmissions = 0\<rparr>;
                 q = q\<lparr>rtq_segments := rtq_segments q @ [seg],
                       payloadBytesInFlight := payloadBytesInFlight q + int (length payload),
                       sndNxt := sndNxt q + word_of_nat len\<rparr>
             in (Inr True,
                 if length (rtq_segments q) = 1 \<and> rtq_timer q = None then armTimer q else q))"

text \<open>
  consumeSegmentPrefix changes the segment it is given; the result is the number of data bytes
  consumed, or the error, with the segment as it is left.
\<close>

definition consumeSegmentPrefix :: "segment \<Rightarrow> nat \<Rightarrow> nat result \<times> segment" where
  "consumeSegmentPrefix seg count =
     (let remaining = count;
          consumedData = 0;
          (seg, remaining) =
            (if syn (seg_flags seg) \<and> remaining > 0
             then (seg\<lparr>seg_flags := (seg_flags seg)\<lparr>syn := False\<rparr>,
                       sequenceLength := sequenceLength seg - 1\<rparr>, remaining - 1)
             else (seg, remaining));
          (seg, remaining, consumedData) =
            (if remaining > 0 \<and> length (seg_payload seg) > 0
             then
               let bytes = min remaining (length (seg_payload seg))
               in (seg\<lparr>seg_payload := drop bytes (seg_payload seg),
                       sequenceLength := sequenceLength seg - bytes\<rparr>,
                   remaining - bytes, consumedData + bytes)
             else (seg, remaining, consumedData));
          (seg, remaining) =
            (if fin (seg_flags seg) \<and> remaining > 0
             then (seg\<lparr>seg_flags := (seg_flags seg)\<lparr>fin := False\<rparr>,
                       sequenceLength := sequenceLength seg - 1\<rparr>, remaining - 1)
             else (seg, remaining))
      in if remaining \<noteq> 0 \<or> sequenceLength seg \<le> 0
         then (Inl (GenericError ''invalid partial TCP acknowledgement''), seg)
         else (Inr consumedData, seg\<lparr>seg_seq := seg_seq seg + word_of_nat count\<rparr>))"

text \<open>
  The loop of acknowledge: remaining sequence numbers, data bytes so far, bytes in flight and
  segments.
\<close>

fun ack_loop :: "nat \<Rightarrow> nat \<Rightarrow> int \<Rightarrow> segment list \<Rightarrow> nat result \<times> int \<times> segment list" where
  "ack_loop remaining acked in_flight segs =
     (if remaining = 0 then (Inr acked, in_flight, segs)
      else case segs of
        [] \<Rightarrow> (Inl (GenericError ''ACK advanced beyond tracked TCP segments''), in_flight, segs)
      | seg # rest \<Rightarrow>
          if remaining \<ge> sequenceLength seg
          then ack_loop (remaining - sequenceLength seg) (acked + length (seg_payload seg))
                 (in_flight - int (length (seg_payload seg))) rest
          else
            (case consumeSegmentPrefix seg remaining of
               (Inl e, seg) \<Rightarrow> (Inl e, in_flight, seg # rest)
             | (Inr consumed, seg) \<Rightarrow> (Inr (acked + consumed), in_flight - int consumed, seg # rest)))"

declare ack_loop.simps [simp del]

datatype ack_status = Duplicate | Stale | Future | Advanced

definition acknowledge :: "u32 \<Rightarrow> rtq \<Rightarrow> (ack_status \<times> nat) result \<times> rtq" where
  "acknowledge ackNumber q =
     (let advance = sequenceDistance ackNumber (sndUna q);
          outstanding = sequenceDistance (sndNxt q) (sndUna q)
      in if advance = 0
         then (Inr (Duplicate, 0), if persist q then q\<lparr>timeoutRetransmissions := 0\<rparr> else q)
         else if advance \<ge> 0x80000000 then (Inr (Stale, 0), q)
         else if advance > outstanding then (Inr (Future, 0), q)
         else
           (case ack_loop advance 0 (payloadBytesInFlight q) (rtq_segments q) of
              (Inl e, in_flight, segs) \<Rightarrow>
                (Inl e, q\<lparr>rtq_segments := segs, payloadBytesInFlight := in_flight\<rparr>)
            | (Inr acked, in_flight, segs) \<Rightarrow>
                let q = q\<lparr>rtq_segments := segs, payloadBytesInFlight := in_flight,
                          sndUna := ackNumber, timeoutRetransmissions := 0\<rparr>;
                    q = (if \<not> persist q then q\<lparr>currentRtoMs := initialRtoMs q\<rparr> else q)
                in (Inr (Advanced, acked), armTimer (clearTimer q))))"

definition close_rtq :: "rtq \<Rightarrow> rtq" where
  "close_rtq q =
     (if rtq_closed q then q
      else (clearTimer (q\<lparr>rtq_closed := True, persist := False\<rparr>))
             \<lparr>rtq_segments := [], payloadBytesInFlight := 0\<rparr>)"

section \<open>Operations that call back\<close>

datatype retransmit_reason = Timeout_Retransmit | Fast_Retransmit | Window_Open

record 's rtq_host =
  queue_of :: "'s \<Rightarrow> rtq"
  on_queue :: "(rtq \<Rightarrow> rtq) \<Rightarrow> 's \<Rightarrow> 's"
  onRetransmit :: "segment option \<Rightarrow> retransmit_reason \<Rightarrow> 's \<Rightarrow> js_error option \<times> 's"
  onExhausted :: "js_error \<Rightarrow> segment option \<Rightarrow> 's \<Rightarrow> 's"
  onPersistProbe :: "segment option \<Rightarrow> 's \<Rightarrow> bool result \<times> 's"

text \<open>\<open>onPersistProbe\<close> returns whether its JavaScript result is not \<open>false\<close>.\<close>

definition give_up :: "'s rtq_host \<Rightarrow> js_error \<Rightarrow> 's \<Rightarrow> 's" where
  "give_up h e s =
     (let s = on_queue h (\<lambda>q. clearTimer (q\<lparr>exhausted := True\<rparr>)) s
      in onExhausted h e (oldest (queue_of h s)) s)"

definition emitRetransmission :: "'s rtq_host \<Rightarrow> retransmit_reason \<Rightarrow> 's \<Rightarrow> bool \<times> 's" where
  "emitRetransmission h reason s =
     (case onRetransmit h (oldest (queue_of h s)) reason s of
        (None, s) \<Rightarrow> (True, s)
      | (Some e, s) \<Rightarrow> (False, give_up h e s))"

definition fastRetransmit :: "'s rtq_host \<Rightarrow> 's \<Rightarrow> bool \<times> 's" where
  "fastRetransmit h s =
     (let q = queue_of h s
      in if persist q \<or> \<not> hasOutstanding q \<or> rtq_closed q \<or> exhausted q then (False, s)
         else
           let s = on_queue h (\<lambda>q. clearTimer (q\<lparr>currentRtoMs := initialRtoMs q\<rparr>)) s;
               (sent, s) = emitRetransmission h Fast_Retransmit s
           in if \<not> sent then (False, s) else (True, on_queue h armTimer s))"

definition change_persist :: "bool \<Rightarrow> rtq \<Rightarrow> rtq" where
  "change_persist enabled q =
     (clearTimer (q\<lparr>persist := enabled\<rparr>))
       \<lparr>currentRtoMs := initialRtoMs q, timeoutRetransmissions := 0\<rparr>"

definition setPersist :: "'s rtq_host \<Rightarrow> bool \<Rightarrow> 's \<Rightarrow> js_error option \<times> 's" where
  "setPersist h enabled s =
     (let q = queue_of h s
      in if rtq_closed q \<or> exhausted q \<or> persist q = enabled then (None, s)
         else if enabled \<and> \<not> can_probe q
         then (Some (TypeError ''a persist probe callback is required''), s)
         else
           let s = on_queue h (change_persist enabled) s;
               s = (if \<not> enabled \<and> hasOutstanding (queue_of h s)
                    then snd (emitRetransmission h Window_Open s) else s)
           in (None, on_queue h armTimer s))"

definition back_off :: "rtq \<Rightarrow> rtq" where
  "back_off q = q\<lparr>currentRtoMs := min (currentRtoMs q * 2) (maxRtoMs q)\<rparr>"

definition count_timeout :: "int \<Rightarrow> rtq \<Rightarrow> rtq" where
  "count_timeout n q = q\<lparr>timeoutRetransmissions := timeoutRetransmissions q + n\<rparr>"

definition bump_oldest :: "rtq \<Rightarrow> rtq" where
  "bump_oldest q =
     (case rtq_segments q of
        [] \<Rightarrow> q
      | seg # rest \<Rightarrow> q\<lparr>rtq_segments := seg\<lparr>retransmissions := retransmissions seg + 1\<rparr> # rest\<rparr>)"

definition persistTimeout :: "'s rtq_host \<Rightarrow> 's \<Rightarrow> 's" where
  "persistTimeout h s =
     (let q = queue_of h s
      in if timeoutRetransmissions q \<ge> maxRetransmissions q
         then give_up h (GenericError ''TCP zero-window probe limit exceeded'') s
         else
           let s = on_queue h (count_timeout 1) s
           in (case onPersistProbe h (oldest (queue_of h s)) s of
                 (Inl e, s) \<Rightarrow> give_up h e s
               | (Inr probed, s) \<Rightarrow>
                   let s = (if \<not> probed
                            then on_queue h (count_timeout (-1)) s
                            else s)
                   in on_queue h (\<lambda>q. armTimer (back_off (clearTimer q))) s))"

definition handleTimeout :: "'s rtq_host \<Rightarrow> 's \<Rightarrow> 's" where
  "handleTimeout h s =
     (let q = queue_of h s
      in if rtq_closed q \<or> exhausted q then s
         else if persist q then persistTimeout h s
         else if \<not> hasOutstanding q then s
         else if timeoutRetransmissions q \<ge> maxRetransmissions q
         then give_up h (GenericError ''TCP retransmission limit exceeded'') s
         else
           let s = on_queue h (\<lambda>q. bump_oldest (count_timeout 1 q)) s;
               (sent, s) = emitRetransmission h Timeout_Retransmit s
           in if \<not> sent then s else on_queue h (\<lambda>q. armTimer (back_off q)) s)"

text \<open>The callback armTimer passed to \<open>setTimeoutFn\<close>.\<close>

definition timer_callback :: "'s rtq_host \<Rightarrow> nat \<Rightarrow> 's \<Rightarrow> 's" where
  "timer_callback h generation s =
     (let q = queue_of h s
      in if generation \<noteq> timerGeneration q \<or> rtq_closed q \<or> exhausted q then s
         else handleTimeout h (on_queue h (\<lambda>q. q\<lparr>rtq_timer := None\<rparr>) s))"

section \<open>The unacknowledged sequence space\<close>

text \<open>What the sequence numbers from \<open>sndUna\<close> to \<open>sndNxt\<close> stand for, one item per number.\<close>

datatype seq_item = SYN_item | Byte_item byte | FIN_item

fun is_byte :: "seq_item \<Rightarrow> bool" where
  "is_byte (Byte_item b) = True"
| "is_byte _ = False"

definition items :: "segment \<Rightarrow> seq_item list" where
  "items seg = (if syn (seg_flags seg) then [SYN_item] else []) @ map Byte_item (seg_payload seg)
     @ (if fin (seg_flags seg) then [FIN_item] else [])"

definition unacked :: "rtq \<Rightarrow> seq_item list" where
  "unacked q = concat (map items (rtq_segments q))"

definition data_bytes :: "seq_item list \<Rightarrow> nat" where
  "data_bytes xs = length (filter is_byte xs)"

definition seg_ok :: "segment \<Rightarrow> bool" where
  "seg_ok seg \<longleftrightarrow> sequenceLength seg = length (items seg) \<and> items seg \<noteq> []"

fun contiguous :: "u32 \<Rightarrow> segment list \<Rightarrow> u32 \<Rightarrow> bool" where
  "contiguous a [] b = (a = b)"
| "contiguous a (seg # segs) b =
     (seg_seq seg = a \<and> seg_ok seg \<and> contiguous (a + word_of_nat (sequenceLength seg)) segs b)"

lemma data_bytes_simps [simp]:
  "data_bytes [] = 0" "data_bytes (xs @ ys) = data_bytes xs + data_bytes ys"
  "data_bytes (map Byte_item bs) = length bs"
  by (simp_all add: data_bytes_def comp_def)

lemma data_bytes_items [simp]: "data_bytes (items seg) = length (seg_payload seg)"
  by (simp add: items_def data_bytes_def comp_def)

lemma length_items: "length (items seg) = sequence_length (seg_payload seg) (seg_flags seg)"
  by (simp add: items_def sequence_length_def)

lemma contiguous_append:
  "contiguous a (xs @ ys) b \<longleftrightarrow> (\<exists>m. contiguous a xs m \<and> contiguous m ys b)"
  by (induction xs arbitrary: a) auto

lemma contiguous_span:
  "contiguous a segs b \<Longrightarrow> b - a = word_of_nat (length (concat (map items segs)))"
proof (induction segs arbitrary: a)
  case (Cons seg segs)
  have "b - (a + word_of_nat (sequenceLength seg)) = word_of_nat (length (concat (map items segs)))"
    using Cons by simp
  then have "b - a = word_of_nat (sequenceLength seg) + word_of_nat (length (concat (map items segs)))"
    by (simp add: algebra_simps)
  then show ?case using Cons.prems by (simp add: seg_ok_def)
qed simp

lemma consume_prefix:
  assumes ok: "seg_ok seg" and n: "0 < n" "n < sequenceLength seg"
  obtains seg' where "consumeSegmentPrefix seg n = (Inr (data_bytes (take n (items seg))), seg')"
    "items seg' = drop n (items seg)" "seg_ok seg'" "seg_seq seg' = seg_seq seg + word_of_nat n"
proof -
  let ?p = "seg_payload seg" and ?f = "seg_flags seg"
  define m where "m = (if syn ?f then n - 1 else n)"
  have len: "sequenceLength seg = (if syn ?f then 1 else 0) + length ?p + (if fin ?f then 1 else 0)"
    using ok by (simp add: seg_ok_def items_def)
  have m: "m \<le> length ?p" using n len by (auto simp: m_def split: if_splits)
  define seg' where "seg' = seg\<lparr>seg_flags := ?f\<lparr>syn := False\<rparr>, seg_payload := drop m ?p,
    sequenceLength := sequenceLength seg - n, seg_seq := seg_seq seg + word_of_nat n\<rparr>"
  have fl: "?f\<lparr>syn := False\<rparr> = ?f" if "\<not> syn ?f" using that by (cases ?f) simp
  have it: "items seg' = map Byte_item (drop m ?p) @ (if fin ?f then [FIN_item] else [])"
    by (simp add: seg'_def items_def)
  have dr: "drop n (items seg) = map Byte_item (drop m ?p) @ (if fin ?f then [FIN_item] else [])"
    using n(1) m by (cases n) (auto simp: items_def m_def drop_map)
  have tk: "data_bytes (take n (items seg)) = m"
    using n(1) m by (cases n) (auto simp: items_def m_def take_map data_bytes_def comp_def)
  have self: "seg_flags seg' = ?f\<lparr>syn := False\<rparr>" by (simp add: seg'_def)
  have upd: "seg\<lparr>seg_flags := ?f\<rparr> = seg" by (cases seg) simp
  have "consumeSegmentPrefix seg n = (Inr m, seg')"
  proof (cases "syn ?f")
    case True
    then show ?thesis
      using n len m by (cases "m = 0") (auto simp: consumeSegmentPrefix_def Let_def m_def seg'_def)
  next
    case False
    then show ?thesis
      using n len m fl upd
      by (cases "m = 0") (auto simp: consumeSegmentPrefix_def Let_def m_def seg'_def)
  qed
  moreover have "seg_ok seg'"
  proof -
    have e: "items seg' = drop n (items seg)" by (simp only: it dr)
    have "length (items seg) = sequenceLength seg" using ok by (simp add: seg_ok_def)
    moreover have "sequenceLength seg' = sequenceLength seg - n" by (simp add: seg'_def)
    ultimately show ?thesis unfolding seg_ok_def e using n(2) by simp
  qed
  ultimately show thesis using that it dr tk by (simp add: seg'_def)
qed

lemma ack_loop_spec:
  "contiguous a segs b \<Longrightarrow> n \<le> length (concat (map items segs)) \<Longrightarrow>
   \<exists>segs'. ack_loop n acked fl segs =
      (Inr (acked + data_bytes (take n (concat (map items segs)))),
       fl - int (data_bytes (take n (concat (map items segs)))), segs')
    \<and> contiguous (a + word_of_nat n) segs' b
    \<and> concat (map items segs') = drop n (concat (map items segs))"
proof (induction segs arbitrary: a n acked fl)
  case Nil
  then show ?case by (simp add: ack_loop.simps)
next
  case (Cons seg segs)
  have ok: "seg_ok seg" and seq: "seg_seq seg = a"
    and rest: "contiguous (a + word_of_nat (sequenceLength seg)) segs b"
    using Cons.prems(1) by simp_all
  have len: "length (items seg) = sequenceLength seg" using ok by (simp add: seg_ok_def)
  consider "n = 0" | "0 < n" "sequenceLength seg \<le> n" | "0 < n" "n < sequenceLength seg" by linarith
  then show ?case
  proof cases
    case 1
    then show ?thesis using Cons.prems by (subst ack_loop.simps) simp
  next
    case 2
    let ?k = "n - sequenceLength seg"
    have "?k \<le> length (concat (map items segs))" using Cons.prems(2) len by simp
    from Cons.IH [OF rest this, of "acked + length (seg_payload seg)" "fl - int (length (seg_payload seg))"]
    obtain segs' where s: "ack_loop ?k (acked + length (seg_payload seg))
        (fl - int (length (seg_payload seg))) segs =
        (Inr (acked + length (seg_payload seg) + data_bytes (take ?k (concat (map items segs)))),
         fl - int (length (seg_payload seg)) - int (data_bytes (take ?k (concat (map items segs)))), segs')"
      "contiguous (a + word_of_nat (sequenceLength seg) + word_of_nat ?k) segs' b"
      "concat (map items segs') = drop ?k (concat (map items segs))" by blast
    have "a + word_of_nat (sequenceLength seg) + word_of_nat ?k = a + word_of_nat n"
      using 2 by (metis add.assoc le_add_diff_inverse of_nat_add)
    then show ?thesis
      using s 2 len by (subst ack_loop.simps) (simp add: add.assoc)
  next
    case 3
    obtain seg' where c: "consumeSegmentPrefix seg n = (Inr (data_bytes (take n (items seg))), seg')"
        "items seg' = drop n (items seg)" "seg_ok seg'" "seg_seq seg' = seg_seq seg + word_of_nat n"
      using consume_prefix [OF ok 3] by blast
    have l': "sequenceLength seg' = sequenceLength seg - n" using c(2,3) len by (simp add: seg_ok_def)
    have e: "a + word_of_nat n + word_of_nat (sequenceLength seg') = a + word_of_nat (sequenceLength seg)"
      unfolding l' using 3 by (metis add.assoc le_add_diff_inverse less_imp_le of_nat_add)
    have "contiguous (a + word_of_nat n + word_of_nat (sequenceLength seg')) segs b"
      unfolding e by (rule rest)
    then have "contiguous (a + word_of_nat n) (seg' # segs) b" using c(3,4) seq by simp
    then show ?thesis
      using 3 c len by (subst ack_loop.simps) simp
  qed
qed


section \<open>Invariant\<close>

text \<open>
  \<open>rtq_wf\<close> holds at every moment, also while a callback runs; \<open>rtq_live\<close>, that an open queue
  with something to wait for has its timer armed, holds between operations.
\<close>

definition rtq_wf :: "rtq \<Rightarrow> bool" where
  "rtq_wf q \<longleftrightarrow>
     (if rtq_closed q then rtq_segments q = [] \<and> \<not> persist q \<and> rtq_timer q = None
      else contiguous (sndUna q) (rtq_segments q) (sndNxt q))
     \<and> payloadBytesInFlight q = int (data_bytes (unacked q))
     \<and> 0 < initialRtoMs q \<and> initialRtoMs q \<le> currentRtoMs q \<and> currentRtoMs q \<le> maxRtoMs q
     \<and> 1 \<le> maxRetransmissions q \<and> timeoutRetransmissions q \<le> maxRetransmissions q
     \<and> (\<forall>g d. rtq_timer q = Some (g, d) \<longrightarrow>
          g = timerGeneration q \<and> \<not> exhausted q \<and> (hasOutstanding q \<or> persist q))"

definition rtq_live :: "rtq \<Rightarrow> bool" where
  "rtq_live q \<longleftrightarrow>
     (\<not> rtq_closed q \<and> \<not> exhausted q \<and> (hasOutstanding q \<or> persist q) \<longrightarrow> rtq_timer q \<noteq> None)"

named_theorems rtq_simps \<open>effect of the small queue operations on every field\<close>

lemma clearTimer_fields [rtq_simps]:
  "sndUna (clearTimer q) = sndUna q" "sndNxt (clearTimer q) = sndNxt q"
  "persist (clearTimer q) = persist q" "initialRtoMs (clearTimer q) = initialRtoMs q"
  "maxRtoMs (clearTimer q) = maxRtoMs q" "maxRetransmissions (clearTimer q) = maxRetransmissions q"
  "currentRtoMs (clearTimer q) = currentRtoMs q"
  "timeoutRetransmissions (clearTimer q) = timeoutRetransmissions q"
  "rtq_segments (clearTimer q) = rtq_segments q"
  "payloadBytesInFlight (clearTimer q) = payloadBytesInFlight q" "rtq_timer (clearTimer q) = None"
  "rtq_closed (clearTimer q) = rtq_closed q" "exhausted (clearTimer q) = exhausted q"
  "can_probe (clearTimer q) = can_probe q" "timerGeneration (clearTimer q) = timerGeneration q + 1"
  by (simp_all add: clearTimer_def)

lemma armTimer_fields [rtq_simps]:
  "sndUna (armTimer q) = sndUna q" "sndNxt (armTimer q) = sndNxt q"
  "persist (armTimer q) = persist q" "initialRtoMs (armTimer q) = initialRtoMs q"
  "maxRtoMs (armTimer q) = maxRtoMs q" "maxRetransmissions (armTimer q) = maxRetransmissions q"
  "currentRtoMs (armTimer q) = currentRtoMs q"
  "timeoutRetransmissions (armTimer q) = timeoutRetransmissions q"
  "rtq_segments (armTimer q) = rtq_segments q"
  "payloadBytesInFlight (armTimer q) = payloadBytesInFlight q"
  "rtq_closed (armTimer q) = rtq_closed q" "exhausted (armTimer q) = exhausted q"
  "can_probe (armTimer q) = can_probe q"
  by (simp_all add: armTimer_def Let_def)

lemma queue_views [rtq_simps]:
  "hasOutstanding q \<longleftrightarrow> rtq_segments q \<noteq> []"
  "unacked q = concat (map items (rtq_segments q))"
  by (simp_all add: hasOutstanding_def unacked_def)

lemma armTimer_wf: "rtq_wf q \<Longrightarrow> rtq_wf (armTimer q)"
  by (simp add: rtq_wf_def rtq_simps) (auto simp: armTimer_def rtq_simps Let_def)

lemma armTimer_live: "rtq_live (armTimer q)"
  by (auto simp: rtq_live_def armTimer_def rtq_simps Let_def)

lemma clearTimer_wf: "rtq_wf q \<Longrightarrow> rtq_wf (clearTimer q)"
  by (simp add: rtq_wf_def rtq_simps)

lemma live_no_timer: "rtq_closed q \<or> exhausted q \<Longrightarrow> rtq_live q"
  by (auto simp: rtq_live_def)

lemma close_wf: "rtq_wf q \<Longrightarrow> rtq_wf (close_rtq q)"
  by (simp add: close_rtq_def rtq_wf_def rtq_simps)

lemma close_live: "rtq_live (close_rtq q)"
  by (rule live_no_timer) (simp add: close_rtq_def rtq_simps)

lemma back_off_wf: "rtq_wf q \<Longrightarrow> rtq_wf (back_off q)"
  by (auto simp: back_off_def rtq_wf_def rtq_simps)

lemma bump_oldest_wf: "rtq_wf q \<Longrightarrow> rtq_wf (bump_oldest q)"
  by (cases "rtq_segments q") (auto simp: bump_oldest_def rtq_wf_def rtq_simps seg_ok_def items_def)

lemma persist_change_wf:
  "rtq_wf q \<Longrightarrow> \<not> rtq_closed q \<Longrightarrow>
   rtq_wf (change_persist b q)"
  by (simp add: change_persist_def rtq_wf_def rtq_simps)

lemma count_up_wf:
  "rtq_wf q \<Longrightarrow> timeoutRetransmissions q < maxRetransmissions q \<Longrightarrow>
   rtq_wf (count_timeout 1 q)"
  by (simp add: count_timeout_def rtq_wf_def rtq_simps)

lemma count_down_wf:
  "rtq_wf q \<Longrightarrow> rtq_wf (count_timeout (-1) q)"
  by (simp add: count_timeout_def rtq_wf_def rtq_simps)

lemma disarm_wf: "rtq_wf q \<Longrightarrow> rtq_wf (q\<lparr>rtq_timer := None\<rparr>)"
  by (simp add: rtq_wf_def rtq_simps)

lemma new_rtq_wf: "new_rtq i g p a b m = Inr q \<Longrightarrow> rtq_wf q \<and> rtq_live q"
  by (auto simp: new_rtq_def rtq_wf_def rtq_live_def rtq_simps split: if_splits)

definition tracked :: "u32 \<Rightarrow> bytes \<Rightarrow> tcp_flags \<Rightarrow> rtq \<Rightarrow> rtq" where
  "tracked s p f q = q\<lparr>rtq_segments := rtq_segments q @ [\<lparr>seg_seq = s, seg_payload = p, seg_flags = f,
      sequenceLength = sequence_length p f, retransmissions = 0\<rparr>],
      payloadBytesInFlight := payloadBytesInFlight q + int (length p),
      sndNxt := sndNxt q + word_of_nat (sequence_length p f)\<rparr>"

lemma track_cases:
  "snd (track s p f q) =
     (if rtq_closed q \<or> exhausted q \<or> sequence_length p f = 0 \<or> s \<noteq> sndNxt q then q
      else if length (rtq_segments (tracked s p f q)) = 1 \<and> rtq_timer (tracked s p f q) = None
      then armTimer (tracked s p f q) else tracked s p f q)"
  by (auto simp: track_def tracked_def Let_def)

lemma tracked_wf:
  assumes "rtq_wf q" "\<not> rtq_closed q" "sequence_length p f \<noteq> 0" "s = sndNxt q"
  shows "rtq_wf (tracked s p f q)"
proof -
  define seg where "seg = \<lparr>seg_seq = s, seg_payload = p, seg_flags = f,
      sequenceLength = sequence_length p f, retransmissions = 0\<rparr>"
  have len: "length (items seg) = sequence_length p f" by (simp add: length_items seg_def)
  moreover have "items seg \<noteq> []" using len assms(3) by (metis list.size(3))
  ultimately have ok: "seg_ok seg" by (simp add: seg_ok_def seg_def)
  have "contiguous (sndUna q) (rtq_segments q @ [seg]) (sndNxt q + word_of_nat (sequence_length p f))"
    unfolding contiguous_append using assms ok
    by (intro exI [of _ "sndNxt q"]) (simp add: rtq_wf_def seg_def)
  then show ?thesis
    using assms by (auto simp: rtq_wf_def tracked_def rtq_simps seg_def)
qed

lemma track_keeps_wf: "rtq_wf q \<Longrightarrow> rtq_wf (snd (track s p f q))"
  unfolding track_cases using tracked_wf armTimer_wf by auto

lemma track_keeps_live: "rtq_live q \<Longrightarrow> rtq_live (snd (track s p f q))"
  unfolding track_cases by (auto simp: armTimer_live) (auto simp: rtq_live_def tracked_def rtq_simps)

lemma track_wf:
  "rtq_wf q \<Longrightarrow> rtq_live q \<Longrightarrow> rtq_wf (snd (track s p f q)) \<and> rtq_live (snd (track s p f q))"
  by (simp add: track_keeps_wf track_keeps_live)

definition ack_class :: "u32 \<Rightarrow> rtq \<Rightarrow> ack_status" where
  "ack_class a q =
     (let advance = sequenceDistance a (sndUna q)
      in if advance = 0 then Duplicate else if advance \<ge> 0x80000000 then Stale
         else if advance > sequenceDistance (sndNxt q) (sndUna q) then Future else Advanced)"

definition ack_advance :: "u32 \<Rightarrow> rtq \<Rightarrow> nat" where
  "ack_advance a q = (if ack_class a q = Advanced then sequenceDistance a (sndUna q) else 0)"

lemma outstanding_le:
  assumes "rtq_wf q" "\<not> rtq_closed q"
  shows "sequenceDistance (sndNxt q) (sndUna q) \<le> length (unacked q)"
proof -
  have "sndNxt q - sndUna q = word_of_nat (length (unacked q))"
    using contiguous_span assms by (simp add: rtq_wf_def unacked_def)
  then show ?thesis by (simp add: sequenceDistance_def unat_of_nat)
qed

lemma acknowledge_spec:
  assumes wf: "rtq_wf q" and open_q: "\<not> rtq_closed q"
  shows "fst (acknowledge a q) = Inr (ack_class a q, data_bytes (take (ack_advance a q) (unacked q)))"
    and "unacked (snd (acknowledge a q)) = drop (ack_advance a q) (unacked q)"
    and "sndUna (snd (acknowledge a q)) = (if ack_class a q = Advanced then a else sndUna q)"
    and "rtq_wf (snd (acknowledge a q))"
    and "rtq_live q \<Longrightarrow> rtq_live (snd (acknowledge a q))"
    and "sndNxt (snd (acknowledge a q)) = sndNxt q" "rtq_closed (snd (acknowledge a q)) = rtq_closed q"
      "exhausted (snd (acknowledge a q)) = exhausted q" "persist (snd (acknowledge a q)) = persist q"
proof -
  let ?adv = "sequenceDistance a (sndUna q)" and ?q = "snd (acknowledge a q)"
  have "fst (acknowledge a q) = Inr (ack_class a q, data_bytes (take (ack_advance a q) (unacked q)))
    \<and> unacked ?q = drop (ack_advance a q) (unacked q)
    \<and> sndUna ?q = (if ack_class a q = Advanced then a else sndUna q)
    \<and> rtq_wf ?q \<and> (rtq_live q \<longrightarrow> rtq_live ?q) \<and> sndNxt ?q = sndNxt q \<and> rtq_closed ?q = rtq_closed q
    \<and> exhausted ?q = exhausted q \<and> persist ?q = persist q"
  proof (cases "ack_class a q = Advanced")
    case False
    then have "?adv = 0 \<or> 0x80000000 \<le> ?adv \<or> sequenceDistance (sndNxt q) (sndUna q) < ?adv"
      by (auto simp: ack_class_def Let_def split: if_splits)
    then show ?thesis
      using False wf
      by (auto simp: acknowledge_def ack_class_def ack_advance_def Let_def rtq_wf_def rtq_live_def rtq_simps)
  next
    case True
    then have adv: "?adv \<noteq> 0" "\<not> 0x80000000 \<le> ?adv" "?adv \<le> sequenceDistance (sndNxt q) (sndUna q)"
      by (auto simp: ack_class_def Let_def split: if_splits)
    have "?adv \<le> length (concat (map items (rtq_segments q)))"
      using adv(3) outstanding_le [OF wf open_q] by (simp add: unacked_def)
    moreover have "contiguous (sndUna q) (rtq_segments q) (sndNxt q)"
      using wf open_q by (simp add: rtq_wf_def)
    ultimately obtain segs' where s: "ack_loop ?adv 0 (payloadBytesInFlight q) (rtq_segments q) =
        (Inr (data_bytes (take ?adv (unacked q))),
         payloadBytesInFlight q - int (data_bytes (take ?adv (unacked q))), segs')"
      "contiguous (sndUna q + word_of_nat ?adv) segs' (sndNxt q)"
      "concat (map items segs') = drop ?adv (unacked q)"
      using ack_loop_spec [of "sndUna q" "rtq_segments q" "sndNxt q" ?adv 0 "payloadBytesInFlight q"]
      by (auto simp: unacked_def)
    define q1 where "q1 = q\<lparr>rtq_segments := segs',
      payloadBytesInFlight := payloadBytesInFlight q - int (data_bytes (take ?adv (unacked q))),
      sndUna := a, timeoutRetransmissions := 0\<rparr>"
    define q2 where "q2 = (if \<not> persist q1 then q1\<lparr>currentRtoMs := initialRtoMs q1\<rparr> else q1)"
    have ack: "acknowledge a q =
        (Inr (Advanced, data_bytes (take ?adv (unacked q))), armTimer (clearTimer q2))"
      using adv s(1) by (simp add: acknowledge_def Let_def q1_def q2_def)
    have a: "sndUna q + word_of_nat ?adv = a" by (simp add: sequenceDistance_def)
    have "data_bytes (unacked q) = data_bytes (take ?adv (unacked q)) + data_bytes (drop ?adv (unacked q))"
      by (metis append_take_drop_id data_bytes_simps(2))
    then have bytes: "payloadBytesInFlight q - int (data_bytes (take ?adv (unacked q)))
        = int (data_bytes (concat (map items segs')))"
      using wf s(3) by (simp add: rtq_wf_def)
    have "rtq_wf (clearTimer q2)"
      using wf open_q s(2) bytes unfolding a
      by (auto simp: rtq_wf_def q2_def q1_def rtq_simps)
    then have "rtq_wf (armTimer (clearTimer q2))" by (rule armTimer_wf)
    then show ?thesis
      using True armTimer_live s(3) unfolding ack by (simp add: ack_advance_def q2_def q1_def rtq_simps)
  qed
  then show "fst (acknowledge a q) = Inr (ack_class a q, data_bytes (take (ack_advance a q) (unacked q)))"
    "unacked ?q = drop (ack_advance a q) (unacked q)"
    "sndUna ?q = (if ack_class a q = Advanced then a else sndUna q)" "rtq_wf ?q"
    "rtq_live q \<Longrightarrow> rtq_live ?q" "sndNxt ?q = sndNxt q" "rtq_closed ?q = rtq_closed q"
    "exhausted ?q = exhausted q" "persist ?q = persist q" by simp_all
qed


section \<open>The owner as an interface\<close>

text \<open>
  What the queue needs of its owner: the queue lies in the owner's state, and no callback breaks
  the queue or revives an exhausted one. The connections of the relay provide it.
\<close>

locale queue_host =
  fixes h :: "'s rtq_host"
  assumes get_put: "queue_of h (on_queue h f s) = f (queue_of h s)"
    and retransmit_wf: "rtq_wf (queue_of h s) \<Longrightarrow> rtq_wf (queue_of h (snd (onRetransmit h seg r s)))"
    and probe_wf: "rtq_wf (queue_of h s) \<Longrightarrow> rtq_wf (queue_of h (snd (onPersistProbe h seg s)))"
    and exhausted_wf: "rtq_wf (queue_of h s) \<Longrightarrow> exhausted (queue_of h s) \<Longrightarrow>
      rtq_wf (queue_of h (onExhausted h e seg s)) \<and> exhausted (queue_of h (onExhausted h e seg s))"
begin

lemma give_up_ok:
  assumes "rtq_wf (queue_of h s)"
  shows "rtq_wf (queue_of h (give_up h e s)) \<and> exhausted (queue_of h (give_up h e s))"
proof -
  let ?s = "on_queue h (\<lambda>q. clearTimer (q\<lparr>exhausted := True\<rparr>)) s"
  have "rtq_wf (queue_of h ?s)" "exhausted (queue_of h ?s)"
    using assms unfolding get_put by (auto simp: rtq_wf_def rtq_simps)
  then show ?thesis using exhausted_wf unfolding give_up_def Let_def by blast
qed

lemma give_up_settled:
  "rtq_wf (queue_of h s) \<Longrightarrow> rtq_wf (queue_of h (give_up h e s)) \<and> rtq_live (queue_of h (give_up h e s))"
  by (simp add: give_up_ok live_no_timer)

lemma emit_ok:
  assumes "rtq_wf (queue_of h s)"
  shows "rtq_wf (queue_of h (snd (emitRetransmission h r s)))"
    and "fst (emitRetransmission h r s) \<or> exhausted (queue_of h (snd (emitRetransmission h r s)))"
  using retransmit_wf [OF assms] give_up_ok
  by (auto simp: emitRetransmission_def split: prod.split option.split) (metis snd_conv)+

lemma arm_ok:
  "rtq_wf (queue_of h s) \<Longrightarrow>
   rtq_wf (queue_of h (on_queue h armTimer s)) \<and> rtq_live (queue_of h (on_queue h armTimer s))"
  by (simp add: get_put armTimer_wf armTimer_live)

lemma fastRetransmit_ok:
  assumes "rtq_wf (queue_of h s)" "rtq_live (queue_of h s)"
  shows "rtq_wf (queue_of h (snd (fastRetransmit h s))) \<and> rtq_live (queue_of h (snd (fastRetransmit h s)))"
proof -
  let ?q = "queue_of h s"
  let ?s = "on_queue h (\<lambda>q. clearTimer (q\<lparr>currentRtoMs := initialRtoMs q\<rparr>)) s"
  show ?thesis
  proof (cases "persist ?q \<or> \<not> hasOutstanding ?q \<or> rtq_closed ?q \<or> exhausted ?q")
    case True
    then show ?thesis using assms by (simp add: fastRetransmit_def)
  next
    case False
    have wf: "rtq_wf (queue_of h ?s)" using assms(1) unfolding get_put by (auto simp: rtq_wf_def rtq_simps)
    obtain sent s' where e: "emitRetransmission h Fast_Retransmit ?s = (sent, s')" by fastforce
    have s': "rtq_wf (queue_of h s')" "sent \<or> exhausted (queue_of h s')"
      using emit_ok [OF wf, of Fast_Retransmit] by (simp_all add: e)
    have "\<not> sent \<Longrightarrow> rtq_live (queue_of h s')" using s'(2) by (simp add: live_no_timer)
    then show ?thesis
      using False arm_ok [OF s'(1)] s'(1) by (simp add: fastRetransmit_def Let_def e)
  qed
qed

lemma setPersist_ok:
  assumes "rtq_wf (queue_of h s)" "rtq_live (queue_of h s)"
  shows "rtq_wf (queue_of h (snd (setPersist h b s))) \<and> rtq_live (queue_of h (snd (setPersist h b s)))"
proof -
  let ?q = "queue_of h s"
  let ?s = "on_queue h (change_persist b) s"
  show ?thesis
  proof (cases "rtq_closed ?q \<or> exhausted ?q \<or> persist ?q = b \<or> (b \<and> \<not> can_probe ?q)")
    case True
    then show ?thesis using assms by (auto simp: setPersist_def Let_def)
  next
    case False
    have wf: "rtq_wf (queue_of h ?s)"
      using persist_change_wf [OF assms(1)] False by (simp add: get_put)
    show ?thesis
    proof (cases "\<not> b \<and> hasOutstanding (queue_of h ?s)")
      case True
      then have "snd (setPersist h b s) = on_queue h armTimer (snd (emitRetransmission h Window_Open ?s))"
        using False by (auto simp: setPersist_def Let_def)
      then show ?thesis using arm_ok [OF emit_ok(1) [OF wf]] by simp
    next
      case no: False
      then have "snd (setPersist h b s) = on_queue h armTimer ?s"
        using False by (auto simp: setPersist_def Let_def)
      then show ?thesis using arm_ok [OF wf] by simp
    qed
  qed
qed

lemma persistTimeout_ok:
  assumes "rtq_wf (queue_of h s)"
  shows "rtq_wf (queue_of h (persistTimeout h s)) \<and> rtq_live (queue_of h (persistTimeout h s))"
proof -
  let ?q = "queue_of h s"
  let ?s = "on_queue h (count_timeout 1) s"
  show ?thesis
  proof (cases "timeoutRetransmissions ?q \<ge> maxRetransmissions ?q")
    case True
    then show ?thesis
      using give_up_settled [OF assms] by (simp add: persistTimeout_def Let_def)
  next
    case False
    have wf: "rtq_wf (queue_of h ?s)"
      using count_up_wf [OF assms] False by (simp add: get_put)
    obtain r s' where p: "onPersistProbe h (oldest (queue_of h ?s)) ?s = (r, s')" by fastforce
    have s': "rtq_wf (queue_of h s')" using probe_wf [OF wf] p by (metis snd_conv)
    show ?thesis
    proof (cases r)
      case (Inl e)
      then show ?thesis
        using False give_up_settled [OF s'] p by (simp add: persistTimeout_def Let_def)
    next
      case (Inr probed)
      define s2 where "s2 = (if \<not> probed
        then on_queue h (count_timeout (-1)) s' else s')"
      have "rtq_wf (queue_of h s2)"
        using s' count_down_wf [OF s'] by (simp add: s2_def get_put)
      then have "rtq_wf (queue_of h (on_queue h (\<lambda>q. armTimer (back_off (clearTimer q))) s2))"
        "rtq_live (queue_of h (on_queue h (\<lambda>q. armTimer (back_off (clearTimer q))) s2))"
        by (simp_all add: get_put armTimer_wf armTimer_live back_off_wf clearTimer_wf)
      then show ?thesis
        using False Inr p by (simp add: persistTimeout_def Let_def s2_def)
    qed
  qed
qed

lemma handleTimeout_ok:
  assumes "rtq_wf (queue_of h s)"
  shows "rtq_wf (queue_of h (handleTimeout h s)) \<and> rtq_live (queue_of h (handleTimeout h s))"
proof -
  let ?q = "queue_of h s"
  let ?s = "on_queue h (\<lambda>q. bump_oldest (count_timeout 1 q)) s"
  consider "rtq_closed ?q \<or> exhausted ?q" | "\<not> (rtq_closed ?q \<or> exhausted ?q)" "persist ?q"
    | "\<not> (rtq_closed ?q \<or> exhausted ?q)" "\<not> persist ?q" "\<not> hasOutstanding ?q"
    | "\<not> (rtq_closed ?q \<or> exhausted ?q)" "\<not> persist ?q" "hasOutstanding ?q"
      "timeoutRetransmissions ?q \<ge> maxRetransmissions ?q"
    | "\<not> (rtq_closed ?q \<or> exhausted ?q)" "\<not> persist ?q" "hasOutstanding ?q"
      "timeoutRetransmissions ?q < maxRetransmissions ?q" by linarith
  then show ?thesis
  proof cases
    case 1
    then show ?thesis using assms live_no_timer by (simp add: handleTimeout_def)
  next
    case 2
    then show ?thesis using persistTimeout_ok [OF assms] by (simp add: handleTimeout_def)
  next
    case 3
    then show ?thesis using assms by (simp add: handleTimeout_def rtq_live_def)
  next
    case 4
    then show ?thesis
      using give_up_settled [OF assms] by (simp add: handleTimeout_def Let_def)
  next
    case 5
    then have "rtq_wf (count_timeout 1 ?q)"
      using count_up_wf [OF assms] by simp
    then have wf: "rtq_wf (queue_of h ?s)" unfolding get_put by (rule bump_oldest_wf)
    obtain sent s' where e: "emitRetransmission h Timeout_Retransmit ?s = (sent, s')" by fastforce
    have s': "rtq_wf (queue_of h s')" "sent \<or> exhausted (queue_of h s')"
      using emit_ok [OF wf, of Timeout_Retransmit] by (simp_all add: e)
    have "rtq_wf (queue_of h (on_queue h (\<lambda>q. armTimer (back_off q)) s'))"
      "rtq_live (queue_of h (on_queue h (\<lambda>q. armTimer (back_off q)) s'))"
      using s'(1) by (simp_all add: get_put armTimer_wf armTimer_live back_off_wf)
    moreover have "\<not> sent \<Longrightarrow> rtq_live (queue_of h s')" using s'(2) by (simp add: live_no_timer)
    ultimately show ?thesis
      using 5 s'(1) by (simp add: handleTimeout_def Let_def e)
  qed
qed

lemma timer_callback_ok:
  assumes "rtq_wf (queue_of h s)" "rtq_live (queue_of h s)"
  shows "rtq_wf (queue_of h (timer_callback h g s)) \<and> rtq_live (queue_of h (timer_callback h g s))"
proof -
  have "rtq_wf (queue_of h (on_queue h (\<lambda>q. q\<lparr>rtq_timer := None\<rparr>) s))"
    using disarm_wf [OF assms(1)] by (simp add: get_put)
  from handleTimeout_ok [OF this] assms show ?thesis
    by (auto simp: timer_callback_def Let_def)
qed

end

text \<open>
  An owner whose transmissions succeed: as long as \<open>good\<close> holds, sending a segment again leaves
  the queue alone.
\<close>

locale quiet_host = queue_host h for h :: "'s rtq_host" +
  fixes good :: "'s \<Rightarrow> bool"
  assumes quiet: "good s \<Longrightarrow> fst (onRetransmit h seg r s) = None
      \<and> queue_of h (snd (onRetransmit h seg r s)) = queue_of h s \<and> good (snd (onRetransmit h seg r s))"
    and good_on_queue: "good s \<Longrightarrow> good (on_queue h f s)"

section \<open>Backoff and exhaustion\<close>

text \<open>\<open>expire h n s\<close>: the timer fires \<open>n\<close> times and nothing else happens.\<close>

primrec expire :: "'s rtq_host \<Rightarrow> nat \<Rightarrow> 's \<Rightarrow> 's" where
  "expire h 0 s = s"
| "expire h (Suc n) s =
     (let s = expire h n s in timer_callback h (timerGeneration (queue_of h s)) s)"

definition waiting :: "rtq \<Rightarrow> bool" where
  "waiting q \<longleftrightarrow> \<not> rtq_closed q \<and> \<not> exhausted q \<and> \<not> persist q \<and> hasOutstanding q"

context quiet_host
begin

lemma emit_quiet:
  assumes "good s"
  shows "fst (emitRetransmission h r s)" "queue_of h (snd (emitRetransmission h r s)) = queue_of h s"
    "good (snd (emitRetransmission h r s))"
  using quiet [OF assms, of "oldest (queue_of h s)" r]
  by (cases "onRetransmit h (oldest (queue_of h s)) r s"; simp add: emitRetransmission_def)+

lemma one_timeout:
  assumes "good s" "waiting (queue_of h s)"
    and "timeoutRetransmissions (queue_of h s) < maxRetransmissions (queue_of h s)"
  shows "queue_of h (timer_callback h (timerGeneration (queue_of h s)) s) =
      armTimer (back_off (bump_oldest (count_timeout 1 ((queue_of h s)\<lparr>rtq_timer := None\<rparr>))))"
    and "good (timer_callback h (timerGeneration (queue_of h s)) s)"
proof -
  let ?q = "queue_of h s"
  let ?s1 = "on_queue h (\<lambda>q. bump_oldest (count_timeout 1 q)) (on_queue h (\<lambda>q. q\<lparr>rtq_timer := None\<rparr>) s)"
  have g: "good ?s1" using assms(1) by (intro good_on_queue)
  note e = emit_quiet [OF g, of Timeout_Retransmit]
  have "timer_callback h (timerGeneration ?q) s =
      on_queue h (\<lambda>q. armTimer (back_off q)) (snd (emitRetransmission h Timeout_Retransmit ?s1))"
    using assms(2,3) e(1)
    by (cases "emitRetransmission h Timeout_Retransmit ?s1")
      (simp add: timer_callback_def handleTimeout_def waiting_def get_put hasOutstanding_def Let_def)
  then show "queue_of h (timer_callback h (timerGeneration ?q) s) =
      armTimer (back_off (bump_oldest (count_timeout 1 (?q\<lparr>rtq_timer := None\<rparr>))))"
    "good (timer_callback h (timerGeneration ?q) s)"
    using e(2,3) good_on_queue by (simp_all add: get_put)
qed

lemma last_timeout:
  assumes "rtq_wf (queue_of h s)" "waiting (queue_of h s)"
    and "maxRetransmissions (queue_of h s) \<le> timeoutRetransmissions (queue_of h s)"
  shows "exhausted (queue_of h (timer_callback h (timerGeneration (queue_of h s)) s))"
proof -
  let ?s = "on_queue h (\<lambda>q. q\<lparr>rtq_timer := None\<rparr>) s"
  have "rtq_wf (queue_of h ?s)" using disarm_wf [OF assms(1)] by (simp add: get_put)
  from give_up_ok [OF this] show ?thesis
    using assms(2,3) by (simp add: timer_callback_def handleTimeout_def waiting_def get_put hasOutstanding_def)
qed

end

lemma timeout_fields:
  assumes "waiting q"
  shows "waiting (armTimer (back_off (bump_oldest (count_timeout 1 (q\<lparr>rtq_timer := None\<rparr>)))))"
    and "timeoutRetransmissions (armTimer (back_off (bump_oldest (count_timeout 1 (q\<lparr>rtq_timer := None\<rparr>)))))
      = timeoutRetransmissions q + 1"
    and "currentRtoMs (armTimer (back_off (bump_oldest (count_timeout 1 (q\<lparr>rtq_timer := None\<rparr>)))))
      = min (currentRtoMs q * 2) (maxRtoMs q)"
    and "maxRtoMs (armTimer (back_off (bump_oldest (count_timeout 1 (q\<lparr>rtq_timer := None\<rparr>))))) = maxRtoMs q"
    and "maxRetransmissions (armTimer (back_off (bump_oldest (count_timeout 1 (q\<lparr>rtq_timer := None\<rparr>)))))
      = maxRetransmissions q"
    and "unacked (armTimer (back_off (bump_oldest (count_timeout 1 (q\<lparr>rtq_timer := None\<rparr>))))) = unacked q"
    and "map_option snd (rtq_timer (armTimer (back_off (bump_oldest (count_timeout 1 (q\<lparr>rtq_timer := None\<rparr>))))))
      = Some (min (currentRtoMs q * 2) (maxRtoMs q))"
  using assms
  by (cases "rtq_segments q"; simp add: waiting_def armTimer_def back_off_def bump_oldest_def
      count_timeout_def hasOutstanding_def unacked_def items_def Let_def)+

lemma min_double: "0 < (m :: int) \<Longrightarrow> 0 \<le> c \<Longrightarrow> min (min (c * 2 ^ k) m * 2) m = min (c * 2 ^ Suc k) m"
  by (auto simp: min_def)

context quiet_host
begin

lemma expire_run:
  assumes "good s" "rtq_wf (queue_of h s)" "waiting (queue_of h s)" "timeoutRetransmissions (queue_of h s) = 0"
  shows "int n \<le> maxRetransmissions (queue_of h s) \<Longrightarrow>
    good (expire h n s) \<and> rtq_wf (queue_of h (expire h n s)) \<and> waiting (queue_of h (expire h n s))
    \<and> timeoutRetransmissions (queue_of h (expire h n s)) = int n
    \<and> currentRtoMs (queue_of h (expire h n s)) = min (currentRtoMs (queue_of h s) * 2 ^ n) (maxRtoMs (queue_of h s))
    \<and> maxRtoMs (queue_of h (expire h n s)) = maxRtoMs (queue_of h s)
    \<and> maxRetransmissions (queue_of h (expire h n s)) = maxRetransmissions (queue_of h s)
    \<and> unacked (queue_of h (expire h n s)) = unacked (queue_of h s)
    \<and> (0 < n \<longrightarrow> map_option snd (rtq_timer (queue_of h (expire h n s))) =
         Some (min (currentRtoMs (queue_of h s) * 2 ^ n) (maxRtoMs (queue_of h s))))"
proof (induction n)
  case 0
  then show ?case using assms by (simp add: rtq_wf_def)
next
  case (Suc n)
  let ?t = "expire h n s"
  have ih: "good ?t" "rtq_wf (queue_of h ?t)" "waiting (queue_of h ?t)"
    "timeoutRetransmissions (queue_of h ?t) = int n"
    "currentRtoMs (queue_of h ?t) = min (currentRtoMs (queue_of h s) * 2 ^ n) (maxRtoMs (queue_of h s))"
    "maxRtoMs (queue_of h ?t) = maxRtoMs (queue_of h s)"
    "maxRetransmissions (queue_of h ?t) = maxRetransmissions (queue_of h s)"
    "unacked (queue_of h ?t) = unacked (queue_of h s)"
    using Suc by simp_all
  have lt: "timeoutRetransmissions (queue_of h ?t) < maxRetransmissions (queue_of h ?t)"
    using ih(4,7) Suc.prems by simp
  note one = one_timeout [OF ih(1,3) lt] and tf = timeout_fields [OF ih(3)]
  have m: "0 < maxRtoMs (queue_of h s)" "0 \<le> currentRtoMs (queue_of h s)"
    using assms(2) by (simp_all add: rtq_wf_def)
  have rto: "min (currentRtoMs (queue_of h ?t) * 2) (maxRtoMs (queue_of h ?t)) =
      min (currentRtoMs (queue_of h s) * 2 ^ Suc n) (maxRtoMs (queue_of h s))"
    unfolding ih(5,6) by (rule min_double [OF m])
  have wf: "rtq_wf (queue_of h (expire h (Suc n) s))"
    unfolding expire.simps Let_def one(1)
    using ih(2) lt by (intro armTimer_wf back_off_wf bump_oldest_wf count_up_wf disarm_wf) simp_all
  show ?case
    using wf one(2) tf ih(4,6,7,8) rto unfolding expire.simps Let_def one(1) by simp
qed

end

section \<open>The queue as a window on the sent stream\<close>

datatype queue_event = Send u32 bytes tcp_flags | Receive_Ack u32

text \<open>The queue, all items ever tracked and the sum of the data bytes reported as acknowledged.\<close>

fun queue_step :: "rtq \<times> seq_item list \<times> nat \<Rightarrow> queue_event \<Rightarrow> rtq \<times> seq_item list \<times> nat" where
  "queue_step (q, sent, n) (Send seq payload flags) =
     (case track seq payload flags q of
        (Inr True, q) \<Rightarrow>
          (q, sent @ items \<lparr>seg_seq = seq, seg_payload = payload, seg_flags = flags,
                       sequenceLength = sequence_length payload flags, retransmissions = 0\<rparr>, n)
      | (_, q) \<Rightarrow> (q, sent, n))"
| "queue_step (q, sent, n) (Receive_Ack a) =
     (case acknowledge a q of
        (Inr (status, k), q) \<Rightarrow> (q, sent, n + k)
      | (Inl e, q) \<Rightarrow> (q, sent, n))"

definition window_on :: "u32 \<Rightarrow> rtq \<times> seq_item list \<times> nat \<Rightarrow> bool" where
  "window_on isn st \<longleftrightarrow> (case st of (q, sent, n) \<Rightarrow>
     rtq_wf q \<and> rtq_live q \<and> \<not> rtq_closed q \<and> \<not> exhausted q \<and> sndNxt q = isn + word_of_nat (length sent)
     \<and> (\<exists>u \<le> length sent. unacked q = drop u sent \<and> sndUna q = isn + word_of_nat u
          \<and> n = data_bytes (take u sent)))"

lemma track_accepted:
  assumes "\<not> rtq_closed q" "\<not> exhausted q" "sequence_length p f \<noteq> 0" "s = sndNxt q"
  shows "fst (track s p f q) = Inr True"
    and "unacked (snd (track s p f q)) = unacked q @ items \<lparr>seg_seq = s, seg_payload = p, seg_flags = f,
      sequenceLength = sequence_length p f, retransmissions = 0\<rparr>"
    and "sndNxt (snd (track s p f q)) = sndNxt q + word_of_nat (sequence_length p f)"
    and "sndUna (snd (track s p f q)) = sndUna q" "\<not> rtq_closed (snd (track s p f q))"
      "\<not> exhausted (snd (track s p f q))"
  using assms by (simp_all add: track_def Let_def rtq_simps)

lemma track_refused:
  assumes "rtq_closed q \<or> exhausted q \<or> sequence_length p f = 0 \<or> s \<noteq> sndNxt q"
  shows "snd (track s p f q) = q" "fst (track s p f q) \<noteq> Inr True"
  using assms by (auto simp: track_def Let_def)

lemma queue_step_window:
  assumes "window_on isn st"
  shows "window_on isn (queue_step st e)"
proof -
  obtain q sent n where st: "st = (q, sent, n)" by (cases st)
  obtain u where wf: "rtq_wf q" "rtq_live q" and op: "\<not> rtq_closed q" "\<not> exhausted q"
    and nxt: "sndNxt q = isn + word_of_nat (length sent)"
    and u: "u \<le> length sent" "unacked q = drop u sent" "sndUna q = isn + word_of_nat u"
      "n = data_bytes (take u sent)"
    using assms by (auto simp: window_on_def st)
  show ?thesis
  proof (cases e)
    case (Send s p f)
    let ?seg = "\<lparr>seg_seq = s, seg_payload = p, seg_flags = f,
      sequenceLength = sequence_length p f, retransmissions = 0\<rparr>"
    note twf = track_wf [OF wf, of s p f]
    show ?thesis
    proof (cases "sequence_length p f = 0 \<or> s \<noteq> sndNxt q")
      case True
      then have r: "snd (track s p f q) = q" "fst (track s p f q) \<noteq> Inr True"
        using track_refused [of q p f s] by blast+
      then have "queue_step st e = st"
        by (cases "track s p f q") (auto simp: st Send split: sum.split bool.split)
      then show ?thesis using assms by simp
    next
      case False
      then have ok: "sequence_length p f \<noteq> 0" "s = sndNxt q" by simp_all
      note t = track_accepted [OF op ok]
      have "queue_step st e = (snd (track s p f q), sent @ items ?seg, n)"
        using t(1) by (cases "track s p f q") (simp add: st Send)
      moreover have "length (items ?seg) = sequence_length p f" by (simp add: length_items)
      ultimately show ?thesis
        using t twf nxt u by (auto simp: window_on_def add.assoc intro!: exI [of _ u])
    qed
  next
    case (Receive_Ack a)
    note k = acknowledge_spec [OF wf(1) op(1), of a]
    let ?d = "ack_advance a q"
    have d: "?d \<le> length (unacked q)"
      using outstanding_le [OF wf(1) op(1)]
      by (auto simp: ack_advance_def ack_class_def Let_def split: if_splits)
    have una: "sndUna (snd (acknowledge a q)) = isn + word_of_nat (u + ?d)"
      using k(3) u(3) by (simp add: ack_advance_def sequenceDistance_def ac_simps)
    have step: "queue_step st e = (snd (acknowledge a q), sent, n + data_bytes (take ?d (unacked q)))"
      using k(1) by (cases "acknowledge a q") (simp add: st Receive_Ack)
    have "n + data_bytes (take ?d (unacked q)) = data_bytes (take (u + ?d) sent)"
      using u(2,4) by (simp add: take_add)
    then show ?thesis
      unfolding step window_on_def using k wf op nxt una u(1,2) d
      by (auto intro!: exI [of _ "u + ?d"] simp: add.commute)
  qed
qed

interpretation ack_queue: machine "\<lambda>_ _. True" queue_step "window_on isn" for isn
  by unfold_locales (rule queue_step_window)

lemma wf_live_facts:
  assumes "rtq_wf q" "rtq_live q"
  shows "(\<not> rtq_closed q \<longrightarrow> contiguous (sndUna q) (rtq_segments q) (sndNxt q))
    \<and> payloadBytesInFlight q = int (data_bytes (unacked q))
    \<and> initialRtoMs q \<le> currentRtoMs q \<and> currentRtoMs q \<le> maxRtoMs q
    \<and> timeoutRetransmissions q \<le> maxRetransmissions q
    \<and> (rtq_timer q \<noteq> None) = (\<not> rtq_closed q \<and> \<not> exhausted q \<and> (hasOutstanding q \<or> persist q))"
proof -
  have "rtq_timer q \<noteq> None \<Longrightarrow> \<not> rtq_closed q \<and> \<not> exhausted q \<and> (hasOutstanding q \<or> persist q)"
    using assms(1) by (cases "rtq_timer q") (auto simp: rtq_wf_def split: if_splits)
  then have t: "(rtq_timer q \<noteq> None) = (\<not> rtq_closed q \<and> \<not> exhausted q \<and> (hasOutstanding q \<or> persist q))"
    using assms(2) unfolding rtq_live_def by blast
  show ?thesis unfolding t using assms(1) by (simp add: rtq_wf_def)
qed

section \<open>A logging owner\<close>

type_synonym rtq_log = "rtq \<times> (segment option \<times> retransmit_reason) list \<times> js_error list"

definition logging_host :: "rtq_log rtq_host" where
  "logging_host = \<lparr>queue_of = fst, on_queue = (\<lambda>f (q, l). (f q, l)),
     onRetransmit = (\<lambda>seg r (q, sent, errs). (None, (q, sent @ [(seg, r)], errs))),
     onExhausted = (\<lambda>e seg (q, sent, errs). (q, sent, errs @ [e])),
     onPersistProbe = (\<lambda>seg s. (Inr True, s))\<rparr>"

interpretation logging: quiet_host logging_host "\<lambda>_. True"
  by unfold_locales (auto simp: logging_host_def)

section \<open>Operations of a host\<close>

datatype host_event = Track_Ev u32 bytes tcp_flags | Ack_Ev u32 | Fast_Ev | Persist_Ev bool
  | Timer_Ev nat | Close_Ev

fun host_step :: "'s rtq_host \<Rightarrow> 's \<Rightarrow> host_event \<Rightarrow> 's" where
  "host_step h s (Track_Ev seq p f) = on_queue h (\<lambda>q. snd (track seq p f q)) s"
| "host_step h s (Ack_Ev a) = on_queue h (\<lambda>q. snd (acknowledge a q)) s"
| "host_step h s Fast_Ev = snd (fastRetransmit h s)"
| "host_step h s (Persist_Ev b) = snd (setPersist h b s)"
| "host_step h s (Timer_Ev g) = timer_callback h g s"
| "host_step h s Close_Ev = on_queue h close_rtq s"

definition host_inv :: "'s rtq_host \<Rightarrow> 's \<Rightarrow> bool" where
  "host_inv h s \<longleftrightarrow> rtq_wf (queue_of h s) \<and> rtq_live (queue_of h s)"

lemma acknowledge_closed_wf:
  assumes "rtq_wf q" "rtq_closed q"
  shows "rtq_wf (snd (acknowledge a q)) \<and> rtq_closed (snd (acknowledge a q))"
  using assms
  by (auto simp: acknowledge_def Let_def rtq_wf_def rtq_simps ack_loop.simps)

lemma acknowledge_inv:
  "rtq_wf q \<Longrightarrow> rtq_live q \<Longrightarrow> rtq_wf (snd (acknowledge a q)) \<and> rtq_live (snd (acknowledge a q))"
  using acknowledge_closed_wf [of q a] acknowledge_spec(4,5) [of q a] live_no_timer
  by (cases "rtq_closed q") auto

context queue_host
begin

lemma host_step_inv:
  assumes "host_inv h s"
  shows "host_inv h (host_step h s e)"
proof -
  have wf: "rtq_wf (queue_of h s)" "rtq_live (queue_of h s)" using assms by (simp_all add: host_inv_def)
  show ?thesis
    by (cases e)
      (simp_all add: host_inv_def get_put track_wf [OF wf] acknowledge_inv [OF wf] fastRetransmit_ok [OF wf]
        setPersist_ok [OF wf] timer_callback_ok [OF wf] close_wf [OF wf(1)] close_live)
qed

end

sublocale queue_host \<subseteq> ops: machine "\<lambda>_ _. True" "host_step h" "host_inv h"
  by unfold_locales (rule host_step_inv)

context queue_host
begin

lemma host_run_inv: "host_inv h s \<Longrightarrow> host_inv h (run (host_step h) s es)"
  by (rule ops.run_inv) simp_all

end

section \<open>Properties\<close>

text \<open>
  C4: the queue is a window on everything ever sent. Starting from a new queue, whatever segments
  are tracked (or refused) and whatever acknowledgement numbers arrive, the queue holds exactly
  the sent sequence space from \<open>SND.UNA\<close> on, and the data bytes it has reported as acknowledged
  are exactly those before \<open>SND.UNA\<close>: none is lost, counted twice or reordered.
\<close>

theorem queue_window_refinement:
  assumes "new_rtq (uint isn) g p a b m = Inr q"
  shows "case run queue_step (q, [], 0) es of (q', sent, reported) \<Rightarrow>
    \<exists>u \<le> length sent. unacked q' = drop u sent \<and> reported = data_bytes (take u sent)
      \<and> sndUna q' = isn + word_of_nat u \<and> sndNxt q' = isn + word_of_nat (length sent)
      \<and> payloadBytesInFlight q' = int (data_bytes (drop u sent))"
proof -
  have "window_on isn (q, [], 0)"
    using new_rtq_wf [OF assms] assms
    by (auto simp: window_on_def new_rtq_def rtq_simps split: if_splits)
  from ack_queue.run_inv [OF this] have "window_on isn (run queue_step (q, [], 0) es)" by simp
  then show ?thesis by (auto simp: window_on_def rtq_wf_def)
qed

definition example_rtq :: rtq where
  "example_rtq = \<lparr>sndUna = 100, sndNxt = 100, can_probe = True, persist = False, initialRtoMs = 1000,
     maxRtoMs = 60000, maxRetransmissions = 4, currentRtoMs = 1000, timeoutRetransmissions = 0,
     rtq_segments = [], payloadBytesInFlight = 0, rtq_timer = None, timerGeneration = 0,
     rtq_closed = False, exhausted = False\<rparr>"

lemma example_rtq_new: "new_rtq (uint (100 :: u32)) True True 1000 60000 4 = Inr example_rtq"
  by (simp add: new_rtq_def example_rtq_def)

theorem queue_window_refinement_witness:
  "case run queue_step (example_rtq, [], 0)
      [Send 100 [] (no_flags\<lparr>syn := True\<rparr>), Send 101 [1, 2, 3] no_flags, Receive_Ack 103] of
    (q', sent, reported) \<Rightarrow> \<exists>u \<le> length sent. unacked q' = drop u sent \<and> reported = data_bytes (take u sent)
      \<and> sndUna q' = 100 + word_of_nat u \<and> sndNxt q' = 100 + word_of_nat (length sent)
      \<and> payloadBytesInFlight q' = int (data_bytes (drop u sent))"
  by (rule queue_window_refinement [OF example_rtq_new])

text \<open>
  The outcome of every acknowledgement on an open queue. It is a duplicate, stale, future or
  advancing one by its distance from \<open>SND.UNA\<close>; only an advancing one changes the queue, by
  dropping exactly the acknowledged part; the reported data bytes exclude SYN and FIN; and the
  error for an ACK beyond the tracked segments cannot occur.
\<close>

theorem acknowledge_outcome:
  assumes "rtq_wf q" "\<not> rtq_closed q"
  shows "let advance = sequenceDistance a (sndUna q);
      status = (if advance = 0 then Duplicate else if advance \<ge> 0x80000000 then Stale
                else if advance > sequenceDistance (sndNxt q) (sndUna q) then Future else Advanced);
      taken = (if status = Advanced then advance else 0);
      q' = snd (acknowledge a q) in
    fst (acknowledge a q) = Inr (status, data_bytes (take taken (unacked q)))
    \<and> taken \<le> length (unacked q) \<and> unacked q' = drop taken (unacked q)
    \<and> sndUna q' = sndUna q + word_of_nat taken \<and> rtq_wf q' \<and> (rtq_live q \<longrightarrow> rtq_live q')"
proof -
  have "ack_advance a q \<le> length (unacked q)"
    using outstanding_le [OF assms] by (auto simp: ack_advance_def ack_class_def Let_def split: if_splits)
  moreover have "sndUna (snd (acknowledge a q)) = sndUna q + word_of_nat (ack_advance a q)"
    using acknowledge_spec(3) [OF assms, of a] by (simp add: ack_advance_def sequenceDistance_def)
  ultimately show ?thesis
    using acknowledge_spec(1,2,4,5) [OF assms, of a]
    unfolding Let_def ack_class_def [unfolded Let_def, symmetric] ack_advance_def [symmetric] by blast
qed

definition example_sent :: rtq where
  "example_sent = example_rtq\<lparr>sndNxt := 105, payloadBytesInFlight := 3,
     rtq_segments := [\<lparr>seg_seq = 100, seg_payload = [1, 2, 3],
       seg_flags = no_flags\<lparr>syn := True, fin := True\<rparr>, sequenceLength = 5, retransmissions = 0\<rparr>],
     rtq_timer := Some (1, 1000), timerGeneration := 1\<rparr>"

lemma example_sent_wf: "rtq_wf example_sent" "\<not> rtq_closed example_sent" "rtq_live example_sent"
  by (simp_all add: example_sent_def example_rtq_def rtq_wf_def rtq_live_def rtq_simps no_flags_def items_def
      seg_ok_def data_bytes_def)

theorem acknowledge_outcome_witness:
  "fst (acknowledge 103 example_sent) = Inr (Advanced, 2)
    \<and> unacked (snd (acknowledge 103 example_sent)) = [Byte_item 3, FIN_item]
    \<and> fst (acknowledge 106 example_sent) = Inr (Future, 0)"
proof -
  have d: "sequenceDistance 103 (sndUna example_sent) = 3" "sequenceDistance 106 (sndUna example_sent) = 6"
    "sequenceDistance (sndNxt example_sent) (sndUna example_sent) = 5"
    by (simp_all add: sequenceDistance_def example_sent_def example_rtq_def)
  have u: "unacked example_sent = [SYN_item, Byte_item 1, Byte_item 2, Byte_item 3, FIN_item]"
    by (simp add: example_sent_def example_rtq_def unacked_def items_def no_flags_def)
  show ?thesis
    using acknowledge_outcome [OF example_sent_wf(1,2), of 103]
      acknowledge_outcome [OF example_sent_wf(1,2), of 106]
    by (simp add: Let_def d u data_bytes_def)
qed

text \<open>
  C23: whatever the owner's callbacks do within their contract, and whatever is tracked,
  acknowledged, retransmitted, probed, fired late or closed, the queue stays sound: segments are
  contiguous from \<open>SND.UNA\<close> to \<open>SND.NXT\<close>, the byte counter is exact, the timeout lies between
  its bounds, the retries never exceed their limit, and the timer is armed exactly when an open
  queue waits for something.
\<close>

theorem queue_invariant:
  assumes "queue_host h" "host_inv h s"
  shows "let q = queue_of h (run (host_step h) s es) in
    (\<not> rtq_closed q \<longrightarrow> contiguous (sndUna q) (rtq_segments q) (sndNxt q))
    \<and> payloadBytesInFlight q = int (data_bytes (unacked q))
    \<and> initialRtoMs q \<le> currentRtoMs q \<and> currentRtoMs q \<le> maxRtoMs q
    \<and> timeoutRetransmissions q \<le> maxRetransmissions q
    \<and> (rtq_timer q \<noteq> None) = (\<not> rtq_closed q \<and> \<not> exhausted q \<and> (hasOutstanding q \<or> persist q))"
  unfolding Let_def
  using queue_host.host_run_inv [OF assms, of es] by (intro wf_live_facts) (simp_all add: host_inv_def)

theorem queue_invariant_witness:
  "let q = queue_of logging_host (run (host_step logging_host) (example_rtq, [], [])
      [Track_Ev 100 [7, 8] no_flags, Timer_Ev 1, Timer_Ev 1, Persist_Ev True, Timer_Ev 4, Fast_Ev]) in
    currentRtoMs q \<le> maxRtoMs q \<and> payloadBytesInFlight q = int (data_bytes (unacked q))"
proof -
  have "host_inv logging_host (example_rtq, [], [])"
    using new_rtq_wf [OF example_rtq_new] by (simp add: host_inv_def logging_host_def)
  from queue_invariant [OF logging.queue_host_axioms this] show ?thesis
    by (simp only: Let_def)
qed



end
