(* ===== verification/Udp_Flow_Manager.thy ===== *)
theory Udp_Flow_Manager
  imports Packet_Utils
begin

text \<open>
  Model of udp_flow_manager.js: one UDP socket per flow of a VM, a cache of the flow used last,
  idle cleanup and a bound on the number of flows.

  Flow objects are shared between the map, the cache and the socket handlers, so they live in an
  explicit store and are referred to by their number, which is also the number of their socket.
  What the environment decides (clock, whether creating or writing a socket throws, whether the
  response callback throws) is an argument; what the manager does to it is recorded in \<open>outputs\<close>.
\<close>

section \<open>State\<close>

record flow_info =
  fl_vmIP :: string
  fl_vmPort :: nat
  fl_remoteIP :: string
  fl_remotePort :: nat
  fl_isDNS :: bool

record flow = flow_info +
  flow_key :: string
  lastSeen :: rat

datatype udp_output =
    Datagram nat bytes nat string
  | Socket_Closed nat
  | Response bytes nat
  | Error_Reported js_error

record udp_manager =
  idleTimeoutMs :: rat
  maxFlows :: nat
  flows :: "(string, nat) jsmap"
  flow_store :: "(nat, flow) jsmap"
  next_flow :: nat
  lastFlow :: "nat option"
  droppedPackets :: nat
  sendErrors :: nat
  cleanup_running :: bool
  outputs :: "udp_output list"

definition new_udp_manager :: "js_number \<Rightarrow> js_number \<Rightarrow> bool \<Rightarrow> udp_manager result" where
  "new_udp_manager idle max_flows response_given =
     (if \<not> isInteger max_flows \<or> \<not> (case max_flows of Num n \<Rightarrow> n \<ge> 1 | _ \<Rightarrow> False)
      then Inl (TypeError ''maxFlows must be a positive integer'')
      else if \<not> (case idle of Num t \<Rightarrow> t > 0 | _ \<Rightarrow> False)
      then Inl (TypeError ''idleTimeoutMs must be positive'')
      else if \<not> response_given then Inl (TypeError ''onResponse must be a function'')
      else Inr \<lparr>idleTimeoutMs = (case idle of Num t \<Rightarrow> t | _ \<Rightarrow> 0),
             maxFlows = (case max_flows of Num n \<Rightarrow> nat \<lfloor>n\<rfloor> | _ \<Rightarrow> 0),
             flows = [], flow_store = [], next_flow = 0, lastFlow = None, droppedPackets = 0,
             sendErrors = 0, cleanup_running = True, outputs = []\<rparr>)"

definition flowKey :: "'a flow_info_scheme \<Rightarrow> string" where
  "flowKey f = fl_vmIP f @ ''|'' @ dec (fl_vmPort f) @ ''|'' @ fl_remoteIP f @ ''|'' @ dec (fl_remotePort f)"

definition same_endpoints :: "'a flow_info_scheme \<Rightarrow> 'b flow_info_scheme \<Rightarrow> bool" where
  "same_endpoints f g \<longleftrightarrow> fl_vmIP f = fl_vmIP g \<and> fl_vmPort f = fl_vmPort g
     \<and> fl_remotePort f = fl_remotePort g \<and> fl_remoteIP f = fl_remoteIP g"

definition emit_out :: "udp_output \<Rightarrow> udp_manager \<Rightarrow> udp_manager" where
  "emit_out out m = m\<lparr>outputs := outputs m @ [out]\<rparr>"

section \<open>Operations\<close>

definition removeFlow :: "string \<Rightarrow> udp_manager \<Rightarrow> udp_manager" where
  "removeFlow key m =
     (case map_get (flows m) key of
        None \<Rightarrow> m
      | Some fid \<Rightarrow>
          let m = m\<lparr>flows := map_delete key (flows m)\<rparr>;
              m = (if lastFlow m = Some fid then m\<lparr>lastFlow := None\<rparr> else m)
          in emit_out (Socket_Closed fid) m)"

definition handleFlowError :: "string \<Rightarrow> js_error \<Rightarrow> udp_manager \<Rightarrow> udp_manager" where
  "handleFlowError key e m =
     (case map_get (flows m) key of
        None \<Rightarrow> m
      | Some fid \<Rightarrow>
          let m = m\<lparr>sendErrors := sendErrors m + 1\<rparr>;
              m = emit_out (Error_Reported e) m
          in removeFlow key m)"

text \<open>The loop walks the entries in insertion order; removing the current one is safe in a Map.\<close>

definition idle :: "rat \<Rightarrow> udp_manager \<Rightarrow> nat \<Rightarrow> bool" where
  "idle now m fid =
     (case map_get (flow_store m) fid of
        Some f \<Rightarrow> now - lastSeen f \<ge> idleTimeoutMs m
      | None \<Rightarrow> False)"

fun cleanup_loop :: "rat \<Rightarrow> (string \<times> nat) list \<Rightarrow> udp_manager \<Rightarrow> udp_manager" where
  "cleanup_loop now [] m = m"
| "cleanup_loop now ((key, fid) # entries) m =
     cleanup_loop now entries (if idle now m fid then removeFlow key m else m)"

definition cleanup :: "rat \<Rightarrow> udp_manager \<Rightarrow> udp_manager" where
  "cleanup now m = cleanup_loop now (flows m) m"

text \<open>\<open>socket\<close> is the error createSocket throws, if it does.\<close>

definition createFlow ::
  "js_error option \<Rightarrow> rat \<Rightarrow> string \<Rightarrow> flow_info \<Rightarrow> udp_manager \<Rightarrow> nat result \<times> udp_manager" where
  "createFlow socket now key info m =
     (case socket of
        Some e \<Rightarrow> (Inl e, m)
      | None \<Rightarrow>
          let fid = next_flow m;
              f = flow_info.extend info (flow.fields key now)
          in (Inr fid, m\<lparr>next_flow := fid + 1, flow_store := map_set fid f (flow_store m),
                         flows := map_set key fid (flows m)\<rparr>))"

definition touch :: "rat \<Rightarrow> nat \<Rightarrow> udp_manager \<Rightarrow> udp_manager" where
  "touch now fid m =
     (case map_get (flow_store m) fid of
        Some f \<Rightarrow> m\<lparr>flow_store := map_set fid (f\<lparr>lastSeen := now\<rparr>) (flow_store m)\<rparr>
      | None \<Rightarrow> m)"

text \<open>The flow that \<open>send\<close> finds before it creates one: the cached one or the map's.\<close>

definition find_flow :: "flow_info \<Rightarrow> udp_manager \<Rightarrow> string \<times> nat option" where
  "find_flow info m =
     (case (case lastFlow m of None \<Rightarrow> None
            | Some fid \<Rightarrow> (case map_get (flow_store m) fid of
                 Some f \<Rightarrow> if same_endpoints f info then Some (flow_key f, fid) else None
               | None \<Rightarrow> None)) of
        None \<Rightarrow> (let key = flowKey info in (key, map_get (flows m) key))
      | Some (key, fid) \<Rightarrow> (key, Some fid))"

definition transmit ::
  "js_error option \<Rightarrow> rat \<Rightarrow> bytes \<Rightarrow> string \<Rightarrow> nat \<Rightarrow> udp_manager \<Rightarrow> bool \<times> udp_manager" where
  "transmit sending now payload key fid m =
     (let m = m\<lparr>lastFlow := Some fid\<rparr>;
          m = touch now fid m
      in case sending of
           Some e \<Rightarrow> (False, handleFlowError key e m)
         | None \<Rightarrow>
             (case map_get (flow_store m) fid of
                Some f \<Rightarrow> (True, emit_out (Datagram fid payload (fl_remotePort f) (fl_remoteIP f)) m)
              | None \<Rightarrow> (True, m)))"

text \<open>
  \<open>socket\<close> and \<open>sending\<close> are what createSocket and the socket's \<open>send\<close> throw, if they do. The
  three clock readings of one call are taken to agree.
\<close>

definition send ::
  "js_error option \<Rightarrow> js_error option \<Rightarrow> rat \<Rightarrow> bytes \<Rightarrow> flow_info \<Rightarrow> udp_manager \<Rightarrow> bool \<times> udp_manager" where
  "send socket sending now payload info m =
     (case find_flow info m of
        (key, Some fid) \<Rightarrow> transmit sending now payload key fid m
      | (key, None) \<Rightarrow>
          let m = cleanup now m
          in if length (flows m) \<ge> maxFlows m
             then (False, m\<lparr>droppedPackets := droppedPackets m + 1\<rparr>)
             else
               (case createFlow socket now key info m of
                  (Inl e, m) \<Rightarrow>
                    (False, emit_out (Error_Reported e) (m\<lparr>sendErrors := sendErrors m + 1\<rparr>))
                | (Inr fid, m) \<Rightarrow> transmit sending now payload key fid m))"

text \<open>
  The handlers createFlow installs on the socket of a flow. \<open>callback\<close> is what onResponse throws.
\<close>

definition socket_message ::
  "js_error option \<Rightarrow> rat \<Rightarrow> nat \<Rightarrow> bytes \<Rightarrow> string \<Rightarrow> nat \<Rightarrow> udp_manager \<Rightarrow> udp_manager" where
  "socket_message callback now fid payload address port m =
     (case map_get (flow_store m) fid of
        None \<Rightarrow> m
      | Some f \<Rightarrow>
          if address \<noteq> fl_remoteIP f \<or> port \<noteq> fl_remotePort f then m
          else
            let m = emit_out (Response payload fid) (touch now fid m)
            in (case callback of None \<Rightarrow> m | Some e \<Rightarrow> emit_out (Error_Reported e) m))"

definition socket_error :: "nat \<Rightarrow> js_error \<Rightarrow> udp_manager \<Rightarrow> udp_manager" where
  "socket_error fid e m =
     (case map_get (flow_store m) fid of
        None \<Rightarrow> m
      | Some f \<Rightarrow> handleFlowError (flow_key f) e m)"

fun remove_all :: "string list \<Rightarrow> udp_manager \<Rightarrow> udp_manager" where
  "remove_all [] m = m"
| "remove_all (key # keys) m = remove_all keys (removeFlow key m)"

definition close_manager :: "udp_manager \<Rightarrow> udp_manager" where
  "close_manager m = remove_all (map fst (flows m)) (m\<lparr>cleanup_running := False\<rparr>)"

section \<open>Invariant\<close>

definition closed_sockets :: "udp_manager \<Rightarrow> nat set" where
  "closed_sockets m = {fid. Socket_Closed fid \<in> set (outputs m)}"

text \<open>No socket is written to or closed after it has been closed.\<close>

fun sockets_sound :: "nat set \<Rightarrow> udp_output list \<Rightarrow> bool" where
  "sockets_sound C [] = True"
| "sockets_sound C (Datagram fid b p a # os) = (fid \<notin> C \<and> sockets_sound C os)"
| "sockets_sound C (Socket_Closed fid # os) = (fid \<notin> C \<and> sockets_sound (insert fid C) os)"
| "sockets_sound C (Response b fid # os) = sockets_sound C os"
| "sockets_sound C (Error_Reported e # os) = sockets_sound C os"

text \<open>Addresses in text form do not contain the separator of the keys.\<close>

definition clean :: "'a flow_info_scheme \<Rightarrow> bool" where
  "clean f \<longleftrightarrow> CHR ''|'' \<notin> set (fl_vmIP f) \<and> CHR ''|'' \<notin> set (fl_remoteIP f)"

definition udp_inv :: "udp_manager \<Rightarrow> bool" where
  "udp_inv m \<longleftrightarrow>
     distinct (map fst (flows m)) \<and> distinct (map snd (flows m)) \<and> length (flows m) \<le> maxFlows m
     \<and> (\<forall>(key, fid) \<in> set (flows m). fid \<notin> closed_sockets m \<and>
          (\<exists>f. map_get (flow_store m) fid = Some f \<and> flow_key f = key \<and> flowKey f = key))
     \<and> (\<forall>fid. lastFlow m = Some fid \<longrightarrow> fid \<in> snd ` set (flows m))
     \<and> (\<forall>fid f. map_get (flow_store m) fid = Some f \<longrightarrow>
          fid < next_flow m \<and> flowKey f = flow_key f \<and> clean f)
     \<and> snd ` set (flows m) \<union> closed_sockets m = {..<next_flow m}
     \<and> sockets_sound {} (outputs m) \<and> 0 < maxFlows m"

lemma sockets_sound_snoc:
  "sockets_sound C (os @ [x]) \<longleftrightarrow> sockets_sound C os \<and>
     (case x of Datagram fid b p a \<Rightarrow> fid \<notin> C \<and> Socket_Closed fid \<notin> set os
      | Socket_Closed fid \<Rightarrow> fid \<notin> C \<and> Socket_Closed fid \<notin> set os
      | _ \<Rightarrow> True)"
  by (induction C os rule: sockets_sound.induct) (auto split: udp_output.splits)

lemma flowKey_inj:
  assumes "clean f" "clean g" "flowKey f = flowKey g"
  shows "same_endpoints f g"
proof -
  have s: "split_on CHR ''|'' (flowKey h) =
      [fl_vmIP h, dec (fl_vmPort h), fl_remoteIP h, dec (fl_remotePort h)]"
    if "clean h" for h :: "'c flow_info_scheme"
    using that by (simp add: flowKey_def clean_def split_on_append sep_not_in_dec split_on_no_sep)
  have "[fl_vmIP f, dec (fl_vmPort f), fl_remoteIP f, dec (fl_remotePort f)] =
      [fl_vmIP g, dec (fl_vmPort g), fl_remoteIP g, dec (fl_remotePort g)]"
    using s [OF assms(1)] s [OF assms(2)] assms(3) by simp
  then show ?thesis by (auto simp: same_endpoints_def dec_inj)
qed

lemma emit_fields [simp]:
  "flows (emit_out x m) = flows m" "flow_store (emit_out x m) = flow_store m"
  "next_flow (emit_out x m) = next_flow m" "lastFlow (emit_out x m) = lastFlow m"
  "maxFlows (emit_out x m) = maxFlows m" "idleTimeoutMs (emit_out x m) = idleTimeoutMs m"
  "outputs (emit_out x m) = outputs m @ [x]"
  by (simp_all add: emit_out_def)

lemma closed_emit [simp]:
  "closed_sockets (emit_out x m) =
    (case x of Socket_Closed fid \<Rightarrow> insert fid (closed_sockets m) | _ \<Rightarrow> closed_sockets m)"
  by (cases x) (auto simp: closed_sockets_def)

lemma closed_updates [simp]:
  "closed_sockets (m\<lparr>flows := a\<rparr>) = closed_sockets m" "closed_sockets (m\<lparr>lastFlow := b\<rparr>) = closed_sockets m"
  "closed_sockets (m\<lparr>flow_store := c\<rparr>) = closed_sockets m"
  "closed_sockets (m\<lparr>sendErrors := d\<rparr>) = closed_sockets m"
  "closed_sockets (m\<lparr>droppedPackets := d\<rparr>) = closed_sockets m"
  "closed_sockets (m\<lparr>next_flow := d\<rparr>) = closed_sockets m"
  "closed_sockets (m\<lparr>cleanup_running := g\<rparr>) = closed_sockets m"
  by (simp_all add: closed_sockets_def)

lemma emit_inv [simp]:
  "udp_inv m \<Longrightarrow> udp_inv (emit_out (Error_Reported e) m)"
  "udp_inv m \<Longrightarrow> udp_inv (emit_out (Response b fid) m)"
  by (simp_all add: udp_inv_def sockets_sound_snoc)

lemma datagram_inv:
  assumes "udp_inv m" "fid \<in> snd ` set (flows m)"
  shows "udp_inv (emit_out (Datagram fid b p a) m)"
proof -
  have "Socket_Closed fid \<notin> set (outputs m)"
    using assms by (auto simp: udp_inv_def closed_sockets_def)
  then show ?thesis using assms(1) by (simp add: udp_inv_def sockets_sound_snoc)
qed

lemma counters_inv [simp]:
  "udp_inv (m\<lparr>sendErrors := n\<rparr>) = udp_inv m" "udp_inv (m\<lparr>droppedPackets := n\<rparr>) = udp_inv m"
  "udp_inv (m\<lparr>cleanup_running := b\<rparr>) = udp_inv m"
  by (simp_all add: udp_inv_def)

lemma removeFlow_inv:
  assumes inv: "udp_inv m"
  shows "udp_inv (removeFlow key m)"
proof (cases "map_get (flows m) key")
  case None
  then show ?thesis using inv by (simp add: removeFlow_def)
next
  case (Some fid)
  then have mem: "(key, fid) \<in> set (flows m)" by (rule map_of_SomeD)
  let ?fl = "filter (\<lambda>r. fst r \<noteq> key) (flows m)"
  have inj: "snd r \<noteq> fid" if "r \<in> set ?fl" for r
  proof
    assume "snd r = fid"
    then have "r = (key, fid)"
      using that mem inv by (auto simp: udp_inv_def distinct_map inj_on_def)
    then show False using that by simp
  qed
  have other: "r \<in> set ?fl" if "r \<in> set (flows m)" "snd r \<noteq> fid" for r
  proof -
    have "fst r \<noteq> key"
    proof
      assume "fst r = key"
      then have "r = (key, fid)"
        using that(1) mem inv by (auto simp: udp_inv_def distinct_map inj_on_def)
      then show False using that(2) by simp
    qed
    then show ?thesis using that(1) by simp
  qed
  have open_fid: "Socket_Closed fid \<notin> set (outputs m)"
    using mem inv by (auto simp: udp_inv_def closed_sockets_def)
  have "snd ` set (flows m) = insert fid (snd ` set ?fl)"
    using mem other by (force simp: image_iff)
  then have part: "snd ` set ?fl \<union> insert fid (closed_sockets m) = {..<next_flow m}"
    using inv by (auto simp: udp_inv_def)
  have "length (flows m) \<le> maxFlows m" using inv by (simp add: udp_inv_def)
  then have "length ?fl \<le> maxFlows m" by (rule le_trans [OF length_filter_le])
  moreover have "\<forall>g. (if lastFlow m = Some fid then None else lastFlow m) = Some g \<longrightarrow> g \<in> snd ` set ?fl"
  proof (intro allI impI)
    fix g assume "(if lastFlow m = Some fid then None else lastFlow m) = Some g"
    then have g: "lastFlow m = Some g \<and> g \<noteq> fid" by (auto split: if_splits)
    then have "g \<in> snd ` set (flows m)" using inv by (simp add: udp_inv_def)
    then obtain r where "r \<in> set (flows m)" "snd r = g" by auto
    with other g show "g \<in> snd ` set ?fl" by (metis imageI)
  qed
  moreover have "removeFlow key m = m\<lparr>flows := ?fl,
      lastFlow := (if lastFlow m = Some fid then None else lastFlow m),
      outputs := outputs m @ [Socket_Closed fid]\<rparr>" (is "_ = ?m'")
    using Some by (simp add: removeFlow_def Let_def map_delete_filter emit_out_def)
  moreover have cl: "closed_sockets ?m' = insert fid (closed_sockets m)"
    by (auto simp: closed_sockets_def)
  moreover have "\<forall>(k, g) \<in> set ?fl. g \<notin> insert fid (closed_sockets m) \<and>
      (\<exists>f. map_get (flow_store m) g = Some f \<and> flow_key f = k \<and> flowKey f = k)"
  proof (rule ballI)
    fix r assume r: "r \<in> set ?fl"
    have "snd r \<noteq> fid" by (rule inj [OF r])
    moreover have "r \<in> set (flows m)" using r by simp
    ultimately show "case r of (k, g) \<Rightarrow> g \<notin> insert fid (closed_sockets m) \<and>
        (\<exists>f. map_get (flow_store m) g = Some f \<and> flow_key f = k \<and> flowKey f = k)"
      using inv by (auto simp: udp_inv_def)
  qed
  moreover have "sockets_sound {} (outputs m @ [Socket_Closed fid])"
    using inv open_fid by (simp add: udp_inv_def sockets_sound_snoc)
  ultimately show ?thesis
    using inv part by (simp add: udp_inv_def distinct_map_filter)
qed

lemma handleFlowError_inv: "udp_inv m \<Longrightarrow> udp_inv (handleFlowError key e m)"
  by (auto simp: handleFlowError_def Let_def intro!: removeFlow_inv split: option.split)

lemma cleanup_loop_inv: "udp_inv m \<Longrightarrow> udp_inv (cleanup_loop now entries m)"
  by (induction now entries m rule: cleanup_loop.induct) (simp_all add: removeFlow_inv)

lemma cleanup_inv: "udp_inv m \<Longrightarrow> udp_inv (cleanup now m)"
  by (simp add: cleanup_def cleanup_loop_inv)

lemma flowKey_more [simp]: "flowKey (f\<lparr>lastSeen := t\<rparr>) = flowKey f"
  by (simp add: flowKey_def)

lemma touch_fields [simp]:
  "flows (touch now fid m) = flows m" "lastFlow (touch now fid m) = lastFlow m"
  "maxFlows (touch now fid m) = maxFlows m" "next_flow (touch now fid m) = next_flow m"
  "outputs (touch now fid m) = outputs m" "closed_sockets (touch now fid m) = closed_sockets m"
  by (simp_all add: touch_def closed_sockets_def split: option.split)

lemma touch_store:
  "map_get (flow_store (touch now fid m)) g =
     (if g = fid then map_option (\<lambda>f. f\<lparr>lastSeen := now\<rparr>) (map_get (flow_store m) fid)
      else map_get (flow_store m) g)"
  by (simp add: touch_def split: option.split)

lemma touch_inv:
  assumes "udp_inv m"
  shows "udp_inv (touch now fid m)"
proof -
  have keys: "map_get (flow_store (touch now fid m)) g = Some f' \<Longrightarrow>
      \<exists>f. map_get (flow_store m) g = Some f \<and> flow_key f' = flow_key f \<and> flowKey f' = flowKey f \<and> (clean f \<longrightarrow> clean f')" for g f'
    by (auto simp: touch_store clean_def split: if_splits)
  have fwd: "map_get (flow_store m) g = Some f \<Longrightarrow>
      \<exists>f'. map_get (flow_store (touch now fid m)) g = Some f' \<and> flow_key f' = flow_key f \<and> flowKey f' = flowKey f"
    for g f by (auto simp: touch_store)
  let ?m = "touch now fid m"
  have "\<forall>(k, g) \<in> set (flows m). g \<notin> closed_sockets m \<and>
      (\<exists>f. map_get (flow_store ?m) g = Some f \<and> flow_key f = k \<and> flowKey f = k)"
  proof (rule ballI)
    fix r assume "r \<in> set (flows m)"
    then obtain f where "snd r \<notin> closed_sockets m" "map_get (flow_store m) (snd r) = Some f"
        "flow_key f = fst r" "flowKey f = fst r"
      using assms by (fastforce simp: udp_inv_def)
    then show "case r of (k, g) \<Rightarrow> g \<notin> closed_sockets m \<and>
        (\<exists>f. map_get (flow_store ?m) g = Some f \<and> flow_key f = k \<and> flowKey f = k)"
      using fwd [of "snd r" f] by (cases r) auto
  qed
  moreover have "g < next_flow m \<and> flowKey f' = flow_key f' \<and> clean f'" if "map_get (flow_store ?m) g = Some f'" for g f'
    using keys [OF that] assms by (auto simp: udp_inv_def)
  ultimately show ?thesis using assms by (simp add: udp_inv_def)
qed

lemma set_last_inv:
  "udp_inv m \<Longrightarrow> fid \<in> snd ` set (flows m) \<Longrightarrow> udp_inv (m\<lparr>lastFlow := Some fid\<rparr>)"
  by (simp add: udp_inv_def)

lemma transmit_inv:
  assumes "udp_inv m" "fid \<in> snd ` set (flows m)"
  shows "udp_inv (snd (transmit sending now payload key fid m))"
  using touch_inv [OF set_last_inv [OF assms], of now fid] assms(2)
  by (auto simp: transmit_def Let_def intro!: handleFlowError_inv datagram_inv split: option.split)

lemma find_flow_live:
  assumes "udp_inv m" "find_flow info m = (key, Some fid)"
  shows "(key, fid) \<in> set (flows m)" "key = flowKey info"
proof -
  have "(key, fid) \<in> set (flows m) \<and> key = flowKey info"
  proof (cases "lastFlow m")
    case None
    then show ?thesis using assms(2) by (auto simp: find_flow_def Let_def dest: map_of_SomeD)
  next
    case (Some g)
    then obtain k where k: "(k, g) \<in> set (flows m)" using assms(1) by (auto simp: udp_inv_def)
    then obtain f where f: "map_get (flow_store m) g = Some f" "flow_key f = k" "flowKey f = k"
      using assms(1) by (fastforce simp: udp_inv_def)
    show ?thesis
    proof (cases "same_endpoints f info")
      case True
      then have "flowKey f = flowKey info" by (simp add: same_endpoints_def flowKey_def)
      then show ?thesis using assms(2) Some f k True by (simp add: find_flow_def)
    next
      case False
      then show ?thesis
        using assms(2) Some f by (auto simp: find_flow_def Let_def dest: map_of_SomeD)
    qed
  qed
  then show "(key, fid) \<in> set (flows m)" "key = flowKey info" by blast+
qed

lemma find_flow_missing:
  assumes "find_flow info m = (key, None)"
  shows "key = flowKey info" "map_get (flows m) key = None"
  using assms by (auto simp: find_flow_def Let_def split: option.splits if_splits)

lemma removeFlow_missing: "map_get (flows m) k = None \<Longrightarrow> map_get (flows (removeFlow key m)) k = None"
  by (auto simp: removeFlow_def Let_def split: option.splits)

lemma cleanup_missing: "map_get (flows m) k = None \<Longrightarrow> map_get (flows (cleanup now m)) k = None"
proof -
  have "map_get (flows m) k = None \<Longrightarrow> map_get (flows (cleanup_loop now entries m)) k = None" for entries
    by (induction now entries m rule: cleanup_loop.induct) (simp_all add: removeFlow_missing)
  then show "map_get (flows m) k = None \<Longrightarrow> map_get (flows (cleanup now m)) k = None"
    by (simp add: cleanup_def)
qed

lemma createFlow_inv:
  assumes inv: "udp_inv m" and room: "length (flows m) < maxFlows m"
    and fresh: "map_get (flows m) key = None" and key: "key = flowKey info" and cl: "clean info"
    and new: "createFlow socket now key info m = (Inr fid, m')"
  shows "udp_inv m'" "flows m' = flows m @ [(key, fid)]" "fid = next_flow m"
    "map_get (flow_store m') fid = Some (flow_info.extend info (flow.fields key now))"
proof -
  have nin: "key \<notin> fst ` set (flows m)" using fresh by (simp add: map_of_eq_None_iff)
  let ?f = "flow_info.extend info (flow.fields key now)"
  have m': "fid = next_flow m" "m' = m\<lparr>next_flow := fid + 1,
      flow_store := map_set fid ?f (flow_store m), flows := flows m @ [(key, fid)]\<rparr>"
    using new map_set_fresh [OF nin, of "next_flow m"] by (auto simp: createFlow_def Let_def split: option.splits)
  have f: "flowKey ?f = key" "flow_key ?f = key" "clean ?f"
    using cl by (simp_all add: key flowKey_def flow_info.defs flow.defs clean_def)
  have lt: "g < fid" if "(k, g) \<in> set (flows m)" for k g
    using that inv by (fastforce simp: udp_inv_def m'(1))
  have ncl: "fid \<notin> closed_sockets m" using inv by (auto simp: udp_inv_def m'(1))
  have old: "map_get (flow_store m) g = Some f \<Longrightarrow> g \<noteq> fid" for g f
    using inv by (auto simp: udp_inv_def m'(1))
  have "distinct (map snd (flows m'))" using inv by (auto simp: m'(2) udp_inv_def dest!: lt)
  moreover have "\<forall>(k, g) \<in> set (flows m'). g \<notin> closed_sockets m' \<and>
      (\<exists>h. map_get (flow_store m') g = Some h \<and> flow_key h = k \<and> flowKey h = k)"
    using inv ncl f lt by (fastforce simp: m'(2) udp_inv_def)
  moreover have "\<forall>g h. map_get (flow_store m') g = Some h \<longrightarrow> g < next_flow m' \<and> flowKey h = flow_key h \<and> clean h"
    using inv f by (auto simp: m'(2) udp_inv_def less_Suc_eq m'(1))
  moreover have "snd ` set (flows m') \<union> closed_sockets m' = {..<next_flow m'}"
    using inv by (auto simp: m'(2) udp_inv_def m'(1))
  ultimately show "udp_inv m'"
    using inv room nin by (auto simp: m'(2) udp_inv_def)
  show "flows m' = flows m @ [(key, fid)]" "fid = next_flow m"
    "map_get (flow_store m') fid = Some ?f" using m' by simp_all
qed

lemma send_inv:
  assumes inv: "udp_inv m" and cl: "clean info"
  shows "udp_inv (snd (send socket sending now payload info m))"
proof (cases "find_flow info m")
  case (Pair key res)
  show ?thesis
  proof (cases res)
    case (Some fid)
    then have "fid \<in> snd ` set (flows m)" using find_flow_live(1) [OF inv] Pair by force
    then show ?thesis using transmit_inv [OF inv] Pair Some by (simp add: send_def)
  next
    case None
    let ?m = "cleanup now m"
    have key: "key = flowKey info" "map_get (flows ?m) key = None"
      using find_flow_missing cleanup_missing Pair None by blast+
    have wf: "udp_inv ?m" by (rule cleanup_inv [OF inv])
    show ?thesis
    proof (cases "length (flows ?m) \<ge> maxFlows ?m")
      case True
      then show ?thesis using Pair None wf by (simp add: send_def Let_def)
    next
      case False
      obtain r m' where c: "createFlow socket now key info ?m = (r, m')" by fastforce
      show ?thesis
      proof (cases r)
        case (Inl e)
        then have "m' = ?m" using c by (auto simp: createFlow_def Let_def split: option.splits)
        then show ?thesis using Pair None False c Inl wf by (simp add: send_def Let_def)
      next
        case (Inr fid)
        note cr = createFlow_inv [OF wf _ key(2,1) cl c [unfolded Inr]]
        have "udp_inv m'" "fid \<in> snd ` set (flows m')" using cr(1,2) False by simp_all
        then show ?thesis using Pair None False c Inr transmit_inv by (simp add: send_def Let_def)
      qed
    qed
  qed
qed


section \<open>The manager as a machine\<close>

datatype udp_event =
    Send_Ev "js_error option" "js_error option" rat bytes flow_info
  | Message_Ev "js_error option" rat nat bytes string nat
  | Socket_Error_Ev nat js_error
  | Cleanup_Ev rat
  | Close_Manager_Ev

fun udp_step :: "udp_manager \<Rightarrow> udp_event \<Rightarrow> udp_manager" where
  "udp_step m (Send_Ev socket sending now payload info) = snd (send socket sending now payload info m)"
| "udp_step m (Message_Ev callback now fid payload address port) =
     socket_message callback now fid payload address port m"
| "udp_step m (Socket_Error_Ev fid e) = socket_error fid e m"
| "udp_step m (Cleanup_Ev now) = cleanup now m"
| "udp_step m Close_Manager_Ev = close_manager m"

text \<open>The addresses of a send come from a parsed packet, so they are clean.\<close>

fun udp_ok :: "udp_manager \<Rightarrow> udp_event \<Rightarrow> bool" where
  "udp_ok m (Send_Ev socket sending now payload info) = clean info"
| "udp_ok m _ = True"

lemma remove_all_inv: "udp_inv m \<Longrightarrow> udp_inv (remove_all keys m)"
  by (induction keys m rule: remove_all.induct) (simp_all add: removeFlow_inv)

lemma socket_message_inv: "udp_inv m \<Longrightarrow> udp_inv (socket_message cb now fid b a p m)"
  by (simp add: socket_message_def Let_def touch_inv split: option.split)

interpretation udp: machine udp_ok udp_step udp_inv
proof unfold_locales
  fix m e assume inv: "udp_inv m" and ok: "udp_ok m e"
  show "udp_inv (udp_step m e)"
  proof (cases e)
    case (Send_Ev socket sending now payload info)
    then show ?thesis using send_inv inv ok by simp
  next
    case (Socket_Error_Ev fid e)
    then show ?thesis using handleFlowError_inv [OF inv] inv by (simp add: socket_error_def split: option.split)
  qed (use inv in \<open>simp_all add: cleanup_inv socket_message_inv close_manager_def remove_all_inv\<close>)
qed

lemma new_udp_inv: "new_udp_manager i n r = Inr m \<Longrightarrow> udp_inv m"
proof -
  assume new: "new_udp_manager i n r = Inr m"
  then obtain x where x: "n = Num x" "1 \<le> x" by (cases n) (auto simp: new_udp_manager_def split: if_splits)
  then have "1 \<le> \<lfloor>x\<rfloor>" by (simp add: le_floor_iff)
  then have pos: "0 < nat \<lfloor>x\<rfloor>" by simp
  have "flows m = []" "outputs m = []" "flow_store m = []" "lastFlow m = None" "next_flow m = 0"
    "maxFlows m = nat \<lfloor>x\<rfloor>"
    using new x(1) by (auto simp: new_udp_manager_def split: if_splits)
  then show "udp_inv m" using pos by (simp add: udp_inv_def closed_sockets_def)
qed

section \<open>Cleanup and close\<close>

lemma removeFlow_fields:
  "flows (removeFlow key m) = filter (\<lambda>r. fst r \<noteq> key) (flows m)"
  "flow_store (removeFlow key m) = flow_store m" "idle now (removeFlow key m) = idle now m"
  "maxFlows (removeFlow key m) = maxFlows m" "next_flow (removeFlow key m) = next_flow m"
proof -
  have none: "filter (\<lambda>r. fst r \<noteq> key) (flows m) = flows m" if "map_get (flows m) key = None"
    using that by (auto simp: map_of_eq_None_iff filter_id_conv)
  show "flows (removeFlow key m) = filter (\<lambda>r. fst r \<noteq> key) (flows m)"
    using none by (auto simp: removeFlow_def Let_def map_delete_filter split: option.split)
  show "flow_store (removeFlow key m) = flow_store m" "idle now (removeFlow key m) = idle now m"
    "maxFlows (removeFlow key m) = maxFlows m" "next_flow (removeFlow key m) = next_flow m"
    by (auto simp: removeFlow_def Let_def idle_def fun_eq_iff split: option.splits)
qed

lemma cleanup_loop_flows:
  "distinct (map fst (flows m)) \<Longrightarrow> distinct (map fst es) \<Longrightarrow> set es \<subseteq> set (flows m) \<Longrightarrow>
   flows (cleanup_loop now es m) = filter (\<lambda>r. \<not> (r \<in> set es \<and> idle now m (snd r))) (flows m)"
proof (induction es arbitrary: m)
  case Nil
  then show ?case by simp
next
  case (Cons e es)
  obtain key fid where e: "e = (key, fid)" by (cases e)
  have same: "r = e" if "r \<in> set (flows m)" "fst r = key" for r
    using that Cons.prems(1,3) by (auto simp: e distinct_map inj_on_def)
  show ?case
  proof (cases "idle now m fid")
    case True
    let ?m = "removeFlow key m"
    have "set es \<subseteq> set (flows ?m)"
      using Cons.prems(2,3) by (auto simp: removeFlow_fields e image_iff)
    moreover have "distinct (map fst (flows ?m))" "distinct (map fst es)"
      using Cons.prems(1,2) by (simp_all add: removeFlow_fields distinct_map_filter)
    ultimately have "flows (cleanup_loop now es ?m) =
        filter (\<lambda>r. \<not> (r \<in> set es \<and> idle now m (snd r))) (filter (\<lambda>r. fst r \<noteq> key) (flows m))"
      using Cons.IH [of ?m] by (simp only: removeFlow_fields)
    also have "\<dots> = filter (\<lambda>r. \<not> (r \<in> set (e # es) \<and> idle now m (snd r))) (flows m)"
    proof -
      have "(fst r \<noteq> key \<and> \<not> (r \<in> set es \<and> idle now m (snd r))) =
          (\<not> (r \<in> set (e # es) \<and> idle now m (snd r)))" if "r \<in> set (flows m)" for r
      proof (cases "fst r = key")
        case k: True
        then have "r = e" using same that by blast
        then show ?thesis using True e by simp
      next
        case False
        then have "r \<noteq> e" using e by auto
        then show ?thesis using False by simp
      qed
      then show ?thesis unfolding filter_filter by (intro filter_cong) simp_all
    qed
    finally show ?thesis using True by (simp add: e)
  next
    case False
    then have "filter (\<lambda>r. \<not> (r \<in> set (e # es) \<and> idle now m (snd r))) (flows m) =
        filter (\<lambda>r. \<not> (r \<in> set es \<and> idle now m (snd r))) (flows m)"
      by (intro filter_cong) (auto simp: e)
    then show ?thesis using Cons False by (simp add: e)
  qed
qed

lemma cleanup_flows:
  "distinct (map fst (flows m)) \<Longrightarrow> flows (cleanup now m) = filter (\<lambda>r. \<not> idle now m (snd r)) (flows m)"
  by (simp add: cleanup_def cleanup_loop_flows cong: filter_cong)

lemma cleanup_loop_next [simp]:
  "next_flow (cleanup_loop now es m) = next_flow m" "flow_store (cleanup_loop now es m) = flow_store m"
  "maxFlows (cleanup_loop now es m) = maxFlows m"
  by (induction now es m rule: cleanup_loop.induct) (simp_all add: removeFlow_fields)

lemma remove_all_flows:
  "flows (remove_all keys m) = filter (\<lambda>r. fst r \<notin> set keys) (flows m)"
  by (induction keys m rule: remove_all.induct) (auto simp: removeFlow_fields intro: filter_cong)

lemma remove_all_next [simp]: "next_flow (remove_all keys m) = next_flow m"
  by (induction keys m rule: remove_all.induct) (simp_all add: removeFlow_fields)

section \<open>The cache is transparent\<close>

definition uncached :: "udp_manager \<Rightarrow> udp_manager" where
  "uncached m = m\<lparr>lastFlow := None\<rparr>"

lemma uncached_fields [simp]:
  "flows (uncached m) = flows m" "flow_store (uncached m) = flow_store m"
  "next_flow (uncached m) = next_flow m" "maxFlows (uncached m) = maxFlows m"
  "lastFlow (uncached m) = None" "idle now (uncached m) = idle now m"
  by (auto simp: uncached_def idle_def fun_eq_iff split: option.split)

lemma uncached_twice [simp]: "uncached (uncached m) = uncached m"
  by (simp add: uncached_def)

lemma uncached_removeFlow: "uncached (removeFlow key m) = uncached (removeFlow key (uncached m))"
  by (simp add: removeFlow_def Let_def emit_out_def uncached_def split: option.split)

lemma uncached_cleanup: "uncached (cleanup now m) = uncached (cleanup now (uncached m))"
proof -
  have step: "uncached m = uncached m' \<Longrightarrow> uncached (cleanup_loop now es m) = uncached (cleanup_loop now es m')"
    for es m'
  proof (induction es arbitrary: m m')
    case Nil
    then show ?case by (simp only: cleanup_loop.simps)
  next
    case (Cons e es)
    obtain k fid where e: "e = (k, fid)" by (cases e)
    have "idle now (uncached m) = idle now (uncached m')" by (simp only: Cons.prems)
    then have "idle now m fid = idle now m' fid" by simp
    moreover have "uncached (removeFlow k m) = uncached (removeFlow k m')"
      unfolding uncached_removeFlow [of k m] uncached_removeFlow [of k m'] Cons.prems ..
    ultimately show ?case
      using Cons.IH [OF Cons.prems] Cons.IH [of "removeFlow k m" "removeFlow k m'"]
      by (cases "idle now m fid") (simp_all only: e cleanup_loop.simps if_True if_False)
  qed
  have "uncached (cleanup_loop now (flows m) m) = uncached (cleanup_loop now (flows m) (uncached m))"
    by (rule step) (rule uncached_twice [symmetric])
  then show ?thesis by (simp add: cleanup_def)
qed

lemma find_flow_canonical:
  assumes inv: "udp_inv m"
  shows "find_flow info m = (flowKey info, map_get (flows m) (flowKey info))"
proof (cases "find_flow info m")
  case (Pair key res)
  show ?thesis
  proof (cases res)
    case None
    then show ?thesis using find_flow_missing [of info m key] Pair by simp
  next
    case (Some fid)
    then have "(key, fid) \<in> set (flows m)" "key = flowKey info"
      using find_flow_live [OF inv] Pair by simp_all
    then show ?thesis using Pair Some inv by (simp add: udp_inv_def)
  qed
qed


lemma uncached_updates:
  "uncached (m\<lparr>lastFlow := x\<rparr>) = uncached m"
  "uncached (emit_out y m) = emit_out y (uncached m)" "uncached (touch now fid m) = touch now fid (uncached m)"
  "uncached (m\<lparr>sendErrors := n\<rparr>) = (uncached m)\<lparr>sendErrors := n\<rparr>"
  "uncached (m\<lparr>droppedPackets := n\<rparr>) = (uncached m)\<lparr>droppedPackets := n\<rparr>"
  by (simp_all add: uncached_def emit_out_def touch_def split: option.split)

lemma uncached_error: "uncached m = uncached m' \<Longrightarrow>
    uncached (handleFlowError key e m) = uncached (handleFlowError key e m')"
proof -
  assume eq: "uncached m = uncached m'"
  have one: "uncached (handleFlowError key e m) = uncached (handleFlowError key e (uncached m))" for m
    by (simp add: handleFlowError_def Let_def removeFlow_def emit_out_def uncached_def split: option.split)
  show ?thesis unfolding one [of m] one [of m'] eq ..
qed

lemma uncached_transmit:
  assumes "uncached m = uncached m'"
  shows "fst (transmit sending now b key fid m) = fst (transmit sending now b key fid m')"
    and "uncached (snd (transmit sending now b key fid m)) = uncached (snd (transmit sending now b key fid m'))"
proof -
  have eq: "m\<lparr>lastFlow := Some fid\<rparr> = m'\<lparr>lastFlow := Some fid\<rparr>"
  proof -
    have "(uncached m)\<lparr>lastFlow := Some fid\<rparr> = (uncached m')\<lparr>lastFlow := Some fid\<rparr>" by (simp only: assms)
    then show ?thesis by (simp add: uncached_def)
  qed
  show "fst (transmit sending now b key fid m) = fst (transmit sending now b key fid m')"
    "uncached (snd (transmit sending now b key fid m)) = uncached (snd (transmit sending now b key fid m'))"
    by (simp_all only: transmit_def eq)
qed

lemma uncached_createFlow:
  "createFlow socket now k info (uncached m) =
    (fst (createFlow socket now k info m), uncached (snd (createFlow socket now k info m)))"
  by (simp add: createFlow_def Let_def uncached_def split: option.split)

lemma send_uncached:
  assumes inv: "udp_inv m"
  shows "fst (send socket sending now b info m) = fst (send socket sending now b info (uncached m))"
    and "uncached (snd (send socket sending now b info m)) =
      uncached (snd (send socket sending now b info (uncached m)))"
proof -
  let ?k = "flowKey info"
  have inv': "udp_inv (uncached m)" using inv by (simp add: udp_inv_def uncached_def closed_sockets_def)
  have f: "find_flow info m = (?k, map_get (flows m) ?k)"
    "find_flow info (uncached m) = (?k, map_get (flows m) ?k)"
    using find_flow_canonical [OF inv] find_flow_canonical [OF inv'] by simp_all
  have "fst (send socket sending now b info m) = fst (send socket sending now b info (uncached m)) \<and>
    uncached (snd (send socket sending now b info m)) = uncached (snd (send socket sending now b info (uncached m)))"
  proof (cases "map_get (flows m) ?k")
    case (Some fid)
    then show ?thesis using uncached_transmit [of m "uncached m"] f by (simp add: send_def)
  next
    case None
    let ?c = "cleanup now m" and ?d = "cleanup now (uncached m)"
    have eq: "uncached ?c = uncached ?d" by (rule uncached_cleanup)
    have fl: "flows ?c = flows ?d" "maxFlows ?c = maxFlows ?d" "next_flow ?c = next_flow ?d"
      "sendErrors ?c = sendErrors ?d" "droppedPackets ?c = droppedPackets ?d"
      using arg_cong [OF eq, of flows] arg_cong [OF eq, of maxFlows] arg_cong [OF eq, of next_flow]
        arg_cong [OF eq, of sendErrors] arg_cong [OF eq, of droppedPackets]
      by (simp_all add: uncached_def)
    have cr: "fst (createFlow socket now ?k info ?c) = fst (createFlow socket now ?k info ?d)
      \<and> uncached (snd (createFlow socket now ?k info ?c)) = uncached (snd (createFlow socket now ?k info ?d))"
      using uncached_createFlow [of socket now ?k info ?c] uncached_createFlow [of socket now ?k info ?d]
      unfolding eq by (metis fst_conv snd_conv)
    obtain r c' d' where c': "createFlow socket now ?k info ?c = (r, c')"
        "createFlow socket now ?k info ?d = (r, d')" and eq': "uncached c' = uncached d'"
      using cr by (metis prod.collapse)
    show ?thesis
    proof (cases "maxFlows ?c \<le> length (flows ?c)")
      case True
      then show ?thesis using f None eq fl by (simp add: send_def Let_def uncached_updates)
    next
      case False
      have err: "sendErrors c' = sendErrors d'"
        using arg_cong [OF eq', of sendErrors] by (simp add: uncached_def)
      show ?thesis
      proof (cases r)
        case (Inl e)
        then show ?thesis
          using f None False fl c' eq' err by (simp add: send_def Let_def uncached_updates)
      next
        case (Inr fid)
        then show ?thesis
          using f None False fl c' uncached_transmit [OF eq'] by (simp add: send_def Let_def)
      qed
    qed
  qed
  then show "fst (send socket sending now b info m) = fst (send socket sending now b info (uncached m))"
    "uncached (snd (send socket sending now b info m)) = uncached (snd (send socket sending now b info (uncached m)))"
    by simp_all
qed

lemma cleanup_loop_outputs:
  "distinct (map fst (flows m)) \<Longrightarrow> distinct (map fst es) \<Longrightarrow> set es \<subseteq> set (flows m) \<Longrightarrow>
   outputs (cleanup_loop now es m) =
     outputs m @ map (\<lambda>r. Socket_Closed (snd r)) (filter (\<lambda>r. idle now m (snd r)) es)"
proof (induction es arbitrary: m)
  case Nil
  then show ?case by simp
next
  case (Cons e es)
  obtain key fid where e: "e = (key, fid)" by (cases e)
  show ?case
  proof (cases "idle now m fid")
    case True
    let ?m = "removeFlow key m"
    have "map_get (flows m) key = Some fid"
      using Cons.prems(1,3) by (simp add: e)
    then have out: "outputs ?m = outputs m @ [Socket_Closed fid]"
      by (simp add: removeFlow_def Let_def)
    have "set es \<subseteq> set (flows ?m)"
      using Cons.prems(2,3) by (auto simp: removeFlow_fields e image_iff)
    moreover have "distinct (map fst (flows ?m))" "distinct (map fst es)"
      using Cons.prems(1,2) by (simp_all add: removeFlow_fields distinct_map_filter)
    ultimately have "outputs (cleanup_loop now es ?m) =
        outputs ?m @ map (\<lambda>r. Socket_Closed (snd r)) (filter (\<lambda>r. idle now m (snd r)) es)"
      using Cons.IH [of ?m] by (simp only: removeFlow_fields)
    then show ?thesis using True by (simp add: e out)
  next
    case False
    then show ?thesis using Cons by (simp add: e)
  qed
qed

section \<open>Sending\<close>

lemma transmit_ok:
  assumes "map_get (flow_store m) fid = Some f"
  shows "transmit None now b key fid m = (True, snd (transmit None now b key fid m))"
    and "outputs (snd (transmit None now b key fid m)) =
      outputs m @ [Datagram fid b (fl_remotePort f) (fl_remoteIP f)]"
    and "flows (snd (transmit None now b key fid m)) = flows m"
    and "map_get (flow_store (snd (transmit None now b key fid m))) fid = Some (f\<lparr>lastSeen := now\<rparr>)"
  using assms by (simp_all add: transmit_def Let_def touch_store)

lemma transmit_false: "fst (transmit (Some e) now b key fid m) = False"
  by (simp add: transmit_def Let_def)

lemma store_of_key:
  assumes "udp_inv m" "map_get (flows m) key = Some fid"
  obtains f where "map_get (flow_store m) fid = Some f" "flowKey f = key" "clean f"
proof -
  have "(key, fid) \<in> set (flows m)" using assms(2) by (rule map_of_SomeD)
  then show thesis using assms(1) that by (fastforce simp: udp_inv_def)
qed

text \<open>What one call does when neither creating nor writing a socket fails.\<close>

lemma send_cases:
  assumes inv: "udp_inv m" and cl: "clean info"
  shows "(\<exists>fid f closings m'. send None None now b info m = (True, m')
        \<and> outputs m' = outputs m @ closings @ [Datagram fid b (fl_remotePort info) (fl_remoteIP info)]
        \<and> (\<forall>x \<in> set closings. \<exists>g. x = Socket_Closed g)
        \<and> map_get (flows m') (flowKey info) = Some fid
        \<and> map_get (flow_store m') fid = Some f \<and> same_endpoints f info \<and> lastSeen f = now)
    \<or> map_get (flows m) (flowKey info) = None
      \<and> maxFlows m \<le> length (filter (\<lambda>r. \<not> idle now m (snd r)) (flows m))
      \<and> fst (send None None now b info m) = False
      \<and> droppedPackets (snd (send None None now b info m)) = droppedPackets (cleanup now m) + 1"
proof -
  let ?k = "flowKey info"
  note find = find_flow_canonical [OF inv, of info]
  have dist: "distinct (map fst (flows m))" using inv by (simp add: udp_inv_def)
  show ?thesis
  proof (cases "map_get (flows m) ?k")
    case (Some fid)
    then obtain f where f: "map_get (flow_store m) fid = Some f" "flowKey f = ?k" "clean f"
      using store_of_key [OF inv] by blast
    have same: "same_endpoints f info" by (rule flowKey_inj [OF f(3) cl f(2)])
    let ?m = "snd (transmit None now b ?k fid m)"
    have "send None None now b info m = transmit None now b ?k fid m" using find Some by (simp add: send_def)
    then have "send None None now b info m = (True, ?m)" using transmit_ok(1) [OF f(1)] by simp
    moreover have "outputs ?m = outputs m @ [] @ [Datagram fid b (fl_remotePort info) (fl_remoteIP info)]"
      using transmit_ok(2) [OF f(1)] same by (simp add: same_endpoints_def)
    moreover have "same_endpoints (f\<lparr>lastSeen := now\<rparr>) info" using same by (simp add: same_endpoints_def)
    moreover have "map_get (flows ?m) ?k = Some fid" using transmit_ok(3) [OF f(1)] Some by simp
    ultimately show ?thesis using transmit_ok(4) [OF f(1), of now b ?k]
      by (intro disjI1 exI [of _ fid] exI [of _ "f\<lparr>lastSeen := now\<rparr>"] exI [of _ "[]"]) auto
  next
    case None
    let ?c = "cleanup now m"
    have fl: "flows ?c = filter (\<lambda>r. \<not> idle now m (snd r)) (flows m)" by (rule cleanup_flows [OF dist])
    have mx: "maxFlows ?c = maxFlows m" by (simp add: cleanup_def)
    show ?thesis
    proof (cases "maxFlows m \<le> length (flows ?c)")
      case True
      then show ?thesis using find None mx fl by (simp add: send_def Let_def)
    next
      case False
      obtain fid m1 where c: "createFlow None now ?k info ?c = (Inr fid, m1)"
        by (simp add: createFlow_def Let_def)
      note cr = createFlow_inv [OF cleanup_inv [OF inv] _ cleanup_missing [OF None] refl cl c]
      let ?f = "flow_info.extend info (flow.fields ?k now)"
      have st: "map_get (flow_store m1) fid = Some ?f" using cr(4) False mx by simp
      have o1: "outputs m1 = outputs ?c" using c by (auto simp: createFlow_def Let_def)
      have same: "same_endpoints ?f info" "fl_remotePort ?f = fl_remotePort info" "fl_remoteIP ?f = fl_remoteIP info"
        by (simp_all add: same_endpoints_def flow_info.defs flow.defs)
      let ?m = "snd (transmit None now b ?k fid m1)"
      have "send None None now b info m = transmit None now b ?k fid m1"
        using find None False mx c by (simp add: send_def Let_def)
      then have "send None None now b info m = (True, ?m)" using transmit_ok(1) [OF st] by simp
      moreover have "outputs ?m = outputs m @ map (\<lambda>r. Socket_Closed (snd r))
          (filter (\<lambda>r. idle now m (snd r)) (flows m)) @ [Datagram fid b (fl_remotePort info) (fl_remoteIP info)]"
        using transmit_ok(2) [OF st, of now b ?k] o1 same(2,3) cleanup_loop_outputs [OF dist dist subset_refl]
        by (simp add: cleanup_def)
      moreover have "map_get (flows ?m) ?k = Some fid"
        using transmit_ok(3) [OF st, of now b ?k] cr(2) False mx cleanup_missing [OF None, of now]
        by (simp add: map_add_def)
      moreover have "same_endpoints (?f\<lparr>lastSeen := now\<rparr>) info" using same by (simp add: same_endpoints_def)
      moreover note transmit_ok(4) [OF st, of now b ?k]
      ultimately show ?thesis
        by (intro disjI1 exI [of _ fid] exI [of _ "?f\<lparr>lastSeen := now\<rparr>"]) auto
    qed
  qed
qed

section \<open>Properties\<close>

text \<open>
  C26: over the whole life of a manager the number of flows never exceeds its bound, every socket
  ever created belongs to exactly one live flow or has been closed, no socket is written to or
  closed again after its close, and the cached flow is a live one.
\<close>

theorem udp_sockets_accounted:
  assumes "new_udp_manager idle_ms max_flows given = Inr m" "admissible udp_ok udp_step m es"
  shows "let m' = run udp_step m es in
    length (flows m') \<le> maxFlows m' \<and> distinct (map snd (flows m'))
    \<and> snd ` set (flows m') \<union> closed_sockets m' = {..<next_flow m'}
    \<and> snd ` set (flows m') \<inter> closed_sockets m' = {}
    \<and> sockets_sound {} (outputs m')
    \<and> (\<forall>fid. lastFlow m' = Some fid \<longrightarrow> fid \<in> snd ` set (flows m'))"
proof -
  have "udp_inv (run udp_step m es)" by (rule udp.run_inv [OF new_udp_inv [OF assms(1)] assms(2)])
  then show ?thesis by (auto simp: udp_inv_def Let_def)
qed

definition example_udp :: udp_manager where
  "example_udp = \<lparr>idleTimeoutMs = 30000, maxFlows = 2, flows = [], flow_store = [], next_flow = 0,
     lastFlow = None, droppedPackets = 0, sendErrors = 0, cleanup_running = True, outputs = []\<rparr>"

definition example_info :: "nat \<Rightarrow> flow_info" where
  "example_info p = \<lparr>fl_vmIP = ''10.0.2.15'', fl_vmPort = p, fl_remoteIP = ''8.8.8.8'', fl_remotePort = 53,
     fl_isDNS = True\<rparr>"

lemma example_udp_new: "new_udp_manager (Num 30000) (Num 2) True = Inr example_udp"
  by (simp add: new_udp_manager_def isInteger_def example_udp_def)

lemma example_clean: "clean (example_info p)"
  by (simp add: clean_def example_info_def)

theorem udp_sockets_accounted_witness:
  "let m' = run udp_step example_udp [Send_Ev None None 0 [1] (example_info 1000),
      Message_Ev None 1 0 [2] ''8.8.8.8'' 53, Send_Ev None None 2 [1] (example_info 1001),
      Socket_Error_Ev 0 (GenericError ''EHOSTUNREACH''), Close_Manager_Ev] in
    length (flows m') \<le> maxFlows m' \<and> sockets_sound {} (outputs m')
    \<and> snd ` set (flows m') \<union> closed_sockets m' = {..<next_flow m'}"
  using udp_sockets_accounted [OF example_udp_new, of "[Send_Ev None None 0 [1] (example_info 1000),
      Message_Ev None 1 0 [2] ''8.8.8.8'' 53, Send_Ev None None 2 [1] (example_info 1001),
      Socket_Error_Ev 0 (GenericError ''EHOSTUNREACH''), Close_Manager_Ev]"]
  by (simp only: Let_def admissible.simps udp_ok.simps example_clean simp_thms)

text \<open>
  C27: a call whose socket operations succeed either sends the payload exactly once, to the
  requested endpoint, through the live socket of the flow with the same four endpoints (after
  closing idle ones at most), or finds as many non-idle flows as the limit allows and drops the
  packet, counting it.
\<close>

theorem udp_send_isolated:
  assumes "udp_inv m" "clean info"
  shows "(\<exists>fid f closings m'. send None None now payload info m = (True, m')
        \<and> outputs m' = outputs m @ closings @ [Datagram fid payload (fl_remotePort info) (fl_remoteIP info)]
        \<and> (\<forall>x \<in> set closings. \<exists>g. x = Socket_Closed g)
        \<and> map_get (flows m') (flowKey info) = Some fid
        \<and> map_get (flow_store m') fid = Some f \<and> same_endpoints f info \<and> lastSeen f = now)
    \<or> map_get (flows m) (flowKey info) = None
      \<and> maxFlows m \<le> length (filter (\<lambda>r. \<not> idle now m (snd r)) (flows m))
      \<and> fst (send None None now payload info m) = False
      \<and> droppedPackets (snd (send None None now payload info m)) = droppedPackets (cleanup now m) + 1"
  by (rule send_cases [OF assms])

theorem udp_send_isolated_witness:
  "fst (send None None 5 [1, 2] (example_info 1000) example_udp)"
proof -
  have "udp_inv example_udp" by (rule new_udp_inv [OF example_udp_new])
  from udp_send_isolated [OF this example_clean, of 5 "[1, 2]" 1000] show ?thesis
    by (auto simp: example_udp_def)
qed

text \<open>
  C28: the one-entry cache changes nothing but speed: with or without the cached flow, a call
  returns the same result and leaves the same flows, sockets, counters and outputs.
\<close>

theorem udp_cache_transparent:
  assumes "udp_inv m"
  shows "fst (send socket sending now payload info m) =
      fst (send socket sending now payload info (m\<lparr>lastFlow := None\<rparr>))
    \<and> (snd (send socket sending now payload info m))\<lparr>lastFlow := None\<rparr> =
      (snd (send socket sending now payload info (m\<lparr>lastFlow := None\<rparr>)))\<lparr>lastFlow := None\<rparr>"
  using send_uncached [OF assms, of socket sending now payload info] by (simp add: uncached_def)

theorem udp_cache_transparent_witness:
  "fst (send None None 6 [3] (example_info 1000) (snd (send None None 5 [1, 2] (example_info 1000) example_udp))) =
   fst (send None None 6 [3] (example_info 1000)
     ((snd (send None None 5 [1, 2] (example_info 1000) example_udp))\<lparr>lastFlow := None\<rparr>))"
  using udp_cache_transparent [OF send_inv [OF new_udp_inv [OF example_udp_new] example_clean]] by blast

text \<open>
  Cleanup removes exactly the flows idle for at least the timeout, closes exactly their
  sockets, oldest first, and keeps the others in order.
\<close>

theorem udp_cleanup_exact:
  assumes "udp_inv m"
  shows "flows (cleanup now m) = filter (\<lambda>r. \<not> idle now m (snd r)) (flows m)
    \<and> outputs (cleanup now m) =
      outputs m @ map (\<lambda>r. Socket_Closed (snd r)) (filter (\<lambda>r. idle now m (snd r)) (flows m))
    \<and> flow_store (cleanup now m) = flow_store m"
proof -
  have dist: "distinct (map fst (flows m))" using assms by (simp add: udp_inv_def)
  show ?thesis
    using cleanup_flows [OF dist] cleanup_loop_outputs [OF dist dist subset_refl]
    by (simp add: cleanup_def)
qed

theorem udp_cleanup_exact_witness:
  "outputs (cleanup 40000 (snd (send None None 5 [1, 2] (example_info 1000) example_udp)))
     = [Datagram 0 [1, 2] 53 ''8.8.8.8'', Socket_Closed 0]"
  using udp_cleanup_exact [OF send_inv [OF new_udp_inv [OF example_udp_new] example_clean],
      of 40000 None None 5 "[1, 2]" 1000]
  by (simp add: send_def find_flow_def example_udp_def cleanup_def createFlow_def transmit_def Let_def touch_def
      idle_def example_info_def flow_info.defs flow.defs emit_out_def)

end
