(* ===== verification/Relay_Config.thy ===== *)
theory Relay_Config
  imports Tcp_Pacer
begin

text \<open>
  The configuration section of relay.js: the settings read from the environment when the program
  starts, with the JavaScript number parsing they go through, their defaults and the checks that
  stop the program. The record \<open>config\<close> holds what the rest of the relay reads.
\<close>

section \<open>Parsing numbers\<close>

text \<open>
  \<open>parseInt(s, 10)\<close> reads the longest decimal prefix after white space and a sign, and \<open>Number(s)\<close>
  reads the whole trimmed string as a numeric literal. Results are exact rationals: the rounding
  of literals with more than 15 significant digits to a double is not modelled.
\<close>

definition is_space :: "char \<Rightarrow> bool" where
  "is_space c \<longleftrightarrow> (of_char c :: nat) \<in> {9, 10, 11, 12, 13, 32, 160}"

definition split_sign :: "string \<Rightarrow> bool \<times> string" where
  "split_sign s =
     (case s of
        [] \<Rightarrow> (False, [])
      | c # r \<Rightarrow> if c = CHR ''-'' then (True, r) else if c = CHR ''+'' then (False, r) else (False, s))"

definition parse_int :: "string \<Rightarrow> int option" where
  "parse_int s =
     (let (neg, r) = split_sign (dropWhile is_space s);
          digits = takeWhile is_digit r
      in if digits = [] then None
         else Some (if neg then - int (dec_value digits) else int (dec_value digits)))"

definition scale10 :: "rat \<Rightarrow> bool \<Rightarrow> nat \<Rightarrow> rat" where
  "scale10 m neg e = (if neg then m / 10 ^ e else m * 10 ^ e)"

definition decimal_literal :: "string \<Rightarrow> rat option" where
  "decimal_literal s =
     (let whole = takeWhile is_digit s;
          r = dropWhile is_digit s;
          (frac, r) = (case r of
              [] \<Rightarrow> ([], [])
            | c # t \<Rightarrow> if c = CHR ''.'' then (takeWhile is_digit t, dropWhile is_digit t) else ([], r));
          m = of_nat (dec_value (whole @ frac)) / 10 ^ length frac
      in if whole = [] \<and> frac = [] then None
         else (case r of
             [] \<Rightarrow> Some m
           | c # t \<Rightarrow>
               let (neg, e) = split_sign t
               in if (c = CHR ''e'' \<or> c = CHR ''E'') \<and> e \<noteq> [] \<and> list_all is_digit e
                  then Some (scale10 m neg (dec_value e)) else None))"

definition hex_value :: "char \<Rightarrow> nat" where
  "hex_value c =
     (let n = of_char c
      in if is_digit c then n - 48 else if 97 \<le> n \<and> n \<le> 102 then n - 87
         else if 65 \<le> n \<and> n \<le> 70 then n - 55 else 99)"

definition radix_literal :: "nat \<Rightarrow> string \<Rightarrow> rat option" where
  "radix_literal radix s =
     (if s = [] \<or> list_ex (\<lambda>c. hex_value c \<ge> radix) s then None
      else Some (of_nat (foldl (\<lambda>n c. radix * n + hex_value c) 0 s)))"

definition to_double :: "rat \<Rightarrow> js_number" where
  "to_double q =
     (if q \<ge> 2 ^ 1024 - 2 ^ 970 then Infinity else if q \<le> - (2 ^ 1024 - 2 ^ 970) then NegInfinity
      else Num q)"

definition js_Number :: "string \<Rightarrow> js_number" where
  "js_Number s =
     (let s = rev (dropWhile is_space (rev (dropWhile is_space s)));
          (neg, r) = split_sign s;
          prefix = take 2 s;
          literal = (\<lambda>v. case v of None \<Rightarrow> NaN | Some q \<Rightarrow> to_double q)
      in if s = [] then Num 0
         else if prefix = ''0x'' \<or> prefix = ''0X'' then literal (radix_literal 16 (drop 2 s))
         else if prefix = ''0o'' \<or> prefix = ''0O'' then literal (radix_literal 8 (drop 2 s))
         else if prefix = ''0b'' \<or> prefix = ''0B'' then literal (radix_literal 2 (drop 2 s))
         else if r = ''Infinity'' then (if neg then NegInfinity else Infinity)
         else literal (map_option (\<lambda>q. if neg then - q else q) (decimal_literal r)))"

definition lower_char :: "char \<Rightarrow> char" where
  "lower_char c = (let n = (of_char c :: nat) in if 65 \<le> n \<and> n \<le> 90 then char_of (n + 32) else c)"

section \<open>The settings\<close>

record config =
  RATE_LIMIT_KBPS :: int
  MAX_CONNECTIONS_PER_IP :: int
  ENABLE_VM_TO_VM :: bool
  log_level :: int
  GATEWAY_IP :: string
  DHCP_START :: int
  DHCP_END :: int
  DNS_SERVER_IP :: string
  VM_MTU :: int
  TCP_WINDOW_SIZE :: int
  TCP_PACING_MODE :: string
  TCP_SEND_BURST_SEGMENTS :: int
  TCP_SEND_BURST_MAX_SEGMENTS :: int
  TCP_SEND_BURST_INTERVAL_MS :: int
  TCP_INITIAL_CWND_BYTES :: int
  TCP_SEND_QUEUE_HIGH_WATER_BYTES :: int
  TCP_ACK_EVERY_SEGMENTS :: int
  TCP_ACK_DELAY_MS :: int
  REVERSE_TCP_IDLE_TIMEOUT_MS :: int
  UDP_FLOW_IDLE_TIMEOUT_MS :: int
  MAX_UDP_FLOWS_PER_SESSION :: int
  TCP_RTO_INITIAL_MS :: int
  TCP_RTO_MAX_MS :: int
  TCP_RTO_MAX_RETRANSMISSIONS :: int

definition TCP_MSS :: "config \<Rightarrow> int" where
  "TCP_MSS cfg = VM_MTU cfg - 40"

definition TCP_FALLBACK_MSS :: int where
  "TCP_FALLBACK_MSS = 536"

definition TCP_SEND_QUEUE_LOW_WATER_BYTES :: "config \<Rightarrow> int" where
  "TCP_SEND_QUEUE_LOW_WATER_BYTES cfg = TCP_SEND_QUEUE_HIGH_WATER_BYTES cfg div 2"

definition RATE_LIMIT_BPS :: "config \<Rightarrow> int" where
  "RATE_LIMIT_BPS cfg = RATE_LIMIT_KBPS cfg * 1024"

text \<open>An unset or empty variable takes the default.\<close>

type_synonym environment = "string \<Rightarrow> string option"

definition given :: "environment \<Rightarrow> string \<Rightarrow> string option" where
  "given env name = (case env name of Some v \<Rightarrow> if v = [] then None else Some v | None \<Rightarrow> None)"

definition int_setting :: "environment \<Rightarrow> string \<Rightarrow> int \<Rightarrow> int option" where
  "int_setting env name fallback =
     (case given env name of None \<Rightarrow> Some fallback | Some v \<Rightarrow> parse_int v)"

definition number_setting :: "environment \<Rightarrow> string \<Rightarrow> int \<Rightarrow> int option" where
  "number_setting env name fallback =
     (case given env name of None \<Rightarrow> Some fallback | Some v \<Rightarrow> int_of (js_Number v))"

definition flag_setting :: "environment \<Rightarrow> string \<Rightarrow> bool \<Rightarrow> bool" where
  "flag_setting env name fallback = (case env name of None \<Rightarrow> fallback | Some v \<Rightarrow> v = ''true'')"

definition text_setting :: "environment \<Rightarrow> string \<Rightarrow> string \<Rightarrow> string" where
  "text_setting env name fallback = (case given env name of None \<Rightarrow> fallback | Some v \<Rightarrow> v)"

text \<open>
  \<open>Refused\<close>: the program stops with this error. \<open>Not_Numeric\<close>: a setting that is not checked
  parses to NaN and the program runs on with it; such configurations are not modelled further.
\<close>

datatype load_failure = Refused js_error | Not_Numeric

definition vm_mtu :: "environment \<Rightarrow> (load_failure + int)" where
  "vm_mtu env =
     (case int_setting env ''VM_MTU'' 1500 of
        Some m \<Rightarrow> if m < 576 \<or> m > 65535
                  then Inl (Refused (RangeError ''VM_MTU must be an integer from 576 through 65535''))
                  else Inr m
      | None \<Rightarrow> Inl (Refused (RangeError ''VM_MTU must be an integer from 576 through 65535'')))"

definition pacing_mode_setting :: "environment \<Rightarrow> (load_failure + string)" where
  "pacing_mode_setting env =
     (let m = map lower_char (text_setting env ''TCP_PACING_MODE'' ''adaptive'')
      in if valid_mode m = None
         then Inl (Refused (RangeError ''TCP_PACING_MODE must be adaptive, fixed, or off'')) else Inr m)"

definition at_least :: "int \<Rightarrow> string \<Rightarrow> int option \<Rightarrow> (load_failure + int)" where
  "at_least bound message v =
     (case v of
        Some n \<Rightarrow> if n < bound then Inl (Refused (RangeError message)) else Inr n
      | None \<Rightarrow> Inl (Refused (RangeError message)))"

definition burst_segments_setting :: "environment \<Rightarrow> (load_failure + int)" where
  "burst_segments_setting env =
     at_least 1 ''TCP_SEND_BURST_SEGMENTS must be a positive integer''
       (number_setting env ''TCP_SEND_BURST_SEGMENTS'' 3)"

definition burst_max_setting :: "environment \<Rightarrow> int \<Rightarrow> (load_failure + int)" where
  "burst_max_setting env burst =
     at_least burst ''TCP_SEND_BURST_MAX_SEGMENTS must be at least TCP_SEND_BURST_SEGMENTS''
       (number_setting env ''TCP_SEND_BURST_MAX_SEGMENTS'' (max 8 burst))"

definition burst_interval_setting :: "environment \<Rightarrow> (load_failure + int)" where
  "burst_interval_setting env =
     at_least 0 ''TCP_SEND_BURST_INTERVAL_MS must be a non-negative integer''
       (number_setting env ''TCP_SEND_BURST_INTERVAL_MS'' 6)"

definition initial_cwnd_setting :: "environment \<Rightarrow> int option" where
  "initial_cwnd_setting env =
     (case given env ''TCP_INITIAL_CWND_BYTES'' of
        None \<Rightarrow> Some 10240 | Some v \<Rightarrow> map_option (max 1460) (parse_int v))"

definition high_water_setting :: "environment \<Rightarrow> int option" where
  "high_water_setting env =
     (case given env ''TCP_SEND_QUEUE_HIGH_WATER_BYTES'' of
        None \<Rightarrow> Some (1024 * 1024) | Some v \<Rightarrow> map_option (max 1460) (parse_int v))"

definition ack_every_setting :: "environment \<Rightarrow> (load_failure + int)" where
  "ack_every_setting env =
     at_least 1 ''TCP_ACK_EVERY_SEGMENTS must be a positive integer''
       (number_setting env ''TCP_ACK_EVERY_SEGMENTS'' 2)"

definition ack_delay_setting :: "environment \<Rightarrow> (load_failure + int)" where
  "ack_delay_setting env =
     at_least 0 ''TCP_ACK_DELAY_MS must be a non-negative integer''
       (number_setting env ''TCP_ACK_DELAY_MS'' 10)"

text \<open>The settings that are parsed and used unchecked.\<close>

record raw_settings =
  u_rate :: int
  u_connections :: int
  u_level :: int
  u_start :: int
  u_end :: int
  u_window :: int
  u_cwnd :: int
  u_high :: int
  u_reverse_idle :: int
  u_udp_idle :: int
  u_udp_flows :: int
  u_rto :: int
  u_rto_max :: int
  u_rto_count :: int

definition raw_config :: "environment \<Rightarrow> raw_settings option" where
  "raw_config env =
     (case (int_setting env ''RATE_LIMIT_KBPS'' 1024, int_setting env ''MAX_CONNECTIONS_PER_IP'' 4,
            int_setting env ''LOG_LEVEL'' 1, int_setting env ''DHCP_START'' 15,
            int_setting env ''DHCP_END'' 254, int_setting env ''TCP_WINDOW_SIZE'' (1024 * 10),
            initial_cwnd_setting env, high_water_setting env) of
        (Some rate, Some connections, Some level, Some start, Some stop, Some window, Some cwnd, Some high) \<Rightarrow>
          (case (int_setting env ''REVERSE_TCP_IDLE_TIMEOUT_MS'' 45000,
                 int_setting env ''UDP_FLOW_IDLE_TIMEOUT_MS'' 30000,
                 int_setting env ''MAX_UDP_FLOWS_PER_SESSION'' 256,
                 int_setting env ''TCP_RTO_INITIAL_MS'' 1000, int_setting env ''TCP_RTO_MAX_MS'' 60000,
                 int_setting env ''TCP_RTO_MAX_RETRANSMISSIONS'' 4) of
             (Some reverse_idle, Some udp_idle, Some udp_flows, Some rto, Some rto_max, Some rto_count) \<Rightarrow>
               Some \<lparr>u_rate = rate, u_connections = connections, u_level = level, u_start = start,
                  u_end = stop, u_window = window, u_cwnd = cwnd, u_high = high,
                  u_reverse_idle = reverse_idle, u_udp_idle = udp_idle, u_udp_flows = udp_flows,
                  u_rto = rto, u_rto_max = rto_max, u_rto_count = rto_count\<rparr>
           | _ \<Rightarrow> None)
      | _ \<Rightarrow> None)"

definition bind_load :: "(load_failure + 'a) \<Rightarrow> ('a \<Rightarrow> (load_failure + 'b)) \<Rightarrow> (load_failure + 'b)" where
  "bind_load r f = (case r of Inl e \<Rightarrow> Inl e | Inr a \<Rightarrow> f a)"

definition load_config :: "environment \<Rightarrow> (load_failure + config)" where
  "load_config env =
     bind_load (vm_mtu env) (\<lambda>mtu.
     bind_load (pacing_mode_setting env) (\<lambda>pacing.
     bind_load (burst_segments_setting env) (\<lambda>burst.
     bind_load (burst_max_setting env burst) (\<lambda>burst_max.
     bind_load (burst_interval_setting env) (\<lambda>interval.
     bind_load (ack_every_setting env) (\<lambda>ack_every.
     bind_load (ack_delay_setting env) (\<lambda>ack_delay.
       (case raw_config env of
          None \<Rightarrow> Inl Not_Numeric
        | Some u \<Rightarrow>
            Inr \<lparr>RATE_LIMIT_KBPS = u_rate u, MAX_CONNECTIONS_PER_IP = u_connections u,
              ENABLE_VM_TO_VM = flag_setting env ''ENABLE_VM_TO_VM'' True, log_level = u_level u,
              GATEWAY_IP = text_setting env ''GATEWAY_IP'' ''10.0.2.2'',
              DHCP_START = u_start u, DHCP_END = u_end u,
              DNS_SERVER_IP = text_setting env ''DNS_SERVER_IP'' ''8.8.8.8'', VM_MTU = mtu,
              TCP_WINDOW_SIZE = u_window u, TCP_PACING_MODE = pacing,
              TCP_SEND_BURST_SEGMENTS = burst, TCP_SEND_BURST_MAX_SEGMENTS = burst_max,
              TCP_SEND_BURST_INTERVAL_MS = interval, TCP_INITIAL_CWND_BYTES = u_cwnd u,
              TCP_SEND_QUEUE_HIGH_WATER_BYTES = u_high u, TCP_ACK_EVERY_SEGMENTS = ack_every,
              TCP_ACK_DELAY_MS = ack_delay, REVERSE_TCP_IDLE_TIMEOUT_MS = u_reverse_idle u,
              UDP_FLOW_IDLE_TIMEOUT_MS = u_udp_idle u, MAX_UDP_FLOWS_PER_SESSION = u_udp_flows u,
              TCP_RTO_INITIAL_MS = u_rto u, TCP_RTO_MAX_MS = u_rto_max u,
              TCP_RTO_MAX_RETRANSMISSIONS = u_rto_count u\<rparr>))))))))"

definition new_tcp_pacer :: "config \<Rightarrow> pacer result" where
  "new_tcp_pacer cfg =
     new_pacer (TCP_PACING_MODE cfg) (Num (of_int (TCP_SEND_BURST_SEGMENTS cfg)))
       (Num (of_int (TCP_SEND_BURST_MAX_SEGMENTS cfg))) (Num (of_int (TCP_SEND_BURST_INTERVAL_MS cfg)))"

section \<open>Loaded configurations\<close>

text \<open>What every configuration the program starts with satisfies.\<close>

definition config_ok :: "config \<Rightarrow> bool" where
  "config_ok cfg \<longleftrightarrow>
     576 \<le> VM_MTU cfg \<and> VM_MTU cfg \<le> 65535 \<and> valid_mode (TCP_PACING_MODE cfg) \<noteq> None
     \<and> 1 \<le> TCP_SEND_BURST_SEGMENTS cfg
     \<and> TCP_SEND_BURST_SEGMENTS cfg \<le> TCP_SEND_BURST_MAX_SEGMENTS cfg
     \<and> 0 \<le> TCP_SEND_BURST_INTERVAL_MS cfg \<and> 1460 \<le> TCP_INITIAL_CWND_BYTES cfg
     \<and> 1460 \<le> TCP_SEND_QUEUE_HIGH_WATER_BYTES cfg \<and> 1 \<le> TCP_ACK_EVERY_SEGMENTS cfg
     \<and> 0 \<le> TCP_ACK_DELAY_MS cfg"

lemma bind_load_Inr: "bind_load r f = Inr b \<longleftrightarrow> (\<exists>a. r = Inr a \<and> f a = Inr b)"
  by (cases r) (simp_all add: bind_load_def)

lemma at_least_Inr: "at_least b s v = Inr n \<longleftrightarrow> v = Some n \<and> b \<le> n"
  by (auto simp: at_least_def split: option.split)

lemma vm_mtu_Inr: "vm_mtu env = Inr m \<Longrightarrow> 576 \<le> m \<and> m \<le> 65535"
  by (auto simp: vm_mtu_def split: option.splits if_splits)

lemma raw_config_bounds:
  "raw_config env = Some u \<Longrightarrow> 1460 \<le> u_cwnd u \<and> 1460 \<le> u_high u"
  by (auto simp: raw_config_def initial_cwnd_setting_def high_water_setting_def
      split: option.splits prod.splits)

lemma load_config_ok:
  assumes "load_config env = Inr cfg"
  shows "config_ok cfg"
proof -
  from assms obtain u where u: "raw_config env = Some u" and m: "valid_mode (TCP_PACING_MODE cfg) \<noteq> None"
    and i: "TCP_INITIAL_CWND_BYTES cfg = u_cwnd u" "TCP_SEND_QUEUE_HIGH_WATER_BYTES cfg = u_high u"
    and v: "vm_mtu env = Inr (VM_MTU cfg)"
    and b: "1 \<le> TCP_SEND_BURST_SEGMENTS cfg" "TCP_SEND_BURST_SEGMENTS cfg \<le> TCP_SEND_BURST_MAX_SEGMENTS cfg"
      "0 \<le> TCP_SEND_BURST_INTERVAL_MS cfg" "1 \<le> TCP_ACK_EVERY_SEGMENTS cfg" "0 \<le> TCP_ACK_DELAY_MS cfg"
    by (auto simp: load_config_def bind_load_Inr at_least_Inr burst_segments_setting_def
        burst_max_setting_def burst_interval_setting_def ack_every_setting_def ack_delay_setting_def
        pacing_mode_setting_def Let_def split: option.splits if_splits)
  then show ?thesis using raw_config_bounds [OF u] vm_mtu_Inr [OF v] by (simp add: config_ok_def)
qed

lemma config_ok_mss: "config_ok cfg \<Longrightarrow> 536 \<le> TCP_MSS cfg \<and> TCP_MSS cfg \<le> 65495"
  by (simp add: config_ok_def TCP_MSS_def)

lemma int_of_Num_int [simp]: "int_of (Num (of_int n)) = Some n"
  by (simp add: int_of_def isInteger_def)

lemma config_pacer:
  "config_ok cfg \<Longrightarrow> \<exists>p. new_tcp_pacer cfg = Inr p \<and> pacer_inv p"
proof -
  assume "config_ok cfg"
  then have "\<exists>p. new_tcp_pacer cfg = Inr p"
    by (auto simp: config_ok_def new_tcp_pacer_def new_pacer_def)
  then show ?thesis using new_pacer_inv unfolding new_tcp_pacer_def by blast
qed

text \<open>The configuration of a program started without any environment variable.\<close>

definition default_config :: config where
  "default_config = \<lparr>RATE_LIMIT_KBPS = 1024, MAX_CONNECTIONS_PER_IP = 4, ENABLE_VM_TO_VM = True,
     log_level = 1, GATEWAY_IP = ''10.0.2.2'', DHCP_START = 15, DHCP_END = 254,
     DNS_SERVER_IP = ''8.8.8.8'', VM_MTU = 1500, TCP_WINDOW_SIZE = 10240,
     TCP_PACING_MODE = ''adaptive'', TCP_SEND_BURST_SEGMENTS = 3, TCP_SEND_BURST_MAX_SEGMENTS = 8,
     TCP_SEND_BURST_INTERVAL_MS = 6, TCP_INITIAL_CWND_BYTES = 10240,
     TCP_SEND_QUEUE_HIGH_WATER_BYTES = 1048576, TCP_ACK_EVERY_SEGMENTS = 2, TCP_ACK_DELAY_MS = 10,
     REVERSE_TCP_IDLE_TIMEOUT_MS = 45000, UDP_FLOW_IDLE_TIMEOUT_MS = 30000,
     MAX_UDP_FLOWS_PER_SESSION = 256, TCP_RTO_INITIAL_MS = 1000, TCP_RTO_MAX_MS = 60000,
     TCP_RTO_MAX_RETRANSMISSIONS = 4\<rparr>"

lemma lower_adaptive: "map lower_char ''adaptive'' = ''adaptive''"
  by code_simp

lemma load_default: "load_config (\<lambda>_. None) = Inr default_config"
  by (simp add: load_config_def bind_load_def vm_mtu_def pacing_mode_setting_def text_setting_def
      given_def int_setting_def number_setting_def burst_segments_setting_def at_least_def
      burst_max_setting_def burst_interval_setting_def ack_every_setting_def ack_delay_setting_def
      raw_config_def initial_cwnd_setting_def high_water_setting_def flag_setting_def
      lower_adaptive [simplified] default_config_def Let_def valid_mode_def)

lemma default_config_ok: "config_ok default_config"
  by (rule load_config_ok [OF load_default])

section \<open>Properties\<close>

text \<open>
  C35: whatever the environment holds, the program either refuses to start with a RangeError, goes
  on with a NaN in an unchecked setting, or runs with a configuration in which every checked
  setting is in its documented range: the MSS toward the VM fits an IPv4 packet, and the pacer
  constructor accepts the pacing settings, so it cannot throw in a packet handler.
\<close>

theorem configuration_checked:
  "case load_config env of
     Inl (Refused e) \<Rightarrow> (\<exists>m. e = RangeError m)
   | Inl Not_Numeric \<Rightarrow> raw_config env = None
   | Inr cfg \<Rightarrow> 536 \<le> TCP_MSS cfg \<and> TCP_MSS cfg + 40 \<le> 65535
       \<and> 1460 \<le> TCP_INITIAL_CWND_BYTES cfg
       \<and> 730 \<le> TCP_SEND_QUEUE_LOW_WATER_BYTES cfg
       \<and> TCP_SEND_QUEUE_LOW_WATER_BYTES cfg < TCP_SEND_QUEUE_HIGH_WATER_BYTES cfg
       \<and> 1 \<le> TCP_ACK_EVERY_SEGMENTS cfg \<and> 0 \<le> TCP_ACK_DELAY_MS cfg
       \<and> (\<exists>p. new_tcp_pacer cfg = Inr p \<and> pacer_inv p)"
proof (cases "load_config env")
  case (Inl f)
  then show ?thesis
    by (auto simp: load_config_def bind_load_def vm_mtu_def pacing_mode_setting_def at_least_def
        burst_segments_setting_def burst_max_setting_def burst_interval_setting_def
        ack_every_setting_def ack_delay_setting_def Let_def
        split: load_failure.split sum.splits option.splits if_splits)
next
  case (Inr cfg)
  then have ok: "config_ok cfg" by (rule load_config_ok)
  moreover have "730 \<le> h div 2 \<and> h div 2 < h" if "1460 \<le> h" for h :: int
    using that by linarith
  ultimately show ?thesis
    using Inr config_pacer [OF ok]
    by (simp add: config_ok_def TCP_MSS_def TCP_SEND_QUEUE_LOW_WATER_BYTES_def)
qed

end
