(* ===== verification/Address_Pool.thy ===== *)
theory Address_Pool
  imports Relay_Config
begin

text \<open>
  The address pool of relay.js: allocateIP and releaseIP over macToIP, ipToSession and usedIPs.
  What a client of the pool may rely on is the interface \<open>lease_pool\<close>, which the pool provides.
\<close>

section \<open>The interface\<close>

text \<open>
  Clients acquire and release addresses. The laws: an owner keeps its address when it asks again,
  a fresh address belongs to nobody else, nobody else's lease changes, and a refused request
  changes nothing.
\<close>

locale lease_pool =
  fixes lease :: "'p \<Rightarrow> 'm \<Rightarrow> 'a option"
    and acquire :: "'m \<Rightarrow> 'p \<Rightarrow> 'a result \<times> 'p"
    and release :: "'m \<Rightarrow> 'p \<Rightarrow> 'p"
    and sound :: "'p \<Rightarrow> bool"
  assumes acquire_sound: "sound p \<Longrightarrow> sound (snd (acquire m p))"
    and release_sound: "sound p \<Longrightarrow> sound (release m p)"
    and acquire_held: "sound p \<Longrightarrow> lease p m = Some a \<Longrightarrow> acquire m p = (Inr a, p)"
    and acquire_gives: "sound p \<Longrightarrow> acquire m p = (Inr a, p') \<Longrightarrow> lease p' m = Some a"
    and acquire_fresh: "sound p \<Longrightarrow> acquire m p = (Inr a, p') \<Longrightarrow> lease p m = None \<Longrightarrow> lease p m' \<noteq> Some a"
    and acquire_frame: "sound p \<Longrightarrow> m' \<noteq> m \<Longrightarrow> lease (snd (acquire m p)) m' = lease p m'"
    and acquire_refused: "sound p \<Longrightarrow> acquire m p = (Inl e, p') \<Longrightarrow> p' = p \<and> lease p m = None"
    and release_frees: "sound p \<Longrightarrow> lease (release m p) m = None"
    and release_frame: "sound p \<Longrightarrow> m' \<noteq> m \<Longrightarrow> lease (release m p) m' = lease p m'"
begin

definition exclusive :: "'p \<Rightarrow> bool" where
  "exclusive p \<longleftrightarrow> (\<forall>m m' a. lease p m = Some a \<and> lease p m' = Some a \<longrightarrow> m = m')"

lemma acquire_exclusive:
  assumes "sound p" "exclusive p"
  shows "exclusive (snd (acquire m p))"
proof (cases "lease p m")
  case (Some a)
  then show ?thesis using assms acquire_held by simp
next
  case None
  show ?thesis
  proof (cases "acquire m p")
    case (Pair r p')
    show ?thesis
    proof (cases r)
      case (Inl e)
      then show ?thesis using acquire_refused Pair assms by auto
    next
      case (Inr a)
      have f: "lease p' m' = lease p m'" if "m' \<noteq> m" for m'
        using acquire_frame [OF assms(1) that] Pair by simp
      have g: "lease p' m = Some a" using acquire_gives assms(1) Pair Inr by simp
      have n: "lease p m' \<noteq> Some a" for m'
        using acquire_fresh [OF assms(1) _ None] Pair Inr by simp
      have "m1 = m2" if "lease p' m1 = Some b" "lease p' m2 = Some b" for m1 m2 b
        using that assms(2) f g n unfolding exclusive_def by (metis option.inject)
      then show ?thesis by (auto simp: exclusive_def Pair)
    qed
  qed
qed

lemma release_exclusive:
  assumes "sound p" "exclusive p"
  shows "exclusive (release m p)"
proof -
  have "lease (release m p) m' = (if m' = m then None else lease p m')" for m'
    using release_frees release_frame assms(1) by simp
  then show ?thesis using assms(2) by (auto simp: exclusive_def)
qed

end

section \<open>The pool of the relay\<close>

text \<open>\<open>ipToSession\<close> maps an address to the number of the session registered for it.\<close>

record address_pool =
  macToIP :: "(string, string) jsmap"
  ipToSession :: "(string, nat) jsmap"
  usedIPs :: "int set"

definition new_address_pool :: address_pool where
  "new_address_pool = \<lparr>macToIP = [], ipToSession = [], usedIPs = {2}\<rparr>"

definition show_int :: "int \<Rightarrow> string" where
  "show_int i = (if i < 0 then CHR ''-'' # dec (nat (- i)) else dec (nat i))"

definition pool_ip :: "int \<Rightarrow> string" where
  "pool_ip i = ''10.0.2.'' @ show_int i"

text \<open>The loop from DHCP_START to DHCP_END: the first number that is not used.\<close>

function free_octet :: "int set \<Rightarrow> int \<Rightarrow> int \<Rightarrow> int option" where
  "free_octet used i stop =
     (if i > stop then None else if i \<notin> used then Some i else free_octet used (i + 1) stop)"
  by pat_completeness auto
termination
  by (relation "measure (\<lambda>(used, i, stop). nat (stop + 1 - i))") auto

declare free_octet.simps [simp del]

definition allocateIP :: "config \<Rightarrow> string \<Rightarrow> address_pool \<Rightarrow> string result \<times> address_pool" where
  "allocateIP cfg mac p =
     (case map_get (macToIP p) mac of
        Some ip \<Rightarrow> (Inr ip, p)
      | None \<Rightarrow>
          (case free_octet (usedIPs p) (DHCP_START cfg) (DHCP_END cfg) of
             Some i \<Rightarrow>
               let ip = pool_ip i
               in (Inr ip, p\<lparr>usedIPs := insert i (usedIPs p), macToIP := map_set mac ip (macToIP p)\<rparr>)
           | None \<Rightarrow> (Inl (GenericError ''No available IPs in pool''), p)))"

text \<open>\<open>parseInt\<close> of the last part; a NaN is in no set of integers.\<close>

definition last_octet :: "string \<Rightarrow> int option" where
  "last_octet ip = (let parts = split_on CHR ''.'' ip in
     if 3 < length parts then parse_int (parts ! 3) else None)"

definition releaseIP :: "string \<Rightarrow> address_pool \<Rightarrow> address_pool" where
  "releaseIP mac p =
     (case map_get (macToIP p) mac of
        None \<Rightarrow> p
      | Some ip \<Rightarrow>
          if ip = [] then p
          else p\<lparr>usedIPs := (case last_octet ip of Some i \<Rightarrow> usedIPs p - {i} | None \<Rightarrow> usedIPs p),
                 macToIP := map_delete mac (macToIP p), ipToSession := map_delete ip (ipToSession p)\<rparr>)"

definition register_session :: "string \<Rightarrow> nat \<Rightarrow> address_pool \<Rightarrow> address_pool" where
  "register_session ip sid p = p\<lparr>ipToSession := map_set ip sid (ipToSession p)\<rparr>"

section \<open>The invariant of the pool\<close>

definition leased_octets :: "address_pool \<Rightarrow> int set" where
  "leased_octets p = {i. \<exists>m. map_get (macToIP p) m = Some (pool_ip i)}"

definition pool_ok :: "config \<Rightarrow> address_pool \<Rightarrow> bool" where
  "pool_ok cfg p \<longleftrightarrow>
     (\<forall>m ip. map_get (macToIP p) m = Some ip \<longrightarrow>
        (\<exists>i. ip = pool_ip i \<and> DHCP_START cfg \<le> i \<and> i \<le> DHCP_END cfg \<and> i \<noteq> 2))
     \<and> usedIPs p = insert 2 (leased_octets p)
     \<and> (\<forall>m m' a. map_get (macToIP p) m = Some a \<and> map_get (macToIP p) m' = Some a \<longrightarrow> m = m')"

lemma not_space_digit: "is_digit c \<Longrightarrow> \<not> is_space c"
  by (auto simp: is_digit_def is_space_def)

lemma dec_Cons: "\<exists>c r. dec n = c # r \<and> is_digit c \<and> list_all is_digit r"
  using dec_digits [of _ n] by (cases "dec n") (auto simp: list_all_iff)

lemma takeWhile_dec: "takeWhile is_digit (dec n) = dec n"
  using dec_digits by simp

lemma digit_not_sign: "is_digit c \<Longrightarrow> c \<noteq> CHR ''-'' \<and> c \<noteq> CHR ''+''"
  by (auto simp: is_digit_def)

lemma parse_dec: "parse_int (dec n) = Some (int n)"
proof -
  obtain c r where d: "dec n = c # r" "is_digit c" using dec_Cons by blast
  then have "split_sign (dropWhile is_space (dec n)) = (False, dec n)"
    by (simp add: not_space_digit split_sign_def digit_not_sign)
  then show ?thesis unfolding parse_int_def Let_def by (simp add: takeWhile_dec del: takeWhile_eq_all_conv)
qed

lemma parse_minus_dec: "parse_int (CHR ''-'' # dec n) = Some (- int n)"
proof -
  have "\<not> is_space CHR ''-''" by (simp add: is_space_def)
  then show ?thesis by (simp add: parse_int_def split_sign_def takeWhile_dec)
qed

lemma parse_show_int: "parse_int (show_int i) = Some i"
  by (simp add: show_int_def parse_dec parse_minus_dec)

lemma show_int_inj: "show_int i = show_int j \<Longrightarrow> i = j"
  using parse_show_int by (metis option.inject)

lemma pool_ip_inj [simp]: "pool_ip i = pool_ip j \<longleftrightarrow> i = j"
  using show_int_inj by (auto simp: pool_ip_def)

lemma dot_not_in_show: "CHR ''.'' \<notin> set (show_int i)"
  using sep_not_in_dec [OF dot_not_digit(1)] by (auto simp: show_int_def)

lemma split_pool_ip: "split_on CHR ''.'' (pool_ip i) = [''10'', ''0'', ''2'', show_int i]"
  by (simp add: pool_ip_def split_on_no_sep [OF dot_not_in_show])

lemma last_octet_pool [simp]: "last_octet (pool_ip i) = Some i"
  by (simp add: last_octet_def split_pool_ip parse_show_int)

lemma pool_ip_not_Nil [simp]: "pool_ip i \<noteq> []"
  by (simp add: pool_ip_def)

lemma free_octet_spec:
  "free_octet used i stop = Some j \<Longrightarrow> i \<le> j \<and> j \<le> stop \<and> j \<notin> used \<and> (\<forall>k. i \<le> k \<and> k < j \<longrightarrow> k \<in> used)"
  "free_octet used i stop = None \<Longrightarrow> \<forall>k. i \<le> k \<and> k \<le> stop \<longrightarrow> k \<in> used"
proof (induction used i stop rule: free_octet.induct)
  case (1 used i stop)
  { case 1
    show ?case
    proof (cases "i > stop \<or> i \<notin> used")
      case True
      then show ?thesis using 1 by (auto simp: free_octet.simps [of used i stop] split: if_splits)
    next
      case False
      then have "free_octet used (i + 1) stop = Some j"
        using 1 by (simp add: free_octet.simps [of used i stop])
      with "1.IH"(1) False show ?thesis
        by (metis add1_zle_eq dual_order.trans linorder_not_less order_less_le zle_add1_eq_le)
    qed
  next
    case 2
    show ?case
    proof (cases "i > stop")
      case True
      then show ?thesis by auto
    next
      case False
      then have "i \<in> used" "free_octet used (i + 1) stop = None"
        using 2 by (auto simp: free_octet.simps [of used i stop] split: if_splits)
      with "1.IH"(2) False show ?thesis by (metis add1_zle_eq order_less_le)
    qed }
qed

lemma new_pool_ok: "pool_ok cfg new_address_pool"
  by (simp add: pool_ok_def new_address_pool_def leased_octets_def)

lemma allocate_ok:
  assumes ok: "pool_ok cfg p"
  shows "pool_ok cfg (snd (allocateIP cfg mac p))"
proof (cases "map_get (macToIP p) mac")
  case (Some ip)
  then show ?thesis using ok by (simp add: allocateIP_def)
next
  case None
  show ?thesis
  proof (cases "free_octet (usedIPs p) (DHCP_START cfg) (DHCP_END cfg)")
    case None
    then show ?thesis using ok \<open>map_get (macToIP p) mac = None\<close> by (simp add: allocateIP_def)
  next
    case (Some i)
    note spec = free_octet_spec(1) [OF Some]
    let ?p = "p\<lparr>usedIPs := insert i (usedIPs p), macToIP := map_set mac (pool_ip i) (macToIP p)\<rparr>"
    have fresh: "map_get (macToIP p) m \<noteq> Some (pool_ip i)" for m
      using ok spec by (auto simp: pool_ok_def leased_octets_def)
    have "leased_octets ?p = insert i (leased_octets p)"
      using None unfolding leased_octets_def by (auto split: if_splits) (metis option.simps(3))+
    then have "pool_ok cfg ?p"
      using ok spec fresh unfolding pool_ok_def by (auto split: if_splits)
    then show ?thesis using None Some by (simp add: allocateIP_def Let_def)
  qed
qed

lemma release_ok:
  assumes ok: "pool_ok cfg p"
  shows "pool_ok cfg (releaseIP mac p)"
proof (cases "map_get (macToIP p) mac")
  case None
  then show ?thesis using ok by (simp add: releaseIP_def)
next
  case (Some ip)
  then obtain i where i: "ip = pool_ip i" "i \<noteq> 2" using ok by (auto simp: pool_ok_def)
  let ?p = "p\<lparr>usedIPs := usedIPs p - {i}, macToIP := map_delete mac (macToIP p),
              ipToSession := map_delete ip (ipToSession p)\<rparr>"
  have only: "map_get (macToIP p) m = Some (pool_ip i) \<longleftrightarrow> m = mac" for m
    using ok Some i by (auto simp: pool_ok_def)
  have "(\<exists>m. map_get (macToIP ?p) m = Some (pool_ip j)) \<longleftrightarrow>
      (\<exists>m. map_get (macToIP p) m = Some (pool_ip j)) \<and> j \<noteq> i" for j
    using only [of mac] only by (cases "j = i") (auto, metis option.inject pool_ip_inj)
  then have "leased_octets ?p = leased_octets p - {i}"
    unfolding leased_octets_def by blast
  then have "pool_ok cfg ?p"
    using ok i unfolding pool_ok_def by auto
  then show ?thesis using Some i by (simp add: releaseIP_def)
qed

lemma allocate_cases:
  assumes "allocateIP cfg mac p = (r, p')"
  obtains (held) ip where "map_get (macToIP p) mac = Some ip" "r = Inr ip" "p' = p"
  | (fresh) i where "map_get (macToIP p) mac = None" "r = Inr (pool_ip i)"
      "free_octet (usedIPs p) (DHCP_START cfg) (DHCP_END cfg) = Some i"
      "p' = p\<lparr>usedIPs := insert i (usedIPs p), macToIP := map_set mac (pool_ip i) (macToIP p)\<rparr>"
  | (refused) "map_get (macToIP p) mac = None"
      "free_octet (usedIPs p) (DHCP_START cfg) (DHCP_END cfg) = None"
      "r = Inl (GenericError ''No available IPs in pool'')" "p' = p"
  using assms by (auto simp: allocateIP_def Let_def split: option.splits)

interpretation dhcp: lease_pool "\<lambda>p. map_get (macToIP p)" "allocateIP cfg" releaseIP "pool_ok cfg"
  for cfg
proof
  fix p m a p' m' e
  assume ok: "pool_ok cfg p"
  show "pool_ok cfg (snd (allocateIP cfg m p))" by (rule allocate_ok [OF ok])
  show "pool_ok cfg (releaseIP m p)" by (rule release_ok [OF ok])
  show "map_get (macToIP p) m = Some a \<Longrightarrow> allocateIP cfg m p = (Inr a, p)"
    by (simp add: allocateIP_def)
  show "allocateIP cfg m p = (Inr a, p') \<Longrightarrow> map_get (macToIP p') m = Some a"
    by (erule allocate_cases) auto
  show "allocateIP cfg m p = (Inr a, p') \<Longrightarrow> map_get (macToIP p) m = None \<Longrightarrow>
      map_get (macToIP p) m' \<noteq> Some a"
    using ok by (elim allocate_cases)
      (auto dest!: free_octet_spec(1) simp: pool_ok_def leased_octets_def)
  show "m' \<noteq> m \<Longrightarrow> map_get (macToIP (snd (allocateIP cfg m p))) m' = map_get (macToIP p) m'"
    by (cases "allocateIP cfg m p") (auto elim: allocate_cases)
  show "allocateIP cfg m p = (Inl e, p') \<Longrightarrow> p' = p \<and> map_get (macToIP p) m = None"
    by (erule allocate_cases) auto
  show "map_get (macToIP (releaseIP m p)) m = None"
  proof (cases "map_get (macToIP p) m")
    case (Some ip)
    then obtain i where "ip = pool_ip i" using ok unfolding pool_ok_def by blast
    then have "ip \<noteq> []" by simp
    then show ?thesis using Some by (simp add: releaseIP_def)
  qed (simp add: releaseIP_def)
  show "m' \<noteq> m \<Longrightarrow> map_get (macToIP (releaseIP m p)) m' = map_get (macToIP p) m'"
    by (auto simp: releaseIP_def split: option.split)
qed

text \<open>A run of the pool: addresses are requested and released by MAC.\<close>

datatype pool_event = Request string | Release string

fun pool_step :: "config \<Rightarrow> address_pool \<Rightarrow> pool_event \<Rightarrow> address_pool" where
  "pool_step cfg p (Request mac) = snd (allocateIP cfg mac p)"
| "pool_step cfg p (Release mac) = releaseIP mac p"

interpretation pool: machine "\<lambda>_ _. True" "pool_step cfg" "\<lambda>p. pool_ok cfg p \<and> dhcp.exclusive p"
  for cfg
proof
  fix p e
  assume "pool_ok cfg p \<and> dhcp.exclusive p"
  then show "pool_ok cfg (pool_step cfg p e) \<and> dhcp.exclusive (pool_step cfg p e)"
    by (cases e) (auto intro: allocate_ok release_ok dhcp.acquire_exclusive dhcp.release_exclusive)
qed

lemma new_pool_exclusive: "dhcp.exclusive new_address_pool"
  by (simp add: dhcp.exclusive_def new_address_pool_def)

lemma pool_run_ok: "pool_ok cfg (run (pool_step cfg) new_address_pool es)"
  by (rule conjunct1 [OF pool.run_inv]) (simp_all add: new_pool_ok new_pool_exclusive)

lemma pool_run_exclusive: "dhcp.exclusive (run (pool_step cfg) new_address_pool es)"
  by (rule conjunct2 [OF pool.run_inv [where cfg = cfg]])
    (simp_all add: new_pool_ok new_pool_exclusive)

section \<open>Properties\<close>

text \<open>
  C13: after any sequence of allocations and releases, no two MAC addresses hold the same address,
  every lease lies in the DHCP range and is not 10.0.2.2, and the next request is answered as it
  should: with the address already held, else with the lowest free address of the range, and with
  the pool error exactly when every address of the range is held by some MAC (or is 10.0.2.2).
\<close>

theorem leases_exclusive:
  "let p = run (pool_step cfg) new_address_pool es
   in inj_on (map_get (macToIP p)) (dom (map_get (macToIP p)))
    \<and> (case allocateIP cfg mac p of
         (Inr a, p') \<Rightarrow> map_get (macToIP p') mac = Some a \<and>
           (if map_has (macToIP p) mac then map_get (macToIP p) mac = Some a \<and> p' = p
            else \<exists>i. a = pool_ip i \<and> DHCP_START cfg \<le> i \<and> i \<le> DHCP_END cfg \<and> i \<noteq> 2
                 \<and> Some a \<notin> range (map_get (macToIP p))
                 \<and> {DHCP_START cfg..<i} \<subseteq> insert 2 (leased_octets p))
       | (Inl e, p') \<Rightarrow> p' = p \<and> \<not> map_has (macToIP p) mac
           \<and> {DHCP_START cfg..DHCP_END cfg} \<subseteq> insert 2 (leased_octets p))"
proof -
  let ?p = "run (pool_step cfg) new_address_pool es"
  have used: "usedIPs ?p = insert 2 (leased_octets ?p)"
    using pool_run_ok [of cfg es] by (simp add: pool_ok_def)
  have inj: "inj_on (map_get (macToIP ?p)) (dom (map_get (macToIP ?p)))"
    using pool_run_exclusive [of cfg es] unfolding dhcp.exclusive_def
    by (intro inj_onI) (metis domD)
  obtain r p' where r: "allocateIP cfg mac ?p = (r, p')" by fastforce
  then show ?thesis
  proof (cases rule: allocate_cases)
    case (held ip)
    then show ?thesis using inj r by (simp add: Let_def map_has_def)
  next
    case (fresh i)
    have "i \<noteq> 2" "Some (pool_ip i) \<notin> range (map_get (macToIP ?p))"
      using free_octet_spec(1) [OF fresh(3)] unfolding used leased_octets_def by auto
    moreover have "{DHCP_START cfg..<i} \<subseteq> insert 2 (leased_octets ?p)"
      "DHCP_START cfg \<le> i" "i \<le> DHCP_END cfg"
      using free_octet_spec(1) [OF fresh(3)] unfolding used by auto
    ultimately show ?thesis using inj r fresh by (auto simp: Let_def map_has_def)
  next
    case refused
    from free_octet_spec(2) [OF refused(2)] show ?thesis
      using inj r refused unfolding used by (auto simp: Let_def map_has_def)
  qed
qed


end
