(* ===== verification/Effects.thy ===== *)
theory Effects
  imports Prelude
begin

text \<open>
  The program's statements as functions on an explicit state that return a value or throw:
  an action takes the state and gives the outcome, an error or a value, with the state it leaves.
  A thrown error skips the rest of a sequence and keeps the changes made before it, as in
  JavaScript. The lemmas about \<open>keeps\<close> reduce an invariant of a handler to its statements.
\<close>

type_synonym ('s, 'a) act = "'s \<Rightarrow> 'a result \<times> 's"

definition ret :: "'a \<Rightarrow> ('s, 'a) act" where
  "ret a = (\<lambda>s. (Inr a, s))"

definition throw :: "js_error \<Rightarrow> ('s, 'a) act" where
  "throw e = (\<lambda>s. (Inl e, s))"

definition andthen :: "('s, 'a) act \<Rightarrow> ('a \<Rightarrow> ('s, 'b) act) \<Rightarrow> ('s, 'b) act" where
  "andthen m f = (\<lambda>s. case m s of (Inl e, s) \<Rightarrow> (Inl e, s) | (Inr a, s) \<Rightarrow> f a s)"

definition seq_act :: "('s, unit) act \<Rightarrow> ('s, 'b) act \<Rightarrow> ('s, 'b) act" where
  "seq_act m n = andthen m (\<lambda>_. n)"

definition reads :: "('s \<Rightarrow> 'a) \<Rightarrow> ('a \<Rightarrow> ('s, 'b) act) \<Rightarrow> ('s, 'b) act" where
  "reads f k = (\<lambda>s. k (f s) s)"

definition modify :: "('s \<Rightarrow> 's) \<Rightarrow> ('s, unit) act" where
  "modify f = (\<lambda>s. (Inr (), f s))"

definition whenever :: "bool \<Rightarrow> ('s, unit) act \<Rightarrow> ('s, unit) act" where
  "whenever b m = (if b then m else ret ())"

definition lift_result :: "'a result \<Rightarrow> ('s, 'a) act" where
  "lift_result r = (\<lambda>s. (r, s))"

definition ignore :: "('s, 'a) act \<Rightarrow> ('s, unit) act" where
  "ignore m = andthen m (\<lambda>_. ret ())"

primrec each :: "('a \<Rightarrow> ('s, unit) act) \<Rightarrow> 'a list \<Rightarrow> ('s, unit) act" where
  "each f [] = ret ()"
| "each f (x # xs) = seq_act (f x) (each f xs)"

text \<open>A sequence of statements.\<close>

primrec block :: "('s, unit) act list \<Rightarrow> ('s, unit) act" where
  "block [] = ret ()"
| "block (m # ms) = seq_act m (block ms)"

text \<open>The state an action leaves, whether it returns or throws.\<close>

abbreviation exec :: "('s, 'a) act \<Rightarrow> 's \<Rightarrow> 's" where
  "exec m s \<equiv> snd (m s)"

abbreviation outcome :: "('s, 'a) act \<Rightarrow> 's \<Rightarrow> 'a result" where
  "outcome m s \<equiv> fst (m s)"

named_theorems act_simps \<open>how the sequencing operators run\<close>

lemma ret_run [act_simps]: "ret a s = (Inr a, s)"
  by (simp add: ret_def)

lemma throw_run [act_simps]: "throw e s = (Inl e, s)"
  by (simp add: throw_def)

lemma modify_run [act_simps]: "modify f s = (Inr (), f s)"
  by (simp add: modify_def)

lemma reads_run [act_simps]: "reads f k s = k (f s) s"
  by (simp add: reads_def)

lemma lift_result_run [act_simps]: "lift_result r s = (r, s)"
  by (simp add: lift_result_def)

lemma whenever_run [act_simps]: "whenever b m s = (if b then m s else (Inr (), s))"
  by (simp add: whenever_def ret_run)

lemma andthen_Inr: "m s = (Inr a, s') \<Longrightarrow> andthen m f s = f a s'"
  by (simp add: andthen_def)

lemma andthen_Inl: "m s = (Inl e, s') \<Longrightarrow> andthen m f s = (Inl e, s')"
  by (simp add: andthen_def)

lemma seq_act_Inr: "m s = (Inr (), s') \<Longrightarrow> seq_act m n s = n s'"
  by (simp add: seq_act_def andthen_Inr)

lemma seq_act_Inl: "m s = (Inl e, s') \<Longrightarrow> seq_act m n s = (Inl e, s')"
  by (simp add: seq_act_def andthen_Inl)

lemma seq_act_modify [act_simps]: "seq_act (modify f) n s = n (f s)"
  by (rule seq_act_Inr) (rule modify_run)

lemma seq_act_reads [act_simps]: "seq_act (reads f k) n s = seq_act (k (f s)) n s"
  by (simp add: seq_act_def andthen_def reads_run)

lemma seq_act_whenever [act_simps]: "seq_act (whenever b m) n s = (if b then seq_act m n s else n s)"
  by (simp add: seq_act_def andthen_def whenever_def ret_def)

lemma seq_act_step [act_simps]: "seq_act (seq_act m n) k = seq_act m (seq_act n k)"
  by (rule ext) (auto simp: seq_act_def andthen_def split: prod.split sum.split)

lemma ignore_run: "ignore m s = (map_sum id (\<lambda>_. ()) (fst (m s)), snd (m s))"
  by (auto simp: ignore_def andthen_def ret_def split: prod.split sum.split)

section \<open>Invariants of actions\<close>

text \<open>\<open>keeps P m\<close>: \<open>m\<close> preserves \<open>P\<close>, also when it throws.\<close>

definition keeps :: "('s \<Rightarrow> bool) \<Rightarrow> ('s, 'a) act \<Rightarrow> bool" where
  "keeps P m \<longleftrightarrow> (\<forall>s. P s \<longrightarrow> P (exec m s))"

named_theorems keeps_intros \<open>rules that reduce \<open>keeps\<close> to the parts of an action\<close>

lemma keepsI: "(\<And>s. P s \<Longrightarrow> P (exec m s)) \<Longrightarrow> keeps P m"
  by (simp add: keeps_def)

lemma keepsD: "keeps P m \<Longrightarrow> P s \<Longrightarrow> P (exec m s)"
  by (simp add: keeps_def)

lemma keeps_ret [keeps_intros]: "keeps P (ret a)"
  by (simp add: keeps_def ret_def)

lemma keeps_throw [keeps_intros]: "keeps P (throw e)"
  by (simp add: keeps_def throw_def)

lemma keeps_lift [keeps_intros]: "keeps P (lift_result r)"
  by (simp add: keeps_def lift_result_def)

lemma keeps_modify: "(\<And>s. P s \<Longrightarrow> P (f s)) \<Longrightarrow> keeps P (modify f)"
  by (simp add: keeps_def modify_def)

lemma keeps_andthen [keeps_intros]:
  "keeps P m \<Longrightarrow> (\<And>a. keeps P (f a)) \<Longrightarrow> keeps P (andthen m f)"
  unfolding keeps_def andthen_def by (fastforce split: prod.split sum.split)

lemma keeps_seq_act [keeps_intros]: "keeps P m \<Longrightarrow> keeps P n \<Longrightarrow> keeps P (seq_act m n)"
  unfolding seq_act_def by (rule keeps_andthen)

lemma keeps_reads [keeps_intros]: "(\<And>a. keeps P (k a)) \<Longrightarrow> keeps P (reads f k)"
  by (simp add: keeps_def reads_def)

lemma keeps_reads_state: "(\<And>s. P s \<Longrightarrow> P (exec (k (f s)) s)) \<Longrightarrow> keeps P (reads f k)"
  by (simp add: keeps_def reads_def)

lemma keeps_if [keeps_intros]: "(b \<Longrightarrow> keeps P m) \<Longrightarrow> (\<not> b \<Longrightarrow> keeps P n) \<Longrightarrow> keeps P (if b then m else n)"
  by simp

lemma keeps_whenever [keeps_intros]: "(b \<Longrightarrow> keeps P m) \<Longrightarrow> keeps P (whenever b m)"
  by (simp add: whenever_def keeps_ret)

lemma keeps_ignore [keeps_intros]: "keeps P m \<Longrightarrow> keeps P (ignore m)"
  unfolding ignore_def by (intro keeps_andthen keeps_ret)

lemma keeps_each [keeps_intros]: "(\<And>x. keeps P (f x)) \<Longrightarrow> keeps P (each f xs)"
  by (induction xs) (auto intro: keeps_intros)

lemma keeps_block [keeps_intros]: "list_all (keeps P) ms \<Longrightarrow> keeps P (block ms)"
  by (induction ms) (auto intro: keeps_intros)

lemma keeps_list [keeps_intros]: "keeps P m \<Longrightarrow> list_all (keeps P) ms \<Longrightarrow> list_all (keeps P) (m # ms)"
  "list_all (keeps P) []"
  by simp_all

lemma keeps_option [keeps_intros]:
  "(x = None \<Longrightarrow> keeps P m) \<Longrightarrow> (\<And>a. x = Some a \<Longrightarrow> keeps P (n a)) \<Longrightarrow>
   keeps P (case x of None \<Rightarrow> m | Some a \<Rightarrow> n a)"
  by (cases x) auto

lemma keeps_Let [keeps_intros]: "keeps P (m a) \<Longrightarrow> keeps P (let x = a in m x)"
  by (simp add: Let_def)

lemma keeps_prod [keeps_intros]: "(\<And>a b. x = (a, b) \<Longrightarrow> keeps P (m a b)) \<Longrightarrow> keeps P (case x of (a, b) \<Rightarrow> m a b)"
  by (cases x) auto

section \<open>Actions on a part of the state\<close>

text \<open>\<open>inside view upd m\<close> runs \<open>m\<close> on the part of the state that \<open>view\<close> reads and \<open>upd\<close> writes.\<close>

definition inside :: "('s \<Rightarrow> 'p) \<Rightarrow> ('p \<Rightarrow> 's \<Rightarrow> 's) \<Rightarrow> ('p, 'a) act \<Rightarrow> ('s, 'a) act" where
  "inside view upd m = (\<lambda>s. case m (view s) of (r, p) \<Rightarrow> (r, upd p s))"

lemma inside_run: "inside view upd m s = (outcome m (view s), upd (exec m (view s)) s)"
  by (simp add: inside_def case_prod_unfold)

text \<open>\<open>try\<close>: an error is caught and the state kept.\<close>

definition attempt :: "('s, unit) act \<Rightarrow> ('s, unit) act" where
  "attempt m = (\<lambda>s. (Inr (), exec m s))"

lemma keeps_attempt [keeps_intros]: "keeps P m \<Longrightarrow> keeps P (attempt m)"
  by (simp add: keeps_def attempt_def)

end
