(* ===== verification/Relay_Link.thy ===== *)
theory Relay_Link
  imports Effects Relay_Config Packet_Utils Rate_Limiter Tcp_Receive
begin

text \<open>
  The link of a session to its VM, as relay.js keeps it: the WebSocket with what is queued on it,
  the MAC address last seen, and the packets the relay makes for the VM (IPv4 frames, UDP
  responses, resets, ICMP echo replies, ARP replies). The ws library is a parameter: the record
  carries the function that gives \<open>bufferedAmount\<close> after a send.
\<close>

section \<open>State\<close>

text \<open>The two tables of connections and their keys; a resume closure is determined by its key.\<close>

datatype conn_key = Forward string | Reverse nat

text \<open>
  \<open>buffering\<close> is the ws library's effect on bufferedAmount; \<open>sink_accepts\<close> the streams' answer to
  \<open>write\<close>; \<open>idents\<close> the random IP identifications, of which \<open>drawn\<close> have been used; \<open>now_ms\<close> the
  clock. \<open>frames\<close> and \<open>texts\<close> are the binary and text messages sent. \<open>resumes\<close> are the callbacks handed to setImmediate (delay 0) and setTimeout.
\<close>

record link =
  ws_open :: bool
  bufferedAmount :: nat
  buffering :: "nat \<Rightarrow> bytes \<Rightarrow> nat"
  sink_accepts :: "bytes list \<Rightarrow> bytes \<Rightarrow> bool"
  transportSocket :: sink
  vmMACBytes :: "bytes option"
  bytesSent :: nat
  frames :: "bytes list"
  texts :: "string list"
  idents :: "nat \<Rightarrow> nat"
  drawn :: nat
  now_ms :: rat
  rateLimiter :: rate_limiter
  tcpTransportWaiters :: "(nat, conn_key) jsmap"
  resumes :: "(nat \<times> conn_key) list"

section \<open>Sending frames\<close>

definition relay_mac :: bytes where
  "relay_mac = [0x52, 0x54, 0x00, 0x12, 0x34, 0x56]"

definition writeUInt16BE :: "nat \<Rightarrow> nat \<Rightarrow> bytes \<Rightarrow> bytes result" where
  "writeUInt16BE n off buf =
     (if n > 0xffff then Inl (RangeError ''ERR_OUT_OF_RANGE'') else Inr (put buf off (u16_bytes n)))"

definition sendToVM :: "config \<Rightarrow> bytes \<Rightarrow> (link, unit) act" where
  "sendToVM cfg data = modify (\<lambda>l.
     if ws_open l
     then
       let l = (if TCP_PACING_MODE cfg = ''off'' \<or> TCP_SEND_BURST_INTERVAL_MS cfg = 0
                then l\<lparr>transportSocket := corkForTurn (transportSocket l)\<rparr> else l)
       in l\<lparr>frames := frames l @ [data], bufferedAmount := buffering l (bufferedAmount l) data\<rparr>
     else l)"

definition ip_frame :: "bytes option \<Rightarrow> bytes \<Rightarrow> bytes" where
  "ip_frame mac ipPacket =
     (let frame = alloc (14 + length ipPacket);
          frame = put frame 0 (case mac of Some m \<Rightarrow> m | None \<Rightarrow> replicate 6 0xff);
          frame = put frame 6 relay_mac;
          frame = put frame 12 (u16_bytes 0x0800)
      in put frame 14 ipPacket)"

definition sendIPToVM :: "config \<Rightarrow> bytes \<Rightarrow> (link, unit) act" where
  "sendIPToVM cfg ipPacket =
     seq_act (modify (\<lambda>l. l\<lparr>bytesSent := bytesSent l + length ipPacket\<rparr>))
       (reads vmMACBytes (\<lambda>mac. sendToVM cfg (ip_frame mac ipPacket)))"

text \<open>\<open>Math.floor(Math.random() * 65535)\<close>\<close>

definition draw_ident :: "(link, nat) act" where
  "draw_ident = (\<lambda>l. (Inr (idents l (drawn l) mod 65535), l\<lparr>drawn := drawn l + 1\<rparr>))"

definition buildIP :: "bytes \<Rightarrow> address \<Rightarrow> address \<Rightarrow> nat \<Rightarrow> (link, bytes) act" where
  "buildIP payload src dst protocol =
     andthen draw_ident (\<lambda>ident. lift_result (buildIPv4Packet payload src dst protocol ident))"

text \<open>Writes a checksum into the packet it was computed for, \<open>field\<close> bytes into the transport header.\<close>

definition with_checksum :: "(bytes \<Rightarrow> nat result) \<Rightarrow> nat \<Rightarrow> bytes \<Rightarrow> bytes result" where
  "with_checksum cksum field ip = bind_result (cksum ip) (\<lambda>c. writeUInt16BE c (20 + field) ip)"

section \<open>Packets made by the relay\<close>

definition udp_segment :: "nat \<Rightarrow> nat \<Rightarrow> bytes \<Rightarrow> bytes result" where
  "udp_segment srcPort dstPort payload =
     (let udpLen = 8 + length payload; udp = alloc udpLen
      in bind_result (writeUInt16BE srcPort 0 udp) (\<lambda>udp.
         bind_result (writeUInt16BE dstPort 2 udp) (\<lambda>udp.
         bind_result (writeUInt16BE udpLen 4 udp) (\<lambda>udp.
         bind_result (writeUInt16BE 0 6 udp) (\<lambda>udp. Inr (put udp 8 payload))))))"

definition sendUDPToVM ::
  "config \<Rightarrow> bytes \<Rightarrow> nat \<Rightarrow> nat \<Rightarrow> address \<Rightarrow> address \<Rightarrow> (link, unit) act" where
  "sendUDPToVM cfg payload srcPort dstPort srcIP dstIP =
     andthen (lift_result (udp_segment srcPort dstPort payload)) (\<lambda>udp.
     andthen (buildIP udp srcIP dstIP 17) (\<lambda>ip.
     andthen (lift_result (with_checksum udpChecksum 6 ip)) (\<lambda>ip. sendIPToVM cfg ip)))"

definition rst_segment :: "nat \<Rightarrow> nat \<Rightarrow> u32 \<Rightarrow> bytes result" where
  "rst_segment srcPort dstPort seqNum =
     bind_result (writeUInt16BE srcPort 0 (alloc 20)) (\<lambda>tcp.
     bind_result (writeUInt16BE dstPort 2 tcp) (\<lambda>tcp.
       Inr (put (put (put (put tcp 4 (u32_bytes seqNum)) 8 (u32_bytes 0)) 12 [0x50, 0x04])
              14 [0, 0, 0, 0, 0, 0])))"

definition sendRSTForReverse ::
  "config \<Rightarrow> nat \<Rightarrow> nat \<Rightarrow> address \<Rightarrow> address \<Rightarrow> u32 \<Rightarrow> (link, unit) act" where
  "sendRSTForReverse cfg srcPort dstPort srcIP dstIP seqNum =
     andthen (lift_result (rst_segment srcPort dstPort seqNum)) (\<lambda>tcp.
     andthen (buildIP tcp srcIP dstIP 6) (\<lambda>ip.
     andthen (lift_result (with_checksum tcpChecksum 16 ip)) (\<lambda>ip. sendIPToVM cfg ip)))"

text \<open>The echo reply made from an echo request; \<open>off\<close> is where the ICMP message starts.\<close>

definition icmp_reply :: "bytes \<Rightarrow> nat \<Rightarrow> bytes" where
  "icmp_reply ipPacket off =
     (let reply = put (alloc (length ipPacket)) 0 ipPacket;
          reply = put reply 12 (subarray ipPacket 16 20);
          reply = put reply 16 (subarray ipPacket 12 16);
          reply = put reply off [0];
          reply = put reply (off + 2) (u16_bytes 0);
          reply = put reply (off + 2) (u16_bytes (internetChecksum (drop off reply)));
          reply = put reply 10 (u16_bytes 0)
      in put reply 10 (u16_bytes (internetChecksum (subarray reply 0 off))))"

definition handleICMP :: "config \<Rightarrow> ipv4_packet \<Rightarrow> (link, unit) act" where
  "handleICMP cfg parsed =
     (let ipPacket = ip_packet parsed; icmpOffset = ip_headerLength parsed
      in if length ipPacket < icmpOffset + 8 then ret ()
         else whenever (byte_at ipPacket icmpOffset = 8 \<and> ip_dstIP parsed = GATEWAY_IP cfg)
                (sendIPToVM cfg (icmp_reply ipPacket icmpOffset)))"

text \<open>
  \<open>Buffer.from(ip.split(".").map(Number))\<close>: one byte per part, whatever the text. A part that is
  no number becomes 0, other numbers are truncated to a byte.
\<close>

definition number_byte :: "js_number \<Rightarrow> byte" where
  "number_byte n =
     (case n of Num q \<Rightarrow> word_of_int (if q < 0 then - \<lfloor>- q\<rfloor> else \<lfloor>q\<rfloor>) | _ \<Rightarrow> 0)"

definition dotted_bytes :: "string \<Rightarrow> bytes" where
  "dotted_bytes ip = map (\<lambda>p. number_byte (js_Number p)) (split_on CHR ''.'' ip)"

definition hex_char :: "nat \<Rightarrow> char" where
  "hex_char n = (if n < 10 then char_of (48 + n) else char_of (87 + n))"

definition hex2 :: "byte \<Rightarrow> string" where
  "hex2 b = [hex_char (unat b div 16), hex_char (unat b mod 16)]"

fun join_with :: "string \<Rightarrow> string list \<Rightarrow> string" where
  "join_with sep [] = []"
| "join_with sep [x] = x"
| "join_with sep (x # y # r) = x @ sep @ join_with sep (y # r)"

definition mac_string :: "bytes \<Rightarrow> string" where
  "mac_string mac = join_with '':'' (map hex2 mac)"

text \<open>\<open>mac.split(":").map((hex) => parseInt(hex, 16))\<close> as bytes; a part that is no number becomes 0.\<close>

definition parse_hex :: "string \<Rightarrow> nat" where
  "parse_hex s = foldl (\<lambda>n c. 16 * n + hex_value c) 0 (takeWhile (\<lambda>c. hex_value c < 16) s)"

definition mac_bytes :: "string \<Rightarrow> bytes" where
  "mac_bytes s = map (\<lambda>p. word_of_nat (parse_hex p)) (split_on CHR '':'' s)"

text \<open>An ARP reply that tells the sender of \<open>arpPacket\<close> that \<open>ip\<close> is at \<open>mac\<close>.\<close>

definition arp_reply :: "bytes \<Rightarrow> bytes \<Rightarrow> bytes \<Rightarrow> bytes" where
  "arp_reply arpPacket mac ip =
     (let reply = alloc 42;
          reply = put reply 0 (subarray arpPacket 8 14);
          reply = put reply 6 mac;
          reply = put reply 12 (u16_bytes 0x0806);
          reply = put reply 14 (u16_bytes 1);
          reply = put reply 16 (u16_bytes 0x0800);
          reply = put reply 18 [6, 4];
          reply = put reply 20 (u16_bytes 2);
          reply = put reply 22 mac;
          reply = put reply 28 ip;
          reply = put reply 32 (subarray arpPacket 8 14)
      in put reply 38 (subarray arpPacket 14 18))"

section \<open>Send completion\<close>

definition resumeTCPTransportWaiters :: "link \<Rightarrow> link" where
  "resumeTCPTransportWaiters l =
     (if tcpTransportWaiters l = [] \<or> bufferedAmount l > 32768 then l
      else l\<lparr>tcpTransportWaiters := [],
             resumes := resumes l @ map (\<lambda>r. (0, snd r)) (tcpTransportWaiters l)\<rparr>)"

section \<open>Well-formed packets\<close>

lemma put_id: "off \<le> length buf \<Longrightarrow> take off (put buf off src) = take off buf"
  by (simp add: put_def)

lemma subarray_put_other:
  "b \<le> off \<Longrightarrow> off + length src \<le> length buf \<Longrightarrow> subarray (put buf off src) a b = subarray buf a b"
  by (rule nth_equalityI) (auto simp: subarray_def put_def nth_append)

lemma writeUInt16BE_Inr: "writeUInt16BE n off buf = Inr b \<longleftrightarrow> n < 65536 \<and> b = put buf off (u16_bytes n)"
  by (auto simp: writeUInt16BE_def)

lemma of_char_hex: "n < 16 \<Longrightarrow> of_char (hex_char n) = (if n < 10 then 48 + n else 87 + n)"
  by (simp add: hex_char_def)

lemma hex_char_value:
  assumes "n < 16"
  shows "hex_value (hex_char n) = n" "hex_char n \<noteq> CHR '':''"
proof -
  show "hex_value (hex_char n) = n"
    using assms by (simp add: hex_value_def is_digit_def of_char_hex Let_def)
  have "of_char (hex_char n) \<noteq> (58 :: nat)" using assms by (simp add: of_char_hex)
  then show "hex_char n \<noteq> CHR '':''" by auto
qed

lemma nibble_lt [simp]: "unat (b :: byte) div 16 < 16"
  using byte_lt [of b] by linarith

lemma parse_hex2: "parse_hex (hex2 b) = unat b"
  by (simp add: parse_hex_def hex2_def hex_char_value)

lemma hex2_no_colon: "CHR '':'' \<notin> set (hex2 b)"
  using hex_char_value(2) [of "unat b div 16"] hex_char_value(2) [of "unat b mod 16"]
  by (auto simp: hex2_def)

lemma mac_string_Cons2: "mac_string (a # b # r) = hex2 a @ CHR '':'' # mac_string (b # r)"
  by (simp add: mac_string_def)

lemma mac_bytes_string: "mac \<noteq> [] \<Longrightarrow> mac_bytes (mac_string mac) = mac"
proof (induction mac rule: induct_list012)
  case (2 a)
  then show ?case
    by (simp add: mac_string_def mac_bytes_def split_on_no_sep [OF hex2_no_colon] parse_hex2)
next
  case (3 a b r)
  then show ?case
    by (simp add: mac_string_Cons2 mac_bytes_def split_on_append [OF hex2_no_colon] parse_hex2)
qed simp

end
