(* ===== verification/Dns_Filter.thy ===== *)
theory Dns_Filter
  imports Prelude
begin

text \<open>
  The DNS code of relay.js: filterDNSResponse, which removes the AAAA answers of a response, and
  parseDnsQuestionName, which reads a possibly compressed name. The filter is compared with the
  removal of records from a structured message.
\<close>

section \<open>The filter\<close>

definition is_pointer :: "byte \<Rightarrow> bool" where
  "is_pointer len \<longleftrightarrow> len AND 0xC0 = 0xC0"

function skip_question_name :: "bytes \<Rightarrow> nat \<Rightarrow> nat" where
  "skip_question_name p offset =
     (if offset < length p \<and> byte_at p offset \<noteq> 0
      then if is_pointer (byte_at p offset) then offset + 2
           else skip_question_name p (offset + unat (byte_at p offset) + 1)
      else offset)"
  by pat_completeness auto
termination
  by (relation "measure (\<lambda>(p, offset). length p - offset)") auto

declare skip_question_name.simps [simp del]

primrec skip_questions :: "bytes \<Rightarrow> nat \<Rightarrow> nat \<Rightarrow> nat" where
  "skip_questions p 0 offset = offset"
| "skip_questions p (Suc n) offset =
     (let offset = skip_question_name p offset;
          offset = (if offset < length p \<and> byte_at p offset = 0 then offset + 1 else offset)
      in skip_questions p n (offset + 4))"

function skip_answer_name :: "bytes \<Rightarrow> nat \<Rightarrow> nat" where
  "skip_answer_name p offset =
     (if offset < length p
      then let len = byte_at p offset
           in if len = 0 then offset + 1
              else if is_pointer len then offset + 2
              else skip_answer_name p (offset + unat len + 1)
      else offset)"
  by pat_completeness auto
termination
  by (relation "measure (\<lambda>(p, offset). length p - offset)") auto

declare skip_answer_name.simps [simp del]

text \<open>The loop over the answers: the records kept (newAncount is their number) and the offset.\<close>

primrec answers_loop :: "bytes \<Rightarrow> nat \<Rightarrow> nat \<Rightarrow> bytes list \<Rightarrow> bytes list \<times> nat" where
  "answers_loop p 0 offset kept = (kept, offset)"
| "answers_loop p (Suc n) offset kept =
     (if offset < length p
      then
        let recordStart = offset;
            offset = skip_answer_name p offset
        in if offset + 10 > length p then (kept, offset)
           else
             let type = u16be p offset;
                 rdlength = u16be p (offset + 8);
                 recordEnd = offset + 10 + rdlength
             in if recordEnd > length p then (kept, offset)
                else answers_loop p n recordEnd
                       (if type \<noteq> 28 then kept @ [subarray p recordStart recordEnd] else kept)
      else (kept, offset))"

text \<open>
  Every read is inside the packet (the reads of the header because it has 12 bytes, those of a
  record because of its two bounds checks), so the \<open>catch\<close> branch is never taken; hasIPv6Only is
  true exactly when nothing was kept.
\<close>

definition filterDNSResponse :: "bytes \<Rightarrow> bytes" where
  "filterDNSResponse dnsPacket =
     (if length dnsPacket < 12 then dnsPacket
      else
        let qdcount = u16be dnsPacket 4; ancount = u16be dnsPacket 6
        in if ancount = 0 then dnsPacket
           else
             let questionStart = 12;
                 offset = skip_questions dnsPacket qdcount questionStart;
                 questionSection = subarray dnsPacket questionStart offset;
                 (keptAnswers, offset) = answers_loop dnsPacket ancount offset [];
                 newAncount = length keptAnswers
             in if keptAnswers = [] then dnsPacket
                else
                  let remainingData = drop offset dnsPacket
                  in if newAncount < ancount
                     then put (put (alloc 12) 0 (take 12 dnsPacket)) 6 (u16_bytes newAncount)
                            @ questionSection @ concat keptAnswers @ remainingData
                     else dnsPacket)"

section \<open>Reading a name\<close>

text \<open>
  \<open>toString("ascii", \<dots>)\<close> drops the high bit of each byte. The function calls itself at the target
  of a pointer, without a bound: \<open>None\<close> means that it never returns (in practice, until the
  engine's stack is exhausted).
\<close>

definition ascii :: "bytes \<Rightarrow> string" where
  "ascii b = map (\<lambda>x. char_of (unat (x AND 0x7F))) b"

definition name_label :: "bytes \<Rightarrow> nat \<Rightarrow> string" where
  "name_label p offset =
     (let len = unat (byte_at p offset)
      in ascii (subarray p (offset + 1) (offset + 1 + len)) @
         (if offset + len + 1 < length p \<and> byte_at p (offset + len + 1) = 0 then [] else ''.''))"

definition pointer_target :: "bytes \<Rightarrow> nat \<Rightarrow> nat" where
  "pointer_target p offset = u16be p offset AND 0x3FFF"

partial_function (option) parse_name :: "bytes \<Rightarrow> string \<Rightarrow> nat \<Rightarrow> string result option" where
  "parse_name p name offset =
     (if offset < length p \<and> byte_at p offset \<noteq> 0
      then if is_pointer (byte_at p offset)
           then if offset + 2 > length p then Some (Inl (RangeError ''ERR_OUT_OF_RANGE''))
                else Option.bind (parse_name p [] (pointer_target p offset))
                       (\<lambda>r. Some (map_sum id (\<lambda>rest. name @ rest) r))
           else parse_name p (name @ name_label p offset) (offset + unat (byte_at p offset) + 1)
      else Some (Inr name))"

definition parseDnsQuestionName :: "bytes \<Rightarrow> nat \<Rightarrow> string result option" where
  "parseDnsQuestionName dnsPacket offset = parse_name dnsPacket [] offset"

section \<open>Structured messages\<close>

text \<open>A name is a list of labels with an end: the root (\<open>None\<close>) or a pointer.\<close>

record dns_name =
  labels :: "bytes list"
  pointer :: "nat option"

record dns_record =
  dns_name :: dns_name
  dns_type :: nat
  dns_fixed :: bytes
  dns_data :: bytes

record dns_question =
  q_name :: dns_name
  q_fixed :: bytes

record dns_message =
  dns_head :: bytes
  dns_counts :: bytes
  questions :: "dns_question list"
  answers :: "dns_record list"
  others :: bytes

definition label_ok :: "bytes \<Rightarrow> bool" where
  "label_ok l \<longleftrightarrow> l \<noteq> [] \<and> length l < 64"

definition name_ok :: "dns_name \<Rightarrow> bool" where
  "name_ok n \<longleftrightarrow> list_all label_ok (labels n) \<and> (case pointer n of None \<Rightarrow> True | Some t \<Rightarrow> t < 16384)"

definition encode_end :: "nat option \<Rightarrow> bytes" where
  "encode_end e = (case e of None \<Rightarrow> [0] | Some t \<Rightarrow> u16_bytes (0xC000 + t))"

definition encode_labels :: "bytes list \<Rightarrow> bytes" where
  "encode_labels ls = concat (map (\<lambda>l. word_of_nat (length l) # l) ls)"

definition encode_name :: "dns_name \<Rightarrow> bytes" where
  "encode_name n = encode_labels (labels n) @ encode_end (pointer n)"

definition encode_record :: "dns_record \<Rightarrow> bytes" where
  "encode_record r = encode_name (dns_name r) @ u16_bytes (dns_type r) @ dns_fixed r
     @ u16_bytes (length (dns_data r)) @ dns_data r"

definition encode_question :: "dns_question \<Rightarrow> bytes" where
  "encode_question q = encode_name (q_name q) @ q_fixed q"

definition encode_message :: "dns_message \<Rightarrow> bytes" where
  "encode_message m = dns_head m @ u16_bytes (length (questions m)) @ u16_bytes (length (answers m))
     @ dns_counts m @ concat (map encode_question (questions m))
     @ concat (map encode_record (answers m)) @ others m"

definition record_ok :: "dns_record \<Rightarrow> bool" where
  "record_ok r \<longleftrightarrow> name_ok (dns_name r) \<and> dns_type r < 65536 \<and> length (dns_fixed r) = 6
     \<and> length (dns_data r) < 65536"

text \<open>
  A question must end at the root: after a pointer the code takes a zero high byte of the type for
  the end of the name and goes one byte too far.
\<close>

definition question_ok :: "dns_question \<Rightarrow> bool" where
  "question_ok q \<longleftrightarrow> name_ok (q_name q) \<and> pointer (q_name q) = None \<and> length (q_fixed q) = 4"

definition message_ok :: "dns_message \<Rightarrow> bool" where
  "message_ok m \<longleftrightarrow> length (dns_head m) = 4 \<and> length (dns_counts m) = 4
     \<and> list_all question_ok (questions m) \<and> list_all record_ok (answers m)
     \<and> length (questions m) < 65536 \<and> length (answers m) < 65536"

definition not_aaaa :: "dns_record \<Rightarrow> bool" where
  "not_aaaa r \<longleftrightarrow> dns_type r \<noteq> 28"

section \<open>The loops on encoded messages\<close>

lemma label_head:
  assumes "label_ok l"
  shows "(word_of_nat (length l) :: byte) \<noteq> 0" "\<not> is_pointer (word_of_nat (length l))"
    "unat (word_of_nat (length l) :: byte) = length l"
proof -
  have len: "0 < length l" "length l < 64" using assms by (auto simp: label_ok_def)
  then show u: "unat (word_of_nat (length l) :: byte) = length l" by (simp add: unat_word_of_nat_byte)
  with len show "(word_of_nat (length l) :: byte) \<noteq> 0" by (metis less_irrefl unat_0)
  have "uint (word_of_nat (length l) AND (0xC0 :: byte)) \<le> uint (word_of_nat (length l) :: byte)"
    by (simp add: uint_and AND_upper1)
  also have "\<dots> < 64" using u len by (metis of_nat_less_numeral_iff of_nat_unat)
  finally show "\<not> is_pointer (word_of_nat (length l))" by (auto simp: is_pointer_def)
qed

lemma pointer_head:
  assumes "t < 16384"
  shows "is_pointer (word_of_nat ((0xC000 + t) div 256))" "(word_of_nat ((0xC000 + t) div 256) :: byte) \<noteq> 0"
proof -
  have "list_all (\<lambda>k. is_pointer (word_of_nat (192 + k))) [0..<64]" by code_simp
  then have "is_pointer (word_of_nat (192 + t div 256))"
    using assms unfolding list_all_iff by auto
  moreover have "(0xC000 + t) div 256 = 192 + t div 256" by simp
  ultimately show "is_pointer (word_of_nat ((0xC000 + t) div 256))" by (simp only:)
  then show "(word_of_nat ((0xC000 + t) div 256) :: byte) \<noteq> 0" by (auto simp: is_pointer_def)
qed

lemma encode_labels_simps [simp]:
  "encode_labels [] = []" "encode_labels (l # ls) = word_of_nat (length l) # l @ encode_labels ls"
  by (simp_all add: encode_labels_def)

lemma byte_at_skip [simp]: "byte_at (pre @ q) (length pre) = byte_at q 0"
  by (simp add: byte_at_append2)

lemma byte_at_skip_more: "byte_at (pre @ q) (length pre + n) = byte_at q n"
  by (simp add: byte_at_append2)

lemma u16be_skip_more: "u16be (pre @ q) (length pre + n) = u16be q n"
  by (simp add: u16be_append2)

lemma skip_question_labels:
  "list_all label_ok ls \<Longrightarrow>
   skip_question_name (pre @ encode_labels ls @ 0 # q) (length pre) = length pre + length (encode_labels ls)"
proof (induction ls arbitrary: pre)
  case Nil
  then show ?case by (simp add: skip_question_name.simps)
next
  case (Cons l ls)
  have l: "label_ok l" using Cons.prems by simp
  let ?h = "word_of_nat (length l) :: byte"
  have "skip_question_name ((pre @ ?h # l) @ encode_labels ls @ 0 # q) (length (pre @ ?h # l)) =
      length (pre @ ?h # l) + length (encode_labels ls)"
    using Cons.IH [of "pre @ ?h # l"] Cons.prems by simp
  then show ?case
    using label_head [OF l] by (subst skip_question_name.simps) (simp add: add.assoc)
qed

lemma skip_answer_labels:
  "list_all label_ok ls \<Longrightarrow>
   skip_answer_name (pre @ encode_labels ls @ q) (length pre) =
     skip_answer_name ((pre @ encode_labels ls) @ q) (length (pre @ encode_labels ls))"
proof (induction ls arbitrary: pre)
  case (Cons l ls)
  have l: "label_ok l" using Cons.prems by simp
  let ?h = "word_of_nat (length l) :: byte"
  have "skip_answer_name ((pre @ ?h # l) @ encode_labels ls @ q) (length (pre @ ?h # l)) =
      skip_answer_name (((pre @ ?h # l) @ encode_labels ls) @ q) (length ((pre @ ?h # l) @ encode_labels ls))"
    using Cons.IH [of "pre @ ?h # l"] Cons.prems by simp
  then show ?case
    using label_head [OF l] by (subst skip_answer_name.simps) (simp add: add.assoc)
qed simp

lemma skip_answer_end:
  assumes "case e of None \<Rightarrow> True | Some t \<Rightarrow> t < 16384"
  shows "skip_answer_name (pre @ encode_end e @ q) (length pre) = length pre + length (encode_end e)"
proof (cases e)
  case None
  then show ?thesis by (simp add: encode_end_def skip_answer_name.simps)
next
  case (Some t)
  then have "t < 16384" using assms by simp
  from pointer_head [OF this] show ?thesis
    by (simp add: encode_end_def Some u16_bytes_def skip_answer_name.simps)
qed

lemma skip_answer_encoded:
  assumes "name_ok n"
  shows "skip_answer_name (pre @ encode_name n @ q) (length pre) = length pre + length (encode_name n)"
  using skip_answer_labels [of "labels n" pre "encode_end (pointer n) @ q"]
    skip_answer_end [of "pointer n" "pre @ encode_labels (labels n)" q] assms
  by (simp add: encode_name_def name_ok_def)

lemma skip_questions_encoded:
  "list_all question_ok qs \<Longrightarrow>
   skip_questions (pre @ concat (map encode_question qs) @ q) (length qs) (length pre) =
     length pre + length (concat (map encode_question qs))"
proof (induction qs arbitrary: pre)
  case (Cons a qs)
  have a: "list_all label_ok (labels (q_name a))" "pointer (q_name a) = None" "length (q_fixed a) = 4"
    using Cons.prems by (auto simp: question_ok_def name_ok_def)
  let ?q = "q_fixed a @ concat (map encode_question qs) @ q"
  let ?ls = "encode_labels (labels (q_name a))"
  have e: "encode_question a = ?ls @ 0 # q_fixed a"
    by (simp add: encode_question_def encode_name_def encode_end_def a)
  have k: "skip_question_name (pre @ ?ls @ 0 # ?q) (length pre) = length pre + length ?ls"
    by (rule skip_question_labels [OF a(1)])
  have z: "byte_at (pre @ ?ls @ 0 # ?q) (length pre + length ?ls) = 0"
    by (simp add: byte_at_skip_more)
  have "skip_questions ((pre @ encode_question a) @ concat (map encode_question qs) @ q) (length qs)
      (length (pre @ encode_question a)) =
      length (pre @ encode_question a) + length (concat (map encode_question qs))"
    using Cons.IH [of "pre @ encode_question a"] Cons.prems by simp
  then show ?case
    using k z by (simp add: e a(3) Let_def ac_simps)
qed simp

lemma answers_loop_encoded:
  "list_all record_ok rs \<Longrightarrow>
   answers_loop (pre @ concat (map encode_record rs) @ q) (length rs) (length pre) kept =
     (kept @ map encode_record (filter not_aaaa rs), length pre + length (concat (map encode_record rs)))"
proof (induction rs arbitrary: pre kept)
  case (Cons r rs)
  have r: "name_ok (dns_name r)" "dns_type r < 65536" "length (dns_fixed r) = 6" "length (dns_data r) < 65536"
    using Cons.prems by (auto simp: record_ok_def)
  let ?t = "dns_fixed r @ u16_bytes (length (dns_data r)) @ dns_data r @ concat (map encode_record rs) @ q"
  let ?n = "encode_name (dns_name r)"
  let ?p = "pre @ ?n @ u16_bytes (dns_type r) @ ?t"
  have whole: "pre @ concat (map encode_record (r # rs)) @ q = ?p" by (simp add: encode_record_def)
  have k: "skip_answer_name ?p (length pre) = length pre + length ?n"
    by (rule skip_answer_encoded [OF r(1)])
  have ty: "u16be ?p (length pre + length ?n) = dns_type r"
    using u16be_skip_more [of "pre @ ?n" "u16_bytes (dns_type r) @ ?t" 0] r(2) by simp
  have "u16be ?p (length pre + length ?n + 8) =
      u16be ((pre @ ?n @ u16_bytes (dns_type r) @ dns_fixed r) @ u16_bytes (length (dns_data r))
        @ dns_data r @ concat (map encode_record rs) @ q)
        (length (pre @ ?n @ u16_bytes (dns_type r) @ dns_fixed r) + 0)"
    by (simp add: r(3) add.assoc)
  then have rd: "u16be ?p (length pre + length ?n + 8) = length (dns_data r)"
    unfolding u16be_skip_more using r(4) by simp
  have len: "length (encode_record r) = length ?n + 10 + length (dns_data r)"
    by (simp add: encode_record_def r(3))
  have sub: "subarray ?p (length pre) (length pre + length ?n + 10 + length (dns_data r)) = encode_record r"
    by (simp add: subarray_def encode_record_def r(3))
  have ih: "answers_loop ((pre @ encode_record r) @ concat (map encode_record rs) @ q) (length rs)
      (length (pre @ encode_record r)) k' = (k' @ map encode_record (filter not_aaaa rs),
        length (pre @ encode_record r) + length (concat (map encode_record rs)))" for k'
    using Cons.IH [of "pre @ encode_record r" k'] Cons.prems by simp
  have p: "(pre @ encode_record r) @ concat (map encode_record rs) @ q = ?p"
    by (simp add: encode_record_def)
  have more: "length pre < length ?p" "\<not> length pre + length ?n + 10 > length ?p"
    "\<not> length pre + length ?n + 10 + length (dns_data r) > length ?p"
    by (simp_all add: r(3))
  have next_i: "length pre + length ?n + 10 + length (dns_data r) = length (pre @ encode_record r)"
    by (simp add: len)
  show ?case
    unfolding whole list.size(4) add_Suc_right add_0_right answers_loop.simps Let_def k ty rd sub
    using more ih [unfolded p] unfolding next_i by (simp add: not_aaaa_def [of r] len add.assoc)
qed simp

section \<open>The filter on encoded messages\<close>

lemma filter_encoded:
  assumes ok: "message_ok m"
  shows "filterDNSResponse (encode_message m) =
    (if filter not_aaaa (answers m) = [] then encode_message m
     else encode_message (m\<lparr>answers := filter not_aaaa (answers m)\<rparr>))"
proof -
  let ?q = "concat (map encode_question (questions m))"
  let ?a = "concat (map encode_record (answers m))"
  let ?k = "filter not_aaaa (answers m)"
  let ?h = "dns_head m @ u16_bytes (length (questions m)) @ u16_bytes (length (answers m)) @ dns_counts m"
  have h: "length ?h = 12" using ok by (simp add: message_ok_def)
  have e: "encode_message m = ?h @ ?q @ ?a @ others m" by (simp add: encode_message_def)
  have qd: "u16be (encode_message m) 4 = length (questions m)"
    and an: "u16be (encode_message m) 6 = length (answers m)"
  proof -
    have "u16be (encode_message m) (length (dns_head m) + 0) = length (questions m)"
      using ok unfolding encode_message_def u16be_skip_more by (simp add: message_ok_def)
    then show "u16be (encode_message m) 4 = length (questions m)" using ok by (simp add: message_ok_def)
    have "u16be ((dns_head m @ u16_bytes (length (questions m))) @ u16_bytes (length (answers m))
        @ dns_counts m @ ?q @ ?a @ others m) (length (dns_head m @ u16_bytes (length (questions m))) + 0) =
        length (answers m)"
      using ok unfolding u16be_skip_more by (simp add: message_ok_def)
    then show "u16be (encode_message m) 6 = length (answers m)"
      using ok by (simp add: message_ok_def encode_message_def)
  qed
  have sq: "skip_questions (encode_message m) (length (questions m)) 12 = 12 + length ?q"
    using skip_questions_encoded [of "questions m" ?h "?a @ others m"] ok h
    by (simp add: e message_ok_def)
  have al: "answers_loop (encode_message m) (length (answers m)) (12 + length ?q) [] =
      (map encode_record ?k, 12 + length ?q + length ?a)"
    using answers_loop_encoded [of "answers m" "?h @ ?q" "others m" "[]"] ok h
    by (simp add: e message_ok_def)
  have qs: "subarray (encode_message m) 12 (12 + length ?q) = ?q"
    and rm: "drop (12 + length ?q + length ?a) (encode_message m) = others m"
    and tk: "take 12 (encode_message m) = ?h"
    using h unfolding e by (simp_all add: subarray_def)
  have hd: "put (put (alloc 12) 0 ?h) 6 (u16_bytes (length ?k)) =
      dns_head m @ u16_bytes (length (questions m)) @ u16_bytes (length ?k) @ dns_counts m"
  proof -
    have "put (alloc 12) 0 ?h = ?h" using h by (simp add: put_def alloc_def)
    then show ?thesis using ok by (simp add: put_def message_ok_def u16_bytes_def)
  qed
  have long: "\<not> length (encode_message m) < 12" using h unfolding e by simp
  have same: "?k = answers m" if "\<not> length ?k < length (answers m)"
    using that length_filter_less [of _ "answers m" not_aaaa] by (metis filter_True)
  have target: "encode_message (m\<lparr>answers := ?k\<rparr>) = (dns_head m @ u16_bytes (length (questions m))
      @ u16_bytes (length ?k) @ dns_counts m) @ ?q @ concat (map encode_record ?k) @ others m"
    by (simp add: encode_message_def)
  have kept: "m\<lparr>answers := answers m\<rparr> = m" by simp
  have none: "filterDNSResponse (encode_message m) = encode_message m" if "?k = []"
    using long that unfolding filterDNSResponse_def Let_def qd an sq al by simp
  have some: "filterDNSResponse (encode_message m) = encode_message (m\<lparr>answers := ?k\<rparr>)" if "?k \<noteq> []"
  proof (cases "length ?k < length (answers m)")
    case True
    then have "answers m \<noteq> []" by auto
    then show ?thesis using long that True
      unfolding filterDNSResponse_def Let_def qd an sq al target tk by (simp add: qs rm hd)
  next
    case False
    then show ?thesis using long that same [OF False]
      unfolding filterDNSResponse_def Let_def qd an sq al by (simp add: kept)
  qed
  show ?thesis using none some by simp
qed

section \<open>When a name is read\<close>

text \<open>
  \<open>name_stop\<close> is where the loop leaves the labels, \<open>jump\<close> the offset it calls itself at, if it does,
  and \<open>jumps n\<close> the offset after \<open>n\<close> nested calls, if there are that many.
\<close>

function name_stop :: "bytes \<Rightarrow> nat \<Rightarrow> nat" where
  "name_stop p offset =
     (if offset < length p \<and> byte_at p offset \<noteq> 0 \<and> \<not> is_pointer (byte_at p offset)
      then name_stop p (offset + unat (byte_at p offset) + 1) else offset)"
  by pat_completeness auto
termination
  by (relation "measure (\<lambda>(p, offset). length p - offset)") auto

declare name_stop.simps [simp del]

definition jump :: "bytes \<Rightarrow> nat \<Rightarrow> nat option" where
  "jump p offset =
     (let s = name_stop p offset
      in if s + 2 \<le> length p \<and> is_pointer (byte_at p s) then Some (pointer_target p s) else None)"

primrec jumps :: "bytes \<Rightarrow> nat \<Rightarrow> nat \<Rightarrow> nat option" where
  "jumps p 0 offset = Some offset"
| "jumps p (Suc n) offset = Option.bind (jump p offset) (jumps p n)"

lemma zero_no_pointer [simp]: "\<not> is_pointer 0"
  by (simp add: is_pointer_def)

lemma jump_label:
  "offset < length p \<Longrightarrow> byte_at p offset \<noteq> 0 \<Longrightarrow> \<not> is_pointer (byte_at p offset) \<Longrightarrow>
   jump p (offset + unat (byte_at p offset) + 1) = jump p offset"
  by (simp add: jump_def name_stop.simps [of p offset])

lemma jumps_label:
  "offset < length p \<Longrightarrow> byte_at p offset \<noteq> 0 \<Longrightarrow> \<not> is_pointer (byte_at p offset) \<Longrightarrow>
   0 < n \<Longrightarrow> jumps p n (offset + unat (byte_at p offset) + 1) = jumps p n offset"
  using jump_label by (cases n) auto

lemma parse_name_stop:
  "\<exists>name'. parse_name p name offset = parse_name p name' (name_stop p offset)
     \<and> (name_stop p offset < length p \<and> byte_at p (name_stop p offset) \<noteq> 0 \<longrightarrow>
          is_pointer (byte_at p (name_stop p offset)))"
proof (induction p offset arbitrary: name rule: name_stop.induct)
  case (1 p offset)
  show ?case
  proof (cases "offset < length p \<and> byte_at p offset \<noteq> 0 \<and> \<not> is_pointer (byte_at p offset)")
    case True
    then have "parse_name p name offset =
        parse_name p (name @ name_label p offset) (offset + unat (byte_at p offset) + 1)"
      by (simp add: parse_name.simps [of p name offset])
    moreover have "name_stop p offset = name_stop p (offset + unat (byte_at p offset) + 1)"
      using True by (simp add: name_stop.simps [of p offset])
    ultimately show ?thesis using "1.IH" [OF True, of "name @ name_label p offset"] by metis
  next
    case False
    then have "name_stop p offset = offset" by (subst name_stop.simps) argo
    then show ?thesis using False by auto
  qed
qed

lemma parse_name_returns: "jumps p n offset = None \<Longrightarrow> \<exists>r. parse_name p name offset = Some r"
proof (induction n arbitrary: offset name)
  case (Suc n)
  let ?s = "name_stop p offset"
  obtain name' where n: "parse_name p name offset = parse_name p name' ?s"
    and s: "?s < length p \<and> byte_at p ?s \<noteq> 0 \<longrightarrow> is_pointer (byte_at p ?s)"
    using parse_name_stop by blast
  show ?case
  proof (cases "jump p offset")
    case None
    then show ?thesis
      using s unfolding n by (subst parse_name.simps) (auto simp: jump_def Let_def split: if_splits)
  next
    case (Some t)
    then have t: "?s + 2 \<le> length p" "is_pointer (byte_at p ?s)" "t = pointer_target p ?s"
      by (auto simp: jump_def Let_def split: if_splits)
    then have "byte_at p ?s \<noteq> 0" using zero_no_pointer by metis
    obtain r where "parse_name p [] t = Some r"
      using Suc.IH [of t "[]"] Suc.prems Some by auto
    then show ?thesis
      using t \<open>byte_at p ?s \<noteq> 0\<close> unfolding n by (subst parse_name.simps) simp
  qed
qed simp

lemma parse_name_jumps: "parse_name p name offset = Some r \<Longrightarrow> \<exists>n > 0. jumps p n offset = None"
proof (induction p name offset r rule: parse_name.raw_induct [rotated, consumes 1, case_names 1])
  case (1 f p name offset y)
  consider (out) "\<not> (offset < length p \<and> byte_at p offset \<noteq> 0)"
    | (short) "offset < length p" "is_pointer (byte_at p offset)" "offset + 2 > length p"
    | (ptr) "offset < length p" "byte_at p offset \<noteq> 0" "is_pointer (byte_at p offset)" "offset + 2 \<le> length p"
    | (label) "offset < length p" "byte_at p offset \<noteq> 0" "\<not> is_pointer (byte_at p offset)"
    by linarith
  then show ?case
  proof cases
    case out
    then have "name_stop p offset = offset" by (subst name_stop.simps) argo
    moreover have "jump p offset = None"
      using out zero_no_pointer unfolding jump_def Let_def \<open>name_stop p offset = offset\<close>
      by (auto split: if_splits)
    ultimately show ?thesis by (intro exI [of _ 1]) simp
  next
    case short
    then have "jump p offset = None" by (simp add: jump_def name_stop.simps [of p offset])
    then show ?thesis by (intro exI [of _ 1]) simp
  next
    case ptr
    then obtain r where "f p [] (pointer_target p offset) = Some r"
      using "1.prems" "1.hyps" by (auto simp: Option.bind_eq_Some_conv)
    then obtain n where "jumps p n (pointer_target p offset) = None" using "1.IH" by blast
    moreover have "jump p offset = Some (pointer_target p offset)"
      using ptr by (simp add: jump_def name_stop.simps [of p offset])
    ultimately show ?thesis by (intro exI [of _ "Suc n"]) simp
  next
    case label
    then have "f p (name @ name_label p offset) (offset + unat (byte_at p offset) + 1) = Some y"
      using "1.prems" "1.hyps" by simp
    then show ?thesis using "1.IH" jumps_label [OF label] by metis
  qed
qed

lemma parse_name_iff: "parseDnsQuestionName p offset = None \<longleftrightarrow> (\<forall>n. jumps p n offset \<noteq> None)"
  using parse_name_returns [of p _ offset "[]"] parse_name_jumps [of p "[]" offset]
  unfolding parseDnsQuestionName_def by (cases "parse_name p [] offset") auto

section \<open>Properties\<close>

text \<open>
  C15: on every well-formed response the filter is the removal of the AAAA records from the answer
  section: header, counts, questions, the other answers in their order, authority and additional
  sections stay byte for byte, and the answer count is adjusted. A response with no other answers
  is returned unchanged.
\<close>

theorem filter_removes_aaaa:
  assumes "message_ok m"
  shows "filterDNSResponse (encode_message m) =
    encode_message (if \<exists>r \<in> set (answers m). not_aaaa r
                    then m\<lparr>answers := filter not_aaaa (answers m)\<rparr> else m)"
  using filter_encoded [OF assms] by (auto simp: filter_empty_conv)

definition example_message :: dns_message where
  "example_message = \<lparr>dns_head = [0, 7, 0x81, 0x80], dns_counts = [0, 0, 0, 0],
     questions = [\<lparr>q_name = \<lparr>labels = [[97, 98]], pointer = None\<rparr>, q_fixed = [0, 1, 0, 1]\<rparr>],
     answers = [\<lparr>dns_name = \<lparr>labels = [], pointer = Some 12\<rparr>, dns_type = 28,
                  dns_fixed = [0, 1, 0, 0, 0, 9], dns_data = replicate 16 5\<rparr>,
                \<lparr>dns_name = \<lparr>labels = [], pointer = Some 12\<rparr>, dns_type = 1,
                  dns_fixed = [0, 1, 0, 0, 0, 9], dns_data = [1, 2, 3, 4]\<rparr>],
     others = []\<rparr>"

theorem filter_removes_aaaa_witness:
  "message_ok example_message \<and> filterDNSResponse (encode_message example_message) =
     encode_message (example_message\<lparr>answers := [answers example_message ! 1]\<rparr>)"
proof -
  have ok: "message_ok example_message"
    by (simp add: example_message_def message_ok_def question_ok_def record_ok_def name_ok_def label_ok_def)
  then show ?thesis
    using filter_removes_aaaa [OF ok] by (simp add: example_message_def not_aaaa_def)
qed

text \<open>
  C16: reading a question name returns exactly when its chain of compression pointers ends.
  A chain that comes back is followed forever: a query whose name is a pointer to itself makes
  parseDnsQuestionName recurse without end.
\<close>

theorem question_name_termination:
  "(parseDnsQuestionName p offset \<noteq> None \<longleftrightarrow> (\<exists>n. jumps p n offset = None))
    \<and> parseDnsQuestionName (replicate 12 0 @ [0xC0, 12, 0, 1, 0, 1]) 12 = None"
proof
  show "parseDnsQuestionName p offset \<noteq> None \<longleftrightarrow> (\<exists>n. jumps p n offset = None)"
    by (simp only: parse_name_iff not_all not_not)
  define q :: bytes where "q = replicate 12 0 @ [0xC0, 12, 0, 1, 0, 1]"
  have at: "byte_at q 12 = 0xC0" "byte_at q 13 = 12" "length q = 18" by (simp_all add: q_def byte_at_def nth_append)
  have ptr: "is_pointer 0xC0" by (simp add: is_pointer_def)
  have "pointer_target q 12 = 12" by (simp add: pointer_target_def u16be_def at)
  moreover have "name_stop q 12 = 12" using ptr by (subst name_stop.simps) (simp add: at)
  ultimately have "jump q 12 = Some 12" by (simp add: jump_def at ptr)
  then have "jumps q n 12 = Some 12" for n by (induction n) (simp_all only: jumps.simps bind.simps)
  then have "\<forall>n. jumps q n 12 \<noteq> None" by (metis option.simps(3))
  then have "parseDnsQuestionName q 12 = None" by (rule iffD2 [OF parse_name_iff])
  then show "parseDnsQuestionName (replicate 12 0 @ [0xC0, 12, 0, 1, 0, 1]) 12 = None"
    by (simp only: q_def)
qed

end
