(* ===== verification/Tcp_Sender.thy ===== *)
theory Tcp_Sender
  imports Relay_Link Tcp_Utils Tcp_Retransmission
begin

text \<open>
  The sending half of a relay connection (relay.js): the connection object, sendTCP, which cuts a
  payload into segments and emits them, congestion control, the send queue with its back pressure
  on the source, and delayed acknowledgements. These operations act on one connection and the
  link; what also involves the tables of a session is in theory Tcp\_Session.
\<close>

section \<open>Connections\<close>

datatype conn_state = SYN_SENT | ESTABLISHED | FIN_WAIT | CLOSING | CLOSED

record tx_info =
  tx_srcPort :: nat
  tx_dstPort :: nat
  tx_srcIP :: string
  tx_dstIP :: string
  srcAddress :: bytes
  dstAddress :: bytes

datatype promise = Pending | Resolved | Rejected js_error

text \<open>
  \<open>conn_key\<close> is the table and key the connection was entered under. The source (the socket, or
  upstream of a reverse connection) is represented by whether it is paused and destroyed; the sink
  is \<open>receiveSink\<close>. \<open>windowUpdate\<close> pairs windowUpdateSeq and windowUpdateAck. The field
  vmWindowScale is the constant 0. Timers are represented by whether they are armed.
\<close>

record tcp_conn = receive_state +
  conn_id :: nat
  key_of :: conn_key
  conn_state :: conn_state
  tx :: tx_info
  relaySeq :: u32
  vmLastAck :: u32
  vmWindow :: int
  sendMss :: int
  sendQueue :: "bytes list"
  sendQueueBytes :: int
  sendSourcePaused :: bool
  source_paused :: bool
  source_destroyed :: bool
  sending :: bool
  dupAckCount :: nat
  pendingFin :: bool
  finSent :: bool
  peerFin :: bool
  windowUpdate :: "(u32 \<times> u32) option"
  congestionWindow :: int
  congestionThreshold :: int
  congestionRecoveryUntil :: "u32 option"
  fastRetransmitAck :: "u32 option"
  receiveAckPendingSegments :: nat
  receiveAckTimer :: bool
  idleTimer :: bool
  conn_pacer :: pacer
  retransmission :: rtq
  conn_promise :: promise

type_synonym endpoint = "tcp_conn \<times> link"

definition on_conn :: "(tcp_conn \<Rightarrow> tcp_conn) \<Rightarrow> (endpoint, unit) act" where
  "on_conn f = modify (\<lambda>(c, l). (f c, l))"

definition on_link :: "(link, 'a) act \<Rightarrow> (endpoint, 'a) act" where
  "on_link m = inside snd (\<lambda>l p. (fst p, l)) m"

definition the_conn :: "(tcp_conn \<Rightarrow> (endpoint, 'a) act) \<Rightarrow> (endpoint, 'a) act" where
  "the_conn k = reads fst k"

section \<open>Segment size and window\<close>

definition tcpMss :: "config \<Rightarrow> tcp_conn \<Rightarrow> int" where
  "tcpMss cfg conn =
     max 1 (min (TCP_MSS cfg) (if sendMss conn = 0 then TCP_FALLBACK_MSS else sendMss conn))"

definition tcpSendLimit :: "config \<Rightarrow> tcp_conn \<Rightarrow> int" where
  "tcpSendLimit cfg conn =
     max 0 (min (vmWindow conn)
       (if congestionWindow conn = 0 then TCP_INITIAL_CWND_BYTES cfg else congestionWindow conn))"

section \<open>Sending segments\<close>

definition tcp_options_for :: "config \<Rightarrow> bool \<Rightarrow> bytes" where
  "tcp_options_for cfg is_syn =
     (if is_syn then [2, 4, word_of_int (TCP_MSS cfg div 256), word_of_int (TCP_MSS cfg)] else [])"

definition flag_byte :: "tcp_flags \<Rightarrow> byte" where
  "flag_byte f =
     (if ack f then 0x10 else 0) OR (if fin f then 0x01 else 0) OR (if rst f then 0x04 else 0)
       OR (if psh f then 0x08 else 0) OR (if syn f then 0x02 else 0)"

definition writeWindow :: "int \<Rightarrow> bytes \<Rightarrow> bytes result" where
  "writeWindow w tcp =
     (if w < 0 then Inl (RangeError ''ERR_OUT_OF_RANGE'') else writeUInt16BE (nat w) 14 tcp)"

text \<open>The TCP header and payload of one segment; \<open>window\<close> is what the header announces.\<close>

definition tcp_segment ::
  "config \<Rightarrow> tcp_conn \<Rightarrow> u32 \<Rightarrow> tcp_flags \<Rightarrow> int \<Rightarrow> bytes \<Rightarrow> bytes result" where
  "tcp_segment cfg conn sequence f window chunk =
     (let options = tcp_options_for cfg (syn f);
          tcpHeaderLength = 20 + length options;
          tcp = alloc (tcpHeaderLength + length chunk)
      in bind_result (writeUInt16BE (tx_srcPort (tx conn)) 0 tcp) (\<lambda>tcp.
         bind_result (writeUInt16BE (tx_dstPort (tx conn)) 2 tcp) (\<lambda>tcp.
           let tcp = put tcp 4 (u32_bytes sequence);
               tcp = put tcp 8 (u32_bytes (vmSeq conn));
               tcp = put tcp 12 [push_bit 4 (word_of_nat (tcpHeaderLength div 4)), flag_byte f]
           in bind_result (writeWindow window tcp) (\<lambda>tcp.
             let tcp = put tcp 16 [0, 0, 0, 0];
                 tcp = put tcp 20 options
             in Inr (put tcp tcpHeaderLength chunk)))))"

text \<open>The flags of the segment that ends at \<open>offset\<close> in a payload of \<open>len\<close> bytes.\<close>

definition segment_flags :: "tcp_flags \<Rightarrow> nat \<Rightarrow> nat \<Rightarrow> nat \<Rightarrow> tcp_flags" where
  "segment_flags flags offset chunk_len len =
     (let isLastSegment = offset \<ge> len;
          f = flags\<lparr>psh := psh flags \<and> isLastSegment, fin := fin flags \<and> isLastSegment\<rparr>
      in if offset > chunk_len then f\<lparr>syn := False\<rparr> else f)"

definition emit_segment :: "config \<Rightarrow> bytes \<Rightarrow> (endpoint, unit) act" where
  "emit_segment cfg tcp =
     the_conn (\<lambda>conn.
     andthen (on_link (buildIP tcp (AddrBuffer (srcAddress (tx conn))) (AddrBuffer (dstAddress (tx conn))) 6)) (\<lambda>ip.
     andthen (lift_result (with_checksum tcpChecksum 16 ip)) (\<lambda>ip.
       on_link (sendIPToVM cfg ip))))"

text \<open>
  The loop of sendTCP. \<open>Suc m\<close> is the MSS, which is at least 1. The fields read in the loop are
  re-read in each iteration; \<open>windowSize\<close> overrides the announced window.
\<close>

function send_loop ::
  "config \<Rightarrow> nat \<Rightarrow> bytes \<Rightarrow> tcp_flags \<Rightarrow> bool \<Rightarrow> nat \<Rightarrow> u32 \<Rightarrow> (u32 \<times> bytes \<times> tcp_flags) list
     \<Rightarrow> (endpoint, (u32 \<times> bytes \<times> tcp_flags) list) act" where
  "send_loop cfg m payload flags advance offset sequence sent =
     (if offset < length payload \<or> (offset = 0 \<and> payload = [])
      then
        let chunk = subarray payload offset (offset + Suc m);
            offset' = offset + length chunk;
            f = segment_flags flags offset' (length chunk) (length payload);
            seqIncr = sequence_length chunk f;
            counts = seqIncr > 0 \<and> \<not> rst f;
            sequence' = (if counts then sequence + word_of_nat seqIncr else sequence);
            sent' = (if counts then sent @ [(sequence, chunk, f)] else sent)
        in the_conn (\<lambda>conn.
           andthen (lift_result (tcp_segment cfg conn sequence f
               (case windowSize flags of Some w \<Rightarrow> w | None \<Rightarrow> tcpReceiveWindow (TCP_WINDOW_SIZE cfg) conn)
               chunk)) (\<lambda>tcp.
           seq_act (whenever (counts \<and> advance) (on_conn (\<lambda>c. c\<lparr>relaySeq := sequence'\<rparr>)))
          (seq_act (emit_segment cfg tcp)
             (if payload = [] then ret sent'
              else send_loop cfg m payload flags advance offset' sequence' sent'))))
      else ret sent)"
  by pat_completeness auto
termination
  by (relation "measure (\<lambda>(cfg, m, payload, flags, advance, offset, sequence, sent). length payload - offset)")
    (auto simp: subarray_def)

declare send_loop.simps [simp del]

text \<open>The options object of sendTCP: \<open>sequence\<close> (absent: \<open>relaySeq\<close>) and \<open>advanceSequence\<close>.\<close>

definition sendTCP ::
  "config \<Rightarrow> bytes \<Rightarrow> tcp_flags \<Rightarrow> u32 option \<Rightarrow> bool \<Rightarrow> (endpoint, (u32 \<times> bytes \<times> tcp_flags) list) act" where
  "sendTCP cfg payload flags sequence advance =
     the_conn (\<lambda>conn.
       send_loop cfg (nat (tcpMss cfg conn - 1)) payload flags advance 0
         (case sequence of Some s \<Rightarrow> s | None \<Rightarrow> relaySeq conn) [])"

definition track_segment :: "u32 \<times> bytes \<times> tcp_flags \<Rightarrow> (endpoint, unit) act" where
  "track_segment seg = (case seg of (s, payload, f) \<Rightarrow>
     (\<lambda>(c, l). case track s payload f (retransmission c) of
        (r, q) \<Rightarrow> (map_sum id (\<lambda>_. ()) r, (c\<lparr>retransmission := q\<rparr>, l))))"

definition sendTrackedTCP ::
  "config \<Rightarrow> bytes \<Rightarrow> tcp_flags \<Rightarrow> u32 option \<Rightarrow> bool \<Rightarrow> (endpoint, unit) act" where
  "sendTrackedTCP cfg payload flags sequence advance =
     andthen (sendTCP cfg payload flags sequence advance) (each track_segment)"

section \<open>Congestion control\<close>

definition onTCPCongestionLoss :: "config \<Rightarrow> bool \<Rightarrow> tcp_conn \<Rightarrow> tcp_conn" where
  "onTCPCongestionLoss cfg is_timeout conn =
     (let q = retransmission conn; inFlight = payloadBytesInFlight q
      in if inFlight = 0 then conn
         else
           let mss = tcpMss cfg conn;
               threshold = max (2 * mss) (inFlight div 2)
           in conn\<lparr>congestionThreshold := threshold,
                   congestionWindow := (if is_timeout then mss else threshold),
                   congestionRecoveryUntil := Some (sndNxt q),
                   fastRetransmitAck := Some (sndUna q),
                   conn_pacer := snd (noteLoss (conn_pacer conn))\<rparr>)"

definition send_stored :: "config \<Rightarrow> segment option \<Rightarrow> (endpoint, unit) act" where
  "send_stored cfg seg =
     (case seg of
        None \<Rightarrow> throw (TypeError ''cannot read properties of undefined'')
      | Some s \<Rightarrow> ignore (sendTCP cfg (seg_payload s) (seg_flags s) (Some (seg_seq s)) False))"

definition retransmitTCPRecoveryHead :: "config \<Rightarrow> (endpoint, unit) act" where
  "retransmitTCPRecoveryHead cfg =
     the_conn (\<lambda>conn.
       (case oldest (retransmission conn) of
          None \<Rightarrow> ret ()
        | Some s \<Rightarrow>
            seq_act (on_conn (\<lambda>c. c\<lparr>fastRetransmitAck := Some (sndUna (retransmission c))\<rparr>))
              (send_stored cfg (Some s))))"

definition reached :: "u32 \<Rightarrow> u32 \<Rightarrow> bool" where
  "reached goal acked = (acked = goal \<or> seqLessThan goal acked)"

definition grow_window :: "config \<Rightarrow> int \<Rightarrow> tcp_conn \<Rightarrow> tcp_conn" where
  "grow_window cfg ackedDataBytes conn =
     (let mss = tcpMss cfg conn;
          current = max mss (if congestionWindow conn = 0 then mss else congestionWindow conn);
          increment = max 1 (mss * ackedDataBytes div current);
          cwnd = min (TCP_WINDOW_SIZE cfg) (current + increment)
      in conn\<lparr>congestionWindow := cwnd,
              conn_pacer := snd (noteAck ackedDataBytes (of_int cwnd) (conn_pacer conn))\<rparr>)"

definition onTCPCongestionAck :: "config \<Rightarrow> nat \<Rightarrow> u32 \<Rightarrow> (endpoint, unit) act" where
  "onTCPCongestionAck cfg ackedDataBytes ackNumber =
     the_conn (\<lambda>conn.
       if ackedDataBytes = 0 then ret ()
       else (case congestionRecoveryUntil conn of
           Some goal \<Rightarrow>
             if \<not> reached goal ackNumber then retransmitTCPRecoveryHead cfg
             else on_conn (\<lambda>c. c\<lparr>congestionRecoveryUntil := None\<rparr>)
         | None \<Rightarrow> on_conn (grow_window cfg (int ackedDataBytes))))"

definition isTCPCongestionRecoveryActive :: "tcp_conn \<Rightarrow> bool \<times> tcp_conn" where
  "isTCPCongestionRecoveryActive conn =
     (case congestionRecoveryUntil conn of
        None \<Rightarrow> (False, conn)
      | Some goal \<Rightarrow>
          if reached goal (sndUna (retransmission conn))
          then (False, conn\<lparr>congestionRecoveryUntil := None\<rparr>) else (True, conn))"

section \<open>The send queue\<close>

definition enqueueTCPData :: "config \<Rightarrow> bytes \<Rightarrow> tcp_conn \<Rightarrow> tcp_conn" where
  "enqueueTCPData cfg data conn =
     (let conn = conn\<lparr>sendQueue := sendQueue conn @ [data],
                      sendQueueBytes := sendQueueBytes conn + int (length data)\<rparr>
      in if \<not> sendSourcePaused conn \<and> sendQueueBytes conn \<ge> TCP_SEND_QUEUE_HIGH_WATER_BYTES cfg
         then conn\<lparr>sendSourcePaused := True, source_paused := True\<rparr> else conn)"

definition consumeTCPQueuedData :: "config \<Rightarrow> int \<Rightarrow> tcp_conn \<Rightarrow> tcp_conn" where
  "consumeTCPQueuedData cfg n conn =
     (let conn = conn\<lparr>sendQueueBytes := max 0 (sendQueueBytes conn - n)\<rparr>
      in if sendSourcePaused conn \<and> sendQueueBytes conn \<le> TCP_SEND_QUEUE_LOW_WATER_BYTES cfg
         then conn\<lparr>sendSourcePaused := False, source_paused := False\<rparr> else conn)"

definition take_queued :: "int \<Rightarrow> (endpoint, bytes) act" where
  "take_queued n = (\<lambda>(c, l). case takeQueuedBytes (sendQueue c) n of
     (r, queue) \<Rightarrow> (r, (c\<lparr>sendQueue := queue\<rparr>, l)))"

definition updateTCPWindow :: "u32 \<Rightarrow> u32 \<Rightarrow> int \<Rightarrow> tcp_conn \<Rightarrow> bool \<times> tcp_conn" where
  "updateTCPWindow sequence ackNumber window conn =
     (let stale = (case windowUpdate conn of
            None \<Rightarrow> False
          | Some (s, a) \<Rightarrow> seqLessThan sequence s \<or> (sequence = s \<and> seqLessThan ackNumber a))
      in if stale then (False, conn)
         else (vmWindow conn \<noteq> window,
               conn\<lparr>vmWindow := window, windowUpdate := Some (sequence, ackNumber)\<rparr>))"

section \<open>Acknowledging received data\<close>

definition clearDelayedTCPAck :: "tcp_conn \<Rightarrow> tcp_conn" where
  "clearDelayedTCPAck conn = conn\<lparr>receiveAckTimer := False, receiveAckPendingSegments := 0\<rparr>"

definition sendTCPAck :: "config \<Rightarrow> (endpoint, unit) act" where
  "sendTCPAck cfg =
     seq_act (on_conn clearDelayedTCPAck)
       (the_conn (\<lambda>conn. ignore (sendTCP cfg []
          (no_flags\<lparr>ack := True, windowSize := Some (tcpReceiveWindow (TCP_WINDOW_SIZE cfg) conn)\<rparr>)
          None True)))"

definition scheduleTCPAck :: "config \<Rightarrow> nat \<Rightarrow> bool \<Rightarrow> (endpoint, unit) act" where
  "scheduleTCPAck cfg accepted immediate =
     seq_act (on_conn (\<lambda>c. c\<lparr>receiveAckPendingSegments := receiveAckPendingSegments c + accepted\<rparr>))
       (the_conn (\<lambda>conn.
          if immediate \<or> TCP_ACK_DELAY_MS cfg = 0
             \<or> int (receiveAckPendingSegments conn) \<ge> TCP_ACK_EVERY_SEGMENTS cfg
             \<or> tcpReceiveWindow (TCP_WINDOW_SIZE cfg) conn = 0
          then sendTCPAck cfg
          else on_conn (\<lambda>c. c\<lparr>receiveAckTimer := True\<rparr>)))"

text \<open>The callback of the delayed acknowledgement timer; it runs only while the timer is armed.\<close>

definition ack_timer_fired :: "config \<Rightarrow> (endpoint, unit) act" where
  "ack_timer_fired cfg =
     the_conn (\<lambda>conn. if \<not> receiveAckTimer conn then ret ()
       else seq_act (on_conn (\<lambda>c. c\<lparr>receiveAckTimer := False\<rparr>))
         (the_conn (\<lambda>conn. whenever (conn_state conn \<noteq> CLOSED \<and> receiveAckPendingSegments conn > 0)
            (sendTCPAck cfg))))"

definition onTCPReceiveDrain :: "config \<Rightarrow> bool \<Rightarrow> (endpoint, unit) act" where
  "onTCPReceiveDrain cfg isCurrent =
     the_conn (\<lambda>conn. if \<not> isCurrent \<or> \<not> receiveBackpressured conn then ret ()
       else seq_act (on_conn (\<lambda>c. c\<lparr>receiveBackpressured := False\<rparr>)) (scheduleTCPAck cfg 0 True))"

text \<open>Serving an acknowledgement request of the receive path.\<close>

definition serve_ack :: "config \<Rightarrow> ack_request \<Rightarrow> (endpoint, unit) act" where
  "serve_ack cfg r =
     (case r of Ack_Now \<Rightarrow> scheduleTCPAck cfg 0 True | Ack_Segments n \<Rightarrow> scheduleTCPAck cfg n False)"

section \<open>Initialisation\<close>

definition initializeRetransmission :: "config \<Rightarrow> u32 \<Rightarrow> tcp_conn \<Rightarrow> tcp_conn result" where
  "initializeRetransmission cfg initialSequence conn =
     bind_result (ipv4Bytes (AddrString (tx_srcIP (tx conn)))) (\<lambda>src.
     bind_result (ipv4Bytes (AddrString (tx_dstIP (tx conn)))) (\<lambda>dst.
     bind_result (new_tcp_pacer cfg) (\<lambda>p.
     bind_result (new_rtq (uint initialSequence) True True (TCP_RTO_INITIAL_MS cfg)
         (TCP_RTO_MAX_MS cfg) (TCP_RTO_MAX_RETRANSMISSIONS cfg)) (\<lambda>q.
       Inr (conn\<lparr>tx := (tx conn)\<lparr>srcAddress := src, dstAddress := dst\<rparr>,
          congestionWindow := min (TCP_INITIAL_CWND_BYTES cfg) (TCP_WINDOW_SIZE cfg),
          congestionThreshold := TCP_WINDOW_SIZE cfg, congestionRecoveryUntil := None,
          fastRetransmitAck := None, sendQueueBytes := 0, sendSourcePaused := False,
          vmOutOfOrderBytes := 0, receiveBackpressured := False, receiveAckPendingSegments := 0,
          receiveAckTimer := False, conn_pacer := p, retransmission := q\<rparr>)))))"

end
