(* ===== verification/Tcp_Session.thy ===== *)
theory Tcp_Session
  imports Tcp_Sender Address_Pool Udp_Flow_Manager
begin

text \<open>
  The TCP connections of a session (relay.js): the two connection tables, the retransmission
  callbacks of a connection, its abort and its orderly end, the drain of its send queue to the VM
  and the opening of a reverse connection. Connection objects live in a store, because the tables,
  the stream handlers and the timers all refer to them; \<open>conns\<close> gives the object of an identity.
\<close>

section \<open>Sessions\<close>

record nat_entry =
  nat_address :: string
  nat_port :: nat
  nat_rule :: nat
  nat_lastSeen :: rat

text \<open>The setTimeout callbacks of a session that are not timers of a connection.\<close>

datatype session_task = Forget_Closed nat | Forget_Finished string nat | Expire_Nat nat

record session =
  s_link :: link
  clientIP :: string
  vmIP :: "string option"
  vmMAC :: "string option"
  bytesReceived :: nat
  udpFlows :: udp_manager
  conns :: "nat \<Rightarrow> tcp_conn"
  next_conn :: nat
  tcpConnections :: "(string, nat) jsmap"
  reverseTcpConnections :: "(nat, nat) jsmap"
  recentlyClosed :: "nat set"
  udpProxyNatTable :: "(nat, nat_entry) jsmap"
  session_tasks :: "session_task list"
  nickname :: "string option"

definition upd_conn :: "nat \<Rightarrow> (tcp_conn \<Rightarrow> tcp_conn) \<Rightarrow> session \<Rightarrow> session" where
  "upd_conn cid f S = S\<lparr>conns := (conns S)(cid := f (conns S cid))\<rparr>"

definition put_endpoint :: "nat \<Rightarrow> endpoint \<Rightarrow> session \<Rightarrow> session" where
  "put_endpoint cid p S = S\<lparr>conns := (conns S)(cid := fst p), s_link := snd p\<rparr>"

definition with_conn :: "nat \<Rightarrow> (endpoint, 'a) act \<Rightarrow> (session, 'a) act" where
  "with_conn cid m = inside (\<lambda>S. (conns S cid, s_link S)) (put_endpoint cid) m"

definition on_session_link :: "(link, 'a) act \<Rightarrow> (session, 'a) act" where
  "on_session_link m = inside s_link (\<lambda>l S. S\<lparr>s_link := l\<rparr>) m"

definition set_link :: "(link \<Rightarrow> link) \<Rightarrow> session \<Rightarrow> session" where
  "set_link f S = S\<lparr>s_link := f (s_link S)\<rparr>"

definition add_task :: "session_task \<Rightarrow> session \<Rightarrow> session" where
  "add_task t S = S\<lparr>session_tasks := session_tasks S @ [t]\<rparr>"

text \<open>The \<open>isCurrent\<close> closure of a connection: its table still maps its key to it.\<close>

definition lookup_key :: "conn_key \<Rightarrow> session \<Rightarrow> nat option" where
  "lookup_key k S =
     (case k of Forward key \<Rightarrow> map_get (tcpConnections S) key
      | Reverse port \<Rightarrow> map_get (reverseTcpConnections S) port)"

definition isCurrent :: "nat \<Rightarrow> session \<Rightarrow> bool" where
  "isCurrent cid S = (lookup_key (key_of (conns S cid)) S = Some cid)"

section \<open>Ending a connection\<close>

definition end_sink :: "tcp_conn \<Rightarrow> tcp_conn" where
  "end_sink c = c\<lparr>receiveSink := (receiveSink c)\<lparr>ended := True, writable := False\<rparr>\<rparr>"

definition destroy_sink :: "tcp_conn \<Rightarrow> tcp_conn" where
  "destroy_sink c = c\<lparr>receiveSink := (receiveSink c)\<lparr>destroyed := True, writable := False\<rparr>\<rparr>"

definition destroy_source :: "tcp_conn \<Rightarrow> tcp_conn" where
  "destroy_source c = c\<lparr>source_destroyed := True\<rparr>"

definition settle_promise :: "promise \<Rightarrow> tcp_conn \<Rightarrow> tcp_conn" where
  "settle_promise p c = (if conn_promise c = Pending then c\<lparr>conn_promise := p\<rparr> else c)"

text \<open>What every end of a connection does: state, waiter, pacer, delayed ACK, retransmission.\<close>

definition stop_timers :: "tcp_conn \<Rightarrow> tcp_conn" where
  "stop_timers c = (clearDelayedTCPAck (c\<lparr>conn_pacer := close_pacer (conn_pacer c)\<rparr>))
     \<lparr>retransmission := close_rtq (retransmission c)\<rparr>"

definition shut_conn :: "nat \<Rightarrow> session \<Rightarrow> session" where
  "shut_conn cid S =
     (let S = upd_conn cid (\<lambda>c. c\<lparr>conn_state := CLOSED\<rparr>) S;
          S = set_link (\<lambda>l. l\<lparr>tcpTransportWaiters := map_delete cid (tcpTransportWaiters l)\<rparr>) S
      in upd_conn cid stop_timers S)"

definition send_reset :: "config \<Rightarrow> nat \<Rightarrow> bool \<Rightarrow> (session, unit) act" where
  "send_reset cfg cid sendReset =
     reads (ws_open \<circ> s_link) (\<lambda>is_open. whenever (sendReset \<and> is_open)
       (with_conn cid (ignore (sendTCP cfg [] (no_flags\<lparr>rst := True, ack := True\<rparr>) None True))))"

definition clearReverseConnTimer :: "nat \<Rightarrow> session \<Rightarrow> session" where
  "clearReverseConnTimer connKey S =
     (case map_get (reverseTcpConnections S) connKey of
        None \<Rightarrow> S
      | Some cid \<Rightarrow> if idleTimer (conns S cid) then upd_conn cid (\<lambda>c. c\<lparr>idleTimer := False\<rparr>) S else S)"

definition bumpReverseConnActivity :: "nat \<Rightarrow> session \<Rightarrow> session" where
  "bumpReverseConnActivity connKey S =
     (case map_get (reverseTcpConnections S) connKey of
        None \<Rightarrow> S | Some cid \<Rightarrow> upd_conn cid (\<lambda>c. c\<lparr>idleTimer := True\<rparr>) S)"

definition remember_closed :: "nat \<Rightarrow> session \<Rightarrow> session" where
  "remember_closed connKey S =
     add_task (Forget_Closed connKey) (S\<lparr>recentlyClosed := insert connKey (recentlyClosed S)\<rparr>)"

definition drop_reverse :: "nat \<Rightarrow> session \<Rightarrow> session" where
  "drop_reverse connKey S =
     (clearReverseConnTimer connKey S)
       \<lparr>reverseTcpConnections := map_delete connKey (reverseTcpConnections S)\<rparr>"

definition abortReverseConnection ::
  "config \<Rightarrow> nat \<Rightarrow> nat \<Rightarrow> js_error \<Rightarrow> bool \<Rightarrow> (session, unit) act" where
  "abortReverseConnection cfg connKey cid err sendReset =
     reads (\<lambda>S. map_get (reverseTcpConnections S) connKey) (\<lambda>found.
       if found \<noteq> Some cid then ret ()
       else block [
         send_reset cfg cid sendReset,
         modify (shut_conn cid),
         modify (drop_reverse connKey),
         modify (upd_conn cid (\<lambda>c. settle_promise (Rejected err) (destroy_sink (destroy_source c)))),
         modify (remember_closed connKey)])"

definition finishReverseConnection :: "nat \<Rightarrow> nat \<Rightarrow> session \<Rightarrow> session" where
  "finishReverseConnection connKey cid S =
     (if map_get (reverseTcpConnections S) connKey \<noteq> Some cid then S
      else remember_closed connKey
        (upd_conn cid (\<lambda>c. destroy_source (end_sink c)) (drop_reverse connKey (shut_conn cid S))))"

definition abortTCPConnection ::
  "config \<Rightarrow> string \<Rightarrow> nat \<Rightarrow> js_error \<Rightarrow> bool \<Rightarrow> (session, unit) act" where
  "abortTCPConnection cfg connKey cid err sendReset =
     reads (\<lambda>S. map_get (tcpConnections S) connKey) (\<lambda>found.
       if found \<noteq> Some cid then ret ()
       else block [
         modify (shut_conn cid),
         modify (\<lambda>S. S\<lparr>tcpConnections := map_delete connKey (tcpConnections S)\<rparr>),
         send_reset cfg cid sendReset,
         modify (upd_conn cid (\<lambda>c. destroy_sink (destroy_source c)))])"

definition finishTCPConnection :: "string \<Rightarrow> nat \<Rightarrow> session \<Rightarrow> session" where
  "finishTCPConnection connKey cid S =
     (if map_get (tcpConnections S) connKey \<noteq> Some cid then S
      else add_task (Forget_Finished connKey cid) (upd_conn cid end_sink (shut_conn cid S)))"

definition abort_conn :: "config \<Rightarrow> nat \<Rightarrow> js_error \<Rightarrow> bool \<Rightarrow> (session, unit) act" where
  "abort_conn cfg cid err sendReset =
     reads (\<lambda>S. key_of (conns S cid)) (\<lambda>k. case k of
       Forward key \<Rightarrow> abortTCPConnection cfg key cid err sendReset
     | Reverse port \<Rightarrow> abortReverseConnection cfg port cid err sendReset)"

definition finish_conn :: "nat \<Rightarrow> session \<Rightarrow> session" where
  "finish_conn cid S =
     (case key_of (conns S cid) of
        Forward key \<Rightarrow> finishTCPConnection key cid S
      | Reverse port \<Rightarrow> finishReverseConnection port cid S)"

text \<open>The idle timeout looks the connection up again and aborts what it finds.\<close>

definition idle_timeout :: "config \<Rightarrow> nat \<Rightarrow> (session, unit) act" where
  "idle_timeout cfg connKey =
     reads (\<lambda>S. map_get (reverseTcpConnections S) connKey) (\<lambda>found. case found of
       None \<Rightarrow> ret ()
     | Some stale \<Rightarrow>
         abortReverseConnection cfg connKey stale (GenericError ''Reverse TCP connection timed out'') True)"

definition run_task :: "session_task \<Rightarrow> rat \<Rightarrow> session \<Rightarrow> session" where
  "run_task t now S =
     (case t of
        Forget_Closed k \<Rightarrow> S\<lparr>recentlyClosed := recentlyClosed S - {k}\<rparr>
      | Forget_Finished key cid \<Rightarrow>
          if map_get (tcpConnections S) key = Some cid
          then S\<lparr>tcpConnections := map_delete key (tcpConnections S)\<rparr> else S
      | Expire_Nat port \<Rightarrow>
          (case map_get (udpProxyNatTable S) port of
             Some e \<Rightarrow> if now - nat_lastSeen e > 30000
                       then S\<lparr>udpProxyNatTable := map_delete port (udpProxyNatTable S)\<rparr> else S
           | None \<Rightarrow> S))"

section \<open>The retransmission callbacks of a connection\<close>

definition close_queue :: "(endpoint, unit) act" where
  "close_queue = on_conn (\<lambda>c. c\<lparr>retransmission := close_rtq (retransmission c)\<rparr>)"

definition conn_retransmit :: "config \<Rightarrow> bool \<Rightarrow> segment option \<Rightarrow> retransmit_reason \<Rightarrow> (endpoint, unit) act" where
  "conn_retransmit cfg current seg reason =
     (if \<not> current then close_queue
      else seq_act
        (whenever (reason \<noteq> Window_Open)
           (on_conn (onTCPCongestionLoss cfg (reason = Timeout_Retransmit))))
        (send_stored cfg seg))"

definition probe_segment :: "config \<Rightarrow> segment \<Rightarrow> (endpoint, unit) act" where
  "probe_segment cfg s =
     ignore (sendTCP cfg (take 1 (seg_payload s))
       (no_flags\<lparr>ack := True, fin := seg_payload s = [] \<and> fin (seg_flags s)\<rparr>) (Some (seg_seq s)) False)"

definition probe_new_data :: "config \<Rightarrow> (endpoint, unit) act" where
  "probe_new_data cfg =
     the_conn (\<lambda>conn.
       if sendQueueBytes conn > 0
       then andthen (take_queued 1) (\<lambda>byte.
         seq_act (sendTrackedTCP cfg byte (no_flags\<lparr>ack := True\<rparr>) None True)
           (on_conn (consumeTCPQueuedData cfg 1)))
       else if pendingFin conn
       then seq_act (on_conn (\<lambda>c. c\<lparr>pendingFin := False, finSent := True, conn_state := FIN_WAIT\<rparr>))
         (sendTrackedTCP cfg [] (no_flags\<lparr>fin := True, ack := True\<rparr>) None True)
       else ret ())"

text \<open>The result is whether the JavaScript callback returned something other than \<open>false\<close>.\<close>

definition conn_probe :: "config \<Rightarrow> bool \<Rightarrow> segment option \<Rightarrow> (endpoint, bool) act" where
  "conn_probe cfg current seg =
     reads id (\<lambda>(conn, l).
       if \<not> current \<or> conn_state conn = CLOSED then andthen close_queue (\<lambda>_. ret True)
       else if bufferedAmount l > 32768 then ret False
       else andthen (case seg of Some s \<Rightarrow> probe_segment cfg s | None \<Rightarrow> probe_new_data cfg)
              (\<lambda>_. ret True))"

definition conn_host :: "config \<Rightarrow> nat \<Rightarrow> session rtq_host" where
  "conn_host cfg cid =
     \<lparr>queue_of = (\<lambda>S. retransmission (conns S cid)),
      on_queue = (\<lambda>f. upd_conn cid (\<lambda>c. c\<lparr>retransmission := f (retransmission c)\<rparr>)),
      onRetransmit = (\<lambda>seg reason S.
        case with_conn cid (conn_retransmit cfg (isCurrent cid S) seg reason) S of
          (Inl e, S) \<Rightarrow> (Some e, S) | (Inr _, S) \<Rightarrow> (None, S)),
      onExhausted = (\<lambda>e seg S. exec (abort_conn cfg cid e True) S),
      onPersistProbe = (\<lambda>seg S. with_conn cid (conn_probe cfg (isCurrent cid S) seg) S)\<rparr>"

definition fast_retransmit_conn :: "config \<Rightarrow> nat \<Rightarrow> (session, unit) act" where
  "fast_retransmit_conn cfg cid = modify (\<lambda>S. snd (fastRetransmit (conn_host cfg cid) S))"

definition set_persist_conn :: "config \<Rightarrow> nat \<Rightarrow> bool \<Rightarrow> (session, unit) act" where
  "set_persist_conn cfg cid enabled = (\<lambda>S.
     case setPersist (conn_host cfg cid) enabled S of
       (Some e, S) \<Rightarrow> (Inl e, S) | (None, S) \<Rightarrow> (Inr (), S))"

section \<open>Draining the send queue\<close>

definition set_conn :: "nat \<Rightarrow> (tcp_conn \<Rightarrow> tcp_conn) \<Rightarrow> (session, unit) act" where
  "set_conn cid f = modify (upd_conn cid f)"

definition conn_at :: "nat \<Rightarrow> (tcp_conn \<Rightarrow> (session, 'a) act) \<Rightarrow> (session, 'a) act" where
  "conn_at cid k = reads (\<lambda>S. conns S cid) k"

text \<open>maybeSendTCPFin and maybeSendReverseFin; they differ only in the table that is consulted.\<close>

definition maybeSendFin :: "config \<Rightarrow> nat \<Rightarrow> (session, unit) act" where
  "maybeSendFin cfg cid =
     conn_at cid (\<lambda>conn.
       if \<not> pendingFin conn \<or> finSent conn \<or> sendQueue conn \<noteq> []
          \<or> payloadBytesInFlight (retransmission conn) \<ge> vmWindow conn
       then ret ()
       else
         let (active, conn') = isTCPCongestionRecoveryActive conn
         in seq_act (set_conn cid (\<lambda>_. conn'))
           (reads (isCurrent cid) (\<lambda>current.
              if active \<or> \<not> current then ret ()
              else seq_act (set_conn cid (\<lambda>c. c\<lparr>pendingFin := False, finSent := True, conn_state := FIN_WAIT\<rparr>))
                (with_conn cid (sendTrackedTCP cfg [] (no_flags\<lparr>fin := True, ack := True\<rparr>) None True)))))"

definition notePacedTCPSegment :: "nat \<Rightarrow> (session, bool) act" where
  "notePacedTCPSegment cid = (\<lambda>S.
     case noteSegment (now_ms (s_link S)) (drawn (s_link S)) (conn_pacer (conns S cid)) of
       (paced, p) \<Rightarrow>
         (Inr paced, upd_conn cid (\<lambda>c. if paced then c\<lparr>conn_pacer := p, sending := False\<rparr>
                                         else c\<lparr>conn_pacer := p\<rparr>) S))"

definition stop_sending :: "nat \<Rightarrow> (session, unit) act" where
  "stop_sending cid = set_conn cid (\<lambda>c. c\<lparr>sending := False\<rparr>)"

definition try_consume :: "int \<Rightarrow> (session, bool) act" where
  "try_consume n = (\<lambda>S.
     case tryConsume (now_ms (s_link S)) (Num (of_int n)) (rateLimiter (s_link S)) of
       (r, rl) \<Rightarrow> (r, set_link (\<lambda>l. l\<lparr>rateLimiter := rl\<rparr>) S))"

definition schedule_resume :: "nat \<Rightarrow> nat \<Rightarrow> session \<Rightarrow> session" where
  "schedule_resume delay cid S =
     set_link (\<lambda>l. l\<lparr>resumes := resumes l @ [(delay, key_of (conns S cid))]\<rparr>) S"

definition wait_for_transport :: "nat \<Rightarrow> session \<Rightarrow> session" where
  "wait_for_transport cid S =
     set_link (\<lambda>l. l\<lparr>tcpTransportWaiters := map_set cid (key_of (conns S cid)) (tcpTransportWaiters l)\<rparr>) S"

text \<open>
  What the loop computes before it sends: the bytes the window and the congestion state leave, and
  how many of them the next segment takes. The test of the recovery may end the recovery.
\<close>

definition next_chunk :: "config \<Rightarrow> tcp_conn \<Rightarrow> int \<times> int \<times> tcp_conn" where
  "next_chunk cfg conn =
     (let inFlightBytes = payloadBytesInFlight (retransmission conn);
          sendLimit = tcpSendLimit cfg conn;
          (active, conn) = isTCPCongestionRecoveryActive conn;
          available = (if active then 0 else max 0 (sendLimit - inFlightBytes))
      in (available, min (tcpMss cfg conn) (min (sendQueueBytes conn) available), conn))"

text \<open>The part of an iteration after the rate limiter; the result is whether the loop goes on.\<close>

definition drain_send :: "config \<Rightarrow> nat \<Rightarrow> nat \<Rightarrow> int \<Rightarrow> int \<Rightarrow> (session, bool) act" where
  "drain_send cfg cid cooperativeSegments available toSend =
     andthen (with_conn cid (take_queued toSend)) (\<lambda>chunk.
     andthen (with_conn cid (sendTrackedTCP cfg chunk (no_flags\<lparr>ack := True, psh := True\<rparr>) None True)) (\<lambda>_.
     andthen (set_conn cid (consumeTCPQueuedData cfg toSend)) (\<lambda>_.
     andthen (notePacedTCPSegment cid) (\<lambda>paced.
       if paced then ret False
       else conn_at cid (\<lambda>conn.
         if sendQueue conn = [] \<or> available \<le> toSend
         then andthen (stop_sending cid) (\<lambda>_. andthen (maybeSendFin cfg cid) (\<lambda>_. ret False))
         else if isOff (conn_pacer conn) \<and> cooperativeSegments + 1 \<ge> 64
         then andthen (stop_sending cid) (\<lambda>_. andthen (modify (schedule_resume 0 cid)) (\<lambda>_. ret False))
         else ret True)))))"

definition drain_step :: "config \<Rightarrow> nat \<Rightarrow> bool \<Rightarrow> nat \<Rightarrow> (session, bool) act" where
  "drain_step cfg cid rateLimited cooperativeSegments =
     reads id (\<lambda>S. let conn = conns S cid in
       if \<not> isCurrent cid S then andthen (stop_sending cid) (\<lambda>_. ret False)
       else if sendQueue conn = []
       then andthen (stop_sending cid) (\<lambda>_. andthen (maybeSendFin cfg cid) (\<lambda>_. ret False))
       else if bufferedAmount (s_link S) > 32768
       then andthen (stop_sending cid) (\<lambda>_. andthen (modify (wait_for_transport cid)) (\<lambda>_. ret False))
       else
         let (available, toSend, conn) = next_chunk cfg conn
         in andthen (set_conn cid (\<lambda>_. conn)) (\<lambda>_.
            if toSend \<le> 0 then andthen (stop_sending cid) (\<lambda>_. ret False)
            else andthen (if rateLimited then try_consume toSend else ret True) (\<lambda>allowed.
              if \<not> allowed
              then andthen (stop_sending cid) (\<lambda>_. andthen (modify (schedule_resume 20 cid)) (\<lambda>_. ret False))
              else drain_send cfg cid cooperativeSegments available toSend)))"

text \<open>
  The loop with fuel; every iteration that goes on takes at least one byte off the send queue, so
  the bytes queued plus one are enough fuel.
\<close>

primrec send_pending :: "config \<Rightarrow> nat \<Rightarrow> bool \<Rightarrow> nat \<Rightarrow> nat \<Rightarrow> (session, unit) act" where
  "send_pending cfg cid rateLimited 0 cooperativeSegments = ret ()"
| "send_pending cfg cid rateLimited (Suc fuel) cooperativeSegments =
     andthen (drain_step cfg cid rateLimited cooperativeSegments) (\<lambda>continue.
       if continue then send_pending cfg cid rateLimited fuel (cooperativeSegments + 1) else ret ())"

definition must_probe :: "tcp_conn \<Rightarrow> bool" where
  "must_probe conn \<longleftrightarrow> vmWindow conn = 0 \<and>
     (hasOutstanding (retransmission conn) \<or> sendQueueBytes conn > 0 \<or> pendingFin conn)"

definition drainTCPToVM :: "config \<Rightarrow> nat \<Rightarrow> bool \<Rightarrow> (session, unit) act" where
  "drainTCPToVM cfg cid rateLimited =
     seq_act (set_conn cid (\<lambda>c. c\<lparr>sending := True\<rparr>))
     (seq_act (conn_at cid (\<lambda>conn. set_persist_conn cfg cid (must_probe conn)))
       (conn_at cid (\<lambda>conn. send_pending cfg cid rateLimited (Suc (length (concat (sendQueue conn)))) 0)))"

definition trySendReverseToVM :: "config \<Rightarrow> nat \<Rightarrow> (session, unit) act" where
  "trySendReverseToVM cfg connKey =
     reads id (\<lambda>S. case map_get (reverseTcpConnections S) connKey of
       None \<Rightarrow> ret ()
     | Some cid \<Rightarrow>
         let conn = conns S cid
         in if sending conn \<or> blocked (conn_pacer conn)
               \<or> (conn_state conn \<noteq> ESTABLISHED \<and> conn_state conn \<noteq> FIN_WAIT \<and> conn_state conn \<noteq> CLOSING)
            then ret () else drainTCPToVM cfg cid False)"

definition trySendToVM :: "config \<Rightarrow> string \<Rightarrow> (session, unit) act" where
  "trySendToVM cfg connKey =
     reads id (\<lambda>S. case map_get (tcpConnections S) connKey of
       None \<Rightarrow> ret ()
     | Some cid \<Rightarrow>
         let conn = conns S cid
         in if sending conn \<or> blocked (conn_pacer conn) \<or> conn_state conn = SYN_SENT
            then ret () else drainTCPToVM cfg cid True)"

definition try_send :: "config \<Rightarrow> conn_key \<Rightarrow> (session, unit) act" where
  "try_send cfg k =
     (case k of Forward key \<Rightarrow> trySendToVM cfg key | Reverse port \<Rightarrow> trySendReverseToVM cfg port)"

section \<open>Timers of a connection\<close>

definition rtq_timer_fired :: "config \<Rightarrow> nat \<Rightarrow> nat \<Rightarrow> session \<Rightarrow> session" where
  "rtq_timer_fired cfg cid generation S = timer_callback (conn_host cfg cid) generation S"

definition pacer_timer_fired :: "config \<Rightarrow> nat \<Rightarrow> (session, unit) act" where
  "pacer_timer_fired cfg cid =
     conn_at cid (\<lambda>conn. if timer (conn_pacer conn) = None then ret ()
       else seq_act (set_conn cid (\<lambda>c. c\<lparr>conn_pacer := timer_fired (conn_pacer c)\<rparr>))
         (try_send cfg (key_of conn)))"

section \<open>Opening a reverse connection\<close>

primrec pick_port :: "nat \<Rightarrow> (nat \<Rightarrow> bool) \<Rightarrow> nat \<Rightarrow> nat option \<times> nat" where
  "pick_port 0 taken next = (None, if next + 1 > 65535 then 30000 else next + 1)"
| "pick_port (Suc attempts) taken next =
     (let next' = (if next + 1 > 65535 then 30000 else next + 1)
      in if taken next then pick_port attempts taken next' else (Some next, next'))"

definition port_taken :: "session \<Rightarrow> nat \<Rightarrow> bool" where
  "port_taken S port = (map_has (reverseTcpConnections S) port \<or> port \<in> recentlyClosed S)"

definition open_sink :: sink where
  "open_sink = \<lparr>writable = True, written = [], writableCorked = 0, ended = False, destroyed = False\<rparr>"

definition idle_pacer :: pacer where
  "idle_pacer = \<lparr>mode = Off, initialBurstSegments = 1, maxBurstSegments = 1, intervalMs = 0,
     burstSegments = 1, segmentsInBurst = 0, ackedBytes = 0, lastSegmentAt = None, blocked = False,
     timer = None\<rparr>"

definition no_rtq :: rtq where
  "no_rtq = \<lparr>sndUna = 0, sndNxt = 0, can_probe = False, persist = False, initialRtoMs = 1, maxRtoMs = 1,
     maxRetransmissions = 1, currentRtoMs = 1, timeoutRetransmissions = 0, rtq_segments = [],
     payloadBytesInFlight = 0, rtq_timer = None, timerGeneration = 0, rtq_closed = True,
     exhausted = False\<rparr>"

text \<open>
  The object literal of a new connection. The pacer and the queue are absent until
  initializeRetransmission, which is called next; the model puts inert ones in their place.
\<close>

definition new_conn :: "nat \<Rightarrow> conn_key \<Rightarrow> tx_info \<Rightarrow> u32 \<Rightarrow> u32 \<Rightarrow> u32 \<Rightarrow> int \<Rightarrow> int \<Rightarrow> tcp_conn" where
  "new_conn cid key t vm_seq relay_seq last_ack window mss =
     \<lparr>vmSeq = vm_seq, vmOutOfOrder = [], vmOutOfOrderBytes = 0, receiveBackpressured = False,
      receiveSink = open_sink, conn_id = cid, key_of = key, conn_state = SYN_SENT, tx = t,
      relaySeq = relay_seq, vmLastAck = last_ack, vmWindow = window, sendMss = mss, sendQueue = [],
      sendQueueBytes = 0, sendSourcePaused = False, source_paused = False, source_destroyed = False,
      sending = False, dupAckCount = 0, pendingFin = False, finSent = False, peerFin = False,
      windowUpdate = None, congestionWindow = 0, congestionThreshold = 0,
      congestionRecoveryUntil = None, fastRetransmitAck = None, receiveAckPendingSegments = 0,
      receiveAckTimer = False, idleTimer = False, conn_pacer = idle_pacer, retransmission = no_rtq,
      conn_promise = Pending\<rparr>"

definition reverse_conn :: "config \<Rightarrow> nat \<Rightarrow> nat \<Rightarrow> nat \<Rightarrow> string \<Rightarrow> u32 \<Rightarrow> tcp_conn" where
  "reverse_conn cfg cid srcPort port dst isn =
     new_conn cid (Reverse srcPort)
       \<lparr>tx_srcPort = srcPort, tx_dstPort = port, tx_srcIP = GATEWAY_IP cfg, tx_dstIP = dst,
        srcAddress = [], dstAddress = []\<rparr>
       0 isn isn (TCP_WINDOW_SIZE cfg) (TCP_MSS cfg)"

definition store_conn :: "nat \<Rightarrow> tcp_conn \<Rightarrow> session \<Rightarrow> session" where
  "store_conn cid conn S =
     (let S = S\<lparr>conns := (conns S)(cid := conn), next_conn := next_conn S + 1\<rparr>
      in case key_of conn of
           Forward key \<Rightarrow> S\<lparr>tcpConnections := map_set key cid (tcpConnections S)\<rparr>
         | Reverse port \<Rightarrow> S\<lparr>reverseTcpConnections := map_set port cid (reverseTcpConnections S)\<rparr>)"

text \<open>
  \<open>port\<close> is the VM's port (at most 65535), \<open>isn\<close> the random initial sequence number. The result is
  the connection's identity, or the error the promise is rejected with, and the next proxy port.
  When initializeRetransmission throws, the connection is not entered here (the code leaves it in
  the table without a queue): configurations whose retransmission settings the queue's constructor
  rejects are not modelled beyond this point.
\<close>

definition createTCPConnection ::
  "config \<Rightarrow> nat \<Rightarrow> u32 \<Rightarrow> nat \<Rightarrow> session \<Rightarrow> nat \<times> nat result \<times> session" where
  "createTCPConnection cfg port isn nextProxyPort S =
     (case pick_port 1000 (port_taken S) nextProxyPort of
        (None, next') \<Rightarrow> (next', Inl (GenericError ''No available proxy ports''), S)
      | (Some srcPort, next') \<Rightarrow>
          let cid = next_conn S;
              dst = (case vmIP S of Some ip \<Rightarrow> ip | None \<Rightarrow> ''null'')
          in (case initializeRetransmission cfg isn (reverse_conn cfg cid srcPort port dst isn) of
                Inl e \<Rightarrow> (next', Inl e, S)
              | Inr conn \<Rightarrow>
                  let S = bumpReverseConnActivity srcPort (store_conn cid conn S)
                  in (case with_conn cid (sendTrackedTCP cfg [] (no_flags\<lparr>syn := True\<rparr>) None True) S of
                        (Inl e, S) \<Rightarrow> (next', Inl e, S)
                      | (Inr _, S) \<Rightarrow> (next', Inr cid, S))))"

text \<open>The handlers of the streams of a reverse connection.\<close>

definition upstream_data :: "config \<Rightarrow> nat \<Rightarrow> nat \<Rightarrow> bytes \<Rightarrow> (session, unit) act" where
  "upstream_data cfg connKey cid data = block [
     modify (bumpReverseConnActivity connKey),
     set_conn cid (enqueueTCPData cfg data),
     trySendReverseToVM cfg connKey]"

definition upstream_close :: "config \<Rightarrow> nat \<Rightarrow> nat \<Rightarrow> (session, unit) act" where
  "upstream_close cfg connKey cid =
     reads id (\<lambda>S.
       if map_get (reverseTcpConnections S) connKey \<noteq> Some cid \<or> conn_state (conns S cid) = CLOSED
       then ret ()
       else block [
         modify (bumpReverseConnActivity connKey),
         set_conn cid (\<lambda>c. c\<lparr>pendingFin := True\<rparr>),
         trySendReverseToVM cfg connKey])"

definition sink_drained :: "config \<Rightarrow> nat \<Rightarrow> (session, unit) act" where
  "sink_drained cfg cid =
     reads (isCurrent cid) (\<lambda>current. with_conn cid (onTCPReceiveDrain cfg current))"

end
