(* ===== verification/Tcp_Handlers.thy ===== *)
theory Tcp_Handlers
  imports Tcp_Session
begin

text \<open>
  The two handlers of TCP packets from a VM (relay.js): handleTCP for connections the VM opens to
  the Internet and handleReverseTCP for connections the relay opens to the VM, with the handlers of
  the socket behind a forward connection. The parts of a handler that may return early return
  whether the rest runs.
\<close>

section \<open>The TCP header\<close>

record tcp_header =
  th_srcPort :: nat
  th_dstPort :: nat
  th_seq :: u32
  th_ack :: u32
  th_window :: nat
  SYN :: bool
  ACK :: bool
  FIN :: bool
  RST :: bool
  th_payload :: bytes
  th_options :: tcp_options
  th_bare :: bool

text \<open>
  The checks and reads at the head of both handlers; \<open>None\<close> is their early return. \<open>th_options\<close> is
  parseTCPOptions of the bytes between the fixed header and the data offset, and \<open>th_bare\<close> says
  that the packet ends with its header. The option bounds are inside the packet, so the parser
  does not throw.
\<close>

definition parse_tcp :: "bytes \<Rightarrow> tcp_header option" where
  "parse_tcp ipPacket =
     (let ihl = unat (byte_at ipPacket 0 AND 0x0f) * 4
      in if length ipPacket < ihl + 20 then None
         else
           let flags = byte_at ipPacket (ihl + 13);
               dataOffset = unat (drop_bit 4 (byte_at ipPacket (ihl + 12))) * 4
           in if dataOffset < 20 \<or> ihl + dataOffset > length ipPacket then None
              else Some \<lparr>th_srcPort = u16be ipPacket ihl, th_dstPort = u16be ipPacket (ihl + 2),
                th_seq = u32be ipPacket (ihl + 4), th_ack = u32be ipPacket (ihl + 8),
                th_window = u16be ipPacket (ihl + 14),
                SYN = (flags AND 0x02 \<noteq> 0), ACK = (flags AND 0x10 \<noteq> 0),
                FIN = (flags AND 0x01 \<noteq> 0), RST = (flags AND 0x04 \<noteq> 0),
                th_payload = drop (ihl + dataOffset) ipPacket,
                th_options = (if dataOffset > 20
                   then (case parseTCPOptions ipPacket (int (ihl + 20)) (int (ihl + dataOffset)) of
                           Inr opts \<Rightarrow> opts | Inl _ \<Rightarrow> no_options)
                   else no_options),
                th_bare = (length ipPacket = ihl + dataOffset)\<rparr>)"

definition option_mss :: "tcp_options \<Rightarrow> int" where
  "option_mss opts = (case opt_mss opts of Some m \<Rightarrow> int m | None \<Rightarrow> TCP_FALLBACK_MSS)"

section \<open>Acknowledgements\<close>

text \<open>\<open>conn.retransmission.acknowledge(ackNum)\<close> on the connection's own queue.\<close>

definition acknowledge_conn :: "nat \<Rightarrow> u32 \<Rightarrow> (session, ack_status \<times> nat) act" where
  "acknowledge_conn cid ackNum = (\<lambda>S.
     case acknowledge ackNum (retransmission (conns S cid)) of
       (r, q) \<Rightarrow> (r, upd_conn cid (\<lambda>c. c\<lparr>retransmission := q\<rparr>) S))"

definition update_window_conn :: "nat \<Rightarrow> tcp_header \<Rightarrow> (session, bool) act" where
  "update_window_conn cid h = (\<lambda>S.
     case updateTCPWindow (th_seq h) (th_ack h) (int (th_window h)) (conns S cid) of
       (changed, conn) \<Rightarrow> (Inr changed, upd_conn cid (\<lambda>_. conn) S))"

text \<open>What an advancing acknowledgement does to the connection.\<close>

definition ack_advanced :: "config \<Rightarrow> nat \<Rightarrow> tcp_header \<Rightarrow> nat \<Rightarrow> (session, unit) act" where
  "ack_advanced cfg cid h ackedDataBytes =
     seq_act (set_conn cid (\<lambda>c. c\<lparr>dupAckCount := 0, fastRetransmitAck := None,
                                 vmLastAck := sndUna (retransmission c)\<rparr>))
       (with_conn cid (onTCPCongestionAck cfg ackedDataBytes (th_ack h)))"

definition counts_as_duplicate :: "tcp_header \<Rightarrow> bool \<Rightarrow> tcp_conn \<Rightarrow> bool" where
  "counts_as_duplicate h windowChanged conn \<longleftrightarrow>
     vmWindow conn > 0 \<and> \<not> windowChanged \<and> \<not> SYN h \<and> \<not> FIN h \<and> th_bare h
     \<and> hasOutstanding (retransmission conn)"

definition count_duplicate :: "config \<Rightarrow> nat \<Rightarrow> tcp_header \<Rightarrow> (session, unit) act" where
  "count_duplicate cfg cid h =
     seq_act (set_conn cid (\<lambda>c. c\<lparr>dupAckCount := dupAckCount c + 1\<rparr>))
       (conn_at cid (\<lambda>conn. whenever (dupAckCount conn = 3)
          (seq_act (whenever (fastRetransmitAck conn \<noteq> Some (th_ack h)) (fast_retransmit_conn cfg cid))
            (set_conn cid (\<lambda>c. c\<lparr>dupAckCount := 0\<rparr>)))))"

definition closing_done :: "tcp_conn \<Rightarrow> bool" where
  "closing_done conn \<longleftrightarrow> peerFin conn \<and> finSent conn \<and> \<not> hasOutstanding (retransmission conn)"

section \<open>Reverse connections\<close>

definition reverse_unknown :: "config \<Rightarrow> ipv4_packet \<Rightarrow> tcp_header \<Rightarrow> (session, unit) act" where
  "reverse_unknown cfg parsed h =
     reads recentlyClosed (\<lambda>closed.
       if th_dstPort h \<in> closed then ret ()
       else whenever (\<not> RST h)
         (let r = getReverseFlow (ip_srcIP parsed) (ip_dstIP parsed) (th_srcPort h) (th_dstPort h)
          in on_session_link (sendRSTForReverse cfg (relaySrcPort r) (relayDstPort r)
               (AddrString (relaySrcIP r)) (AddrString (relayDstIP r)) (th_ack h))))"

definition reverse_established :: "config \<Rightarrow> tcp_header \<Rightarrow> tcp_conn \<Rightarrow> tcp_conn" where
  "reverse_established cfg h conn =
     conn\<lparr>conn_state := ESTABLISHED, vmSeq := th_seq h + 1, vmLastAck := sndUna (retransmission conn),
          vmWindow := int (th_window h), sendMss := min (TCP_MSS cfg) (option_mss (th_options h))\<rparr>"

definition reverse_handshake :: "config \<Rightarrow> nat \<Rightarrow> nat \<Rightarrow> tcp_header \<Rightarrow> (session, unit) act" where
  "reverse_handshake cfg connKey cid h =
     andthen (acknowledge_conn cid (th_ack h)) (\<lambda>(status, _).
     conn_at cid (\<lambda>conn.
       if status \<noteq> Advanced \<or> hasOutstanding (retransmission conn) then ret ()
       else block [
         set_conn cid (reverse_established cfg h),
         with_conn cid (sendTCPAck cfg),
         set_conn cid (settle_promise Resolved),
         trySendReverseToVM cfg connKey]))"

definition reverse_ack :: "config \<Rightarrow> nat \<Rightarrow> nat \<Rightarrow> tcp_header \<Rightarrow> (session, bool) act" where
  "reverse_ack cfg connKey cid h =
     (if \<not> ACK h then ret True
      else andthen (acknowledge_conn cid (th_ack h)) (\<lambda>(status, acked).
        if status = Future \<or> status = Stale then ret False
        else andthen (update_window_conn cid h) (\<lambda>windowChanged.
          andthen
            (if status = Advanced
             then andthen (ack_advanced cfg cid h acked) (\<lambda>_.
               conn_at cid (\<lambda>conn.
                 if closing_done conn
                 then andthen (modify (finishReverseConnection connKey cid)) (\<lambda>_. ret False)
                 else andthen (trySendReverseToVM cfg connKey) (\<lambda>_. ret True)))
             else conn_at cid (\<lambda>conn.
               if counts_as_duplicate h windowChanged conn
               then andthen (count_duplicate cfg cid h) (\<lambda>_. ret True) else ret True))
            (\<lambda>continue.
              if \<not> continue then ret False
              else andthen (whenever windowChanged
                  (seq_act (set_conn cid (\<lambda>c. c\<lparr>dupAckCount := 0\<rparr>)) (trySendReverseToVM cfg connKey)))
                (\<lambda>_. ret True)))))"

text \<open>Receiving the payload; the handler goes on to the FIN only when the payload was in order.\<close>

definition take_payload ::
  "config \<Rightarrow> (tcp_conn \<Rightarrow> link \<Rightarrow> ack_request \<times> tcp_conn) \<Rightarrow> (endpoint, bool) act" where
  "take_payload cfg accept =
     reads id (\<lambda>(conn, l).
       let (request, conn) = accept conn l
       in andthen (on_conn (\<lambda>_. conn)) (\<lambda>_.
          andthen (serve_ack cfg request) (\<lambda>_. ret (request \<noteq> Ack_Now))))"

definition reverse_payload :: "config \<Rightarrow> nat \<Rightarrow> tcp_header \<Rightarrow> (session, bool) act" where
  "reverse_payload cfg cid h =
     (if th_payload h = [] then ret True
      else with_conn cid (take_payload cfg (\<lambda>conn l.
        accept_reverse_payload (sink_accepts l) (TCP_WINDOW_SIZE cfg) (th_seq h) (th_payload h) conn)))"

definition peer_fin :: "tcp_conn \<Rightarrow> tcp_conn" where
  "peer_fin c = end_sink (c\<lparr>peerFin := True, conn_state := CLOSING\<rparr>)"

definition reverse_fin :: "config \<Rightarrow> nat \<Rightarrow> nat \<Rightarrow> tcp_header \<Rightarrow> (session, unit) act" where
  "reverse_fin cfg connKey cid h =
     conn_at cid (\<lambda>conn.
       if th_seq h + word_of_nat (length (th_payload h)) \<noteq> vmSeq conn
       then with_conn cid (scheduleTCPAck cfg 0 True)
       else block [
         set_conn cid (\<lambda>c. peer_fin (c\<lparr>vmSeq := vmSeq c + 1\<rparr>)),
         with_conn cid (scheduleTCPAck cfg 0 True),
         conn_at cid (\<lambda>conn. whenever (finSent conn \<and> \<not> hasOutstanding (retransmission conn))
           (modify (finishReverseConnection connKey cid)))])"

definition reverse_data :: "config \<Rightarrow> nat \<Rightarrow> nat \<Rightarrow> tcp_header \<Rightarrow> (session, unit) act" where
  "reverse_data cfg connKey cid h =
     andthen (reverse_ack cfg connKey cid h) (\<lambda>continue.
       if \<not> continue then ret ()
       else andthen (reverse_payload cfg cid h) (\<lambda>continue.
         whenever (continue \<and> FIN h) (reverse_fin cfg connKey cid h)))"

definition handleReverseTCP :: "config \<Rightarrow> ipv4_packet \<Rightarrow> (session, unit) act" where
  "handleReverseTCP cfg parsed =
     (case parse_tcp (ip_packet parsed) of
        None \<Rightarrow> ret ()
      | Some h \<Rightarrow>
          let connKey = th_dstPort h
          in reads (\<lambda>S. map_get (reverseTcpConnections S) connKey) (\<lambda>found. case found of
               None \<Rightarrow> reverse_unknown cfg parsed h
             | Some cid \<Rightarrow>
                 seq_act (modify (bumpReverseConnActivity connKey))
                   (conn_at cid (\<lambda>conn.
                     if RST h
                     then abortReverseConnection cfg connKey cid (GenericError ''VM reset reverse TCP connection'') False
                     else if conn_state conn = SYN_SENT \<and> SYN h \<and> ACK h
                     then reverse_handshake cfg connKey cid h
                     else if conn_state conn = SYN_SENT then ret ()
                     else if SYN h \<and> ACK h then with_conn cid (sendTCPAck cfg)
                     else if conn_state conn \<noteq> ESTABLISHED \<and> conn_state conn \<noteq> FIN_WAIT
                             \<and> conn_state conn \<noteq> CLOSING then ret ()
                     else reverse_data cfg connKey cid h))))"

section \<open>Forward connections\<close>

definition conn_key_text :: "nat \<Rightarrow> string \<Rightarrow> nat \<Rightarrow> string" where
  "conn_key_text srcPort dstIP dstPort = dec srcPort @ '':'' @ dstIP @ '':'' @ dec dstPort"

definition forward_conn :: "config \<Rightarrow> nat \<Rightarrow> ipv4_packet \<Rightarrow> tcp_header \<Rightarrow> u32 \<Rightarrow> tcp_conn" where
  "forward_conn cfg cid parsed h isn =
     new_conn cid (Forward (conn_key_text (th_srcPort h) (ip_dstIP parsed) (th_dstPort h)))
       \<lparr>tx_srcPort = th_dstPort h, tx_dstPort = th_srcPort h, tx_srcIP = ip_dstIP parsed,
        tx_dstIP = ip_srcIP parsed, srcAddress = [], dstAddress = []\<rparr>
       (th_seq h + 1) (isn + 1) isn (min (int (th_window h)) (TCP_WINDOW_SIZE cfg))
       (min (TCP_MSS cfg) (option_mss (th_options h)))"

text \<open>
  A SYN without ACK: a known connection repeats its SYN-ACK, otherwise a socket is connected (its
  events are the \<open>socket_\<close> handlers below) and the SYN-ACK sent with the random number \<open>isn\<close>.
\<close>

definition forward_open :: "config \<Rightarrow> ipv4_packet \<Rightarrow> tcp_header \<Rightarrow> u32 \<Rightarrow> (session, unit) act" where
  "forward_open cfg parsed h isn =
     reads id (\<lambda>S.
       let connKey = conn_key_text (th_srcPort h) (ip_dstIP parsed) (th_dstPort h)
       in case map_get (tcpConnections S) connKey of
            Some existing \<Rightarrow>
              whenever (conn_state (conns S existing) = SYN_SENT) (fast_retransmit_conn cfg existing)
          | None \<Rightarrow>
              let cid = next_conn S
              in andthen (lift_result (initializeRetransmission cfg isn (forward_conn cfg cid parsed h isn)))
                   (\<lambda>conn. seq_act (modify (store_conn cid conn))
                     (with_conn cid (sendTrackedTCP cfg []
                        (no_flags\<lparr>syn := True, ack := True, windowSize := Some (TCP_WINDOW_SIZE cfg)\<rparr>)
                        (Some isn) False))))"

text \<open>The result pairs the status of the acknowledgement, if there is one, with windowChanged.\<close>

definition forward_ack :: "config \<Rightarrow> nat \<Rightarrow> tcp_header \<Rightarrow> (session, (ack_status option \<times> bool) option) act" where
  "forward_ack cfg cid h =
     (if \<not> ACK h then ret (Some (None, False))
      else andthen (acknowledge_conn cid (th_ack h)) (\<lambda>(status, acked).
        if status = Future \<or> status = Stale then ret None
        else andthen (update_window_conn cid h) (\<lambda>windowChanged.
          andthen
            (if status = Advanced then ack_advanced cfg cid h acked
             else conn_at cid (\<lambda>conn. whenever (counts_as_duplicate h windowChanged conn)
               (count_duplicate cfg cid h)))
            (\<lambda>_. ret (Some (Some status, windowChanged))))))"

definition forward_establish :: "config \<Rightarrow> nat \<Rightarrow> tcp_header \<Rightarrow> ack_status option \<Rightarrow> (session, bool) act" where
  "forward_establish cfg cid h status =
     conn_at cid (\<lambda>conn.
       if conn_state conn \<noteq> SYN_SENT then ret True
       else if \<not> ACK h \<or> status \<noteq> Some Advanced \<or> hasOutstanding (retransmission conn) then ret False
       else andthen (set_conn cid (\<lambda>c. c\<lparr>conn_state := ESTABLISHED\<rparr>)) (\<lambda>_.
            andthen (with_conn cid (sendTCPAck cfg)) (\<lambda>_. ret True)))"

definition forward_progress :: "config \<Rightarrow> string \<Rightarrow> nat \<Rightarrow> ack_status option \<Rightarrow> bool \<Rightarrow> (session, bool) act" where
  "forward_progress cfg connKey cid status windowChanged =
     conn_at cid (\<lambda>conn.
       if conn_state conn \<noteq> ESTABLISHED \<and> conn_state conn \<noteq> FIN_WAIT \<and> conn_state conn \<noteq> CLOSING
       then ret False
       else if status = Some Advanced \<or> windowChanged
       then if closing_done conn
            then andthen (modify (finishTCPConnection connKey cid)) (\<lambda>_. ret False)
            else andthen (whenever windowChanged (set_conn cid (\<lambda>c. c\<lparr>dupAckCount := 0\<rparr>))) (\<lambda>_.
                 andthen (trySendToVM cfg connKey) (\<lambda>_. ret True))
       else ret True)"

definition forward_payload :: "config \<Rightarrow> nat \<Rightarrow> tcp_header \<Rightarrow> (session, bool) act" where
  "forward_payload cfg cid h =
     (if th_payload h = [] then ret True
      else with_conn cid (take_payload cfg (\<lambda>conn l.
        accept_forward_payload (sink_accepts l) (TCP_WINDOW_SIZE cfg) (th_seq h) (th_payload h) conn)))"

definition forward_fin :: "config \<Rightarrow> string \<Rightarrow> nat \<Rightarrow> tcp_header \<Rightarrow> (session, unit) act" where
  "forward_fin cfg connKey cid h =
     conn_at cid (\<lambda>conn.
       if th_seq h + word_of_nat (length (th_payload h)) \<noteq> vmSeq conn
       then with_conn cid (scheduleTCPAck cfg 0 True)
       else block [
         set_conn cid (\<lambda>c. c\<lparr>vmSeq := vmSeq c + 1\<rparr>),
         with_conn cid (scheduleTCPAck cfg 0 True),
         set_conn cid peer_fin,
         conn_at cid (\<lambda>conn. whenever (finSent conn \<and> \<not> hasOutstanding (retransmission conn))
           (modify (finishTCPConnection connKey cid)))])"

definition forward_data :: "config \<Rightarrow> string \<Rightarrow> nat \<Rightarrow> tcp_header \<Rightarrow> (session, unit) act" where
  "forward_data cfg connKey cid h =
     andthen (forward_ack cfg cid h) (\<lambda>acked. case acked of
       None \<Rightarrow> ret ()
     | Some (status, windowChanged) \<Rightarrow>
         andthen (forward_establish cfg cid h status) (\<lambda>continue.
         if \<not> continue then ret ()
         else andthen (forward_progress cfg connKey cid status windowChanged) (\<lambda>continue.
         if \<not> continue then ret ()
         else andthen (forward_payload cfg cid h) (\<lambda>continue.
           whenever (continue \<and> FIN h) (forward_fin cfg connKey cid h)))))"

definition handleTCP :: "config \<Rightarrow> ipv4_packet \<Rightarrow> u32 \<Rightarrow> (session, unit) act" where
  "handleTCP cfg parsed isn =
     (case parse_tcp (ip_packet parsed) of
        None \<Rightarrow> ret ()
      | Some h \<Rightarrow>
          if SYN h \<and> \<not> ACK h then forward_open cfg parsed h isn
          else
            let connKey = conn_key_text (th_srcPort h) (ip_dstIP parsed) (th_dstPort h)
            in reads (\<lambda>S. map_get (tcpConnections S) connKey) (\<lambda>found. case found of
                 None \<Rightarrow> ret ()
               | Some cid \<Rightarrow>
                   if RST h
                   then abortTCPConnection cfg connKey cid (GenericError ''VM reset TCP connection'') False
                   else forward_data cfg connKey cid h))"

section \<open>Events of the socket of a forward connection\<close>

text \<open>The handlers look the connection up by its key, except \<open>drain\<close>, which is \<open>sink_drained\<close>.\<close>

definition socket_data :: "config \<Rightarrow> string \<Rightarrow> bytes \<Rightarrow> (session, unit) act" where
  "socket_data cfg connKey data =
     reads (\<lambda>S. map_get (tcpConnections S) connKey) (\<lambda>found. case found of
       None \<Rightarrow> ret ()
     | Some cid \<Rightarrow> seq_act (set_conn cid (enqueueTCPData cfg data)) (trySendToVM cfg connKey))"

definition socket_end :: "config \<Rightarrow> string \<Rightarrow> (session, unit) act" where
  "socket_end cfg connKey =
     reads (\<lambda>S. map_get (tcpConnections S) connKey) (\<lambda>found. case found of
       None \<Rightarrow> ret ()
     | Some cid \<Rightarrow> conn_at cid (\<lambda>conn. whenever (conn_state conn \<noteq> CLOSED)
         (seq_act (set_conn cid (\<lambda>c. c\<lparr>pendingFin := True\<rparr>)) (trySendToVM cfg connKey))))"

definition socket_failed :: "config \<Rightarrow> string \<Rightarrow> js_error \<Rightarrow> (session, unit) act" where
  "socket_failed cfg connKey err =
     reads (\<lambda>S. map_get (tcpConnections S) connKey) (\<lambda>found. case found of
       None \<Rightarrow> ret () | Some cid \<Rightarrow> abortTCPConnection cfg connKey cid err True)"

end
