(* ===== verification/Dhcp_Server.thy ===== *)
theory Dhcp_Server
  imports Relay_Link
begin

text \<open>
  The DHCP server of relay.js without its use of the address pool: the walk over the options of a
  request and the reply that sendDHCP builds and sends.
\<close>

section \<open>Requests\<close>

text \<open>
  The loop over the options: the message type, or \<open>None\<close> where the handler returns because an
  option runs over the end. A type option without data reads past it, as the code does.
\<close>

function dhcp_options :: "bytes \<Rightarrow> nat \<Rightarrow> byte \<Rightarrow> byte option" where
  "dhcp_options udp off msgType =
     (if off < length udp
      then let opt = byte_at udp off
           in if opt = 255 then Some msgType
              else if opt = 0 then dhcp_options udp (off + 1) msgType
              else if off + 1 \<ge> length udp then None
              else let len = unat (byte_at udp (off + 1))
                   in if off + 2 + len > length udp then None
                      else dhcp_options udp (off + 2 + len)
                             (if opt = 53 then byte_at udp (off + 2) else msgType)
      else Some msgType)"
  by pat_completeness auto
termination
  by (relation "measure (\<lambda>(udp, off, msgType). length udp - off)") auto

declare dhcp_options.simps [simp del]

definition dhcp_cookie :: u32 where
  "dhcp_cookie = 0x63825363"

text \<open>The transaction id, the client's MAC and the message type of a well-formed request.\<close>

definition parse_dhcp :: "bytes \<Rightarrow> (u32 \<times> bytes \<times> byte) option" where
  "parse_dhcp udp =
     (if length udp < 240 \<or> u32be udp 236 \<noteq> dhcp_cookie then None
      else (case dhcp_options udp 240 0 of
              None \<Rightarrow> None | Some msgType \<Rightarrow> Some (u32be udp 4, subarray udp 28 34, msgType)))"

section \<open>Replies\<close>

definition dhcp_header :: "config \<Rightarrow> u32 \<Rightarrow> bytes \<Rightarrow> string \<Rightarrow> bytes" where
  "dhcp_header cfg xid clientMAC assignedIP =
     (let dhcp = alloc 300;
          dhcp = put dhcp 0 [2, 1, 6, 0];
          dhcp = put dhcp 4 (u32_bytes xid);
          dhcp = put dhcp 8 (u16_bytes 0);
          dhcp = put dhcp 10 (u16_bytes 0);
          dhcp = put dhcp 12 [0, 0, 0, 0];
          dhcp = put dhcp 16 (dotted_bytes assignedIP);
          dhcp = put dhcp 20 (dotted_bytes (GATEWAY_IP cfg));
          dhcp = put dhcp 24 (dotted_bytes (GATEWAY_IP cfg));
          dhcp = put dhcp 28 clientMAC
      in put dhcp 236 (u32_bytes dhcp_cookie))"

text \<open>The options are written from offset 240 on; each write follows the previous one.\<close>

definition dhcp_reply_options :: "config \<Rightarrow> byte \<Rightarrow> bytes \<Rightarrow> bytes" where
  "dhcp_reply_options cfg msgType dhcp =
     (let gw = dotted_bytes (GATEWAY_IP cfg);
          dhcp = put dhcp 240 [53, 1, msgType, 54, 4];
          dhcp = put dhcp 245 gw;
          dhcp = put dhcp 249 [51, 4];
          dhcp = put dhcp 251 (u32_bytes 3600);
          dhcp = put dhcp 255 [1, 4];
          dhcp = put dhcp 257 [255, 255, 255, 0];
          dhcp = put dhcp 261 [3, 4];
          dhcp = put dhcp 263 gw;
          dhcp = put dhcp 267 [6, 4];
          dhcp = put dhcp 269 (dotted_bytes (DNS_SERVER_IP cfg));
          dhcp = put dhcp 273 [26, 2];
          dhcp = put dhcp 275 (u16_bytes (nat (VM_MTU cfg)))
      in put dhcp 277 [255])"

definition dhcp_reply :: "config \<Rightarrow> u32 \<Rightarrow> bytes \<Rightarrow> byte \<Rightarrow> string \<Rightarrow> bytes" where
  "dhcp_reply cfg xid clientMAC msgType assignedIP =
     take 278 (dhcp_reply_options cfg msgType (dhcp_header cfg xid clientMAC assignedIP))"

definition dhcp_datagram :: "bytes \<Rightarrow> bytes" where
  "dhcp_datagram dhcp =
     (let udp = alloc (8 + length dhcp);
          udp = put udp 0 (u16_bytes 67);
          udp = put udp 2 (u16_bytes 68);
          udp = put udp 4 (u16_bytes (8 + length dhcp));
          udp = put udp 6 (u16_bytes 0)
      in put udp 8 dhcp)"

text \<open>The UDP checksum of the reply is left zero, which means that there is none.\<close>

definition sendDHCP :: "config \<Rightarrow> u32 \<Rightarrow> bytes \<Rightarrow> byte \<Rightarrow> string \<Rightarrow> (link, unit) act" where
  "sendDHCP cfg xid clientMAC msgType assignedIP =
     andthen (buildIP (dhcp_datagram (dhcp_reply cfg xid clientMAC msgType assignedIP))
        (AddrString (GATEWAY_IP cfg)) (AddrString ''255.255.255.255'') 17)
       (sendIPToVM cfg)"

end
