(* ===== verification/Proxy_Rules.thy ===== *)
theory Proxy_Rules
  imports Effects Relay_Config
begin

text \<open>
  The proxy rules of relay.js: the rule list behind the admin interface, the port forwards it
  starts and stops, the choice of a rule for an HTTP request and the header block that is sent to
  the VM. The listening servers are objects of the environment, kept in a store with their status.
\<close>

section \<open>Rules\<close>

text \<open>
  An absent or empty \<open>vhost\<close>, \<open>bind_address\<close> or \<open>targetPath\<close> is the empty string; rules of type http
  carry a path. A rule may come without \<open>protocols\<close>.
\<close>

record rule =
  rule_id :: nat
  rule_type :: string
  protocols :: "string list option"
  rule_vm :: string
  rule_port :: nat
  host_port :: nat
  bind_address :: string
  vhost :: string
  rule_path :: string
  targetPath :: string

datatype protocol = Tcp | Udp

record server =
  srv_protocol :: protocol
  srv_rule :: nat
  srv_listening :: bool
  srv_closed :: bool

text \<open>
  \<open>runningTcpProxies\<close> and \<open>runningUdpProxies\<close> map a rule's number to its server, by number in
  \<open>servers\<close>; udpProxySockets always has the entries of runningUdpProxies.
\<close>

record proxy_state =
  nextRuleId :: nat
  proxyRules :: "rule list"
  servers :: "nat \<Rightarrow> server"
  next_server :: nat
  runningTcpProxies :: "(nat, nat) jsmap"
  runningUdpProxies :: "(nat, nat) jsmap"
  udpProxySockets :: "(nat, nat) jsmap"

section \<open>Port forwards\<close>

definition upd_server :: "nat \<Rightarrow> (server \<Rightarrow> server) \<Rightarrow> proxy_state \<Rightarrow> proxy_state" where
  "upd_server i f P = P\<lparr>servers := (servers P)(i := f (servers P i))\<rparr>"

text \<open>Closing a TCP server twice does nothing; closing a UDP socket twice throws.\<close>

definition close_server :: "nat \<Rightarrow> proxy_state \<Rightarrow> proxy_state" where
  "close_server i = upd_server i (\<lambda>s. s\<lparr>srv_closed := True\<rparr>)"

definition close_socket :: "nat \<Rightarrow> (proxy_state, unit) act" where
  "close_socket i = reads (\<lambda>P. srv_closed (servers P i)) (\<lambda>closed.
     if closed then throw (GenericError ''ERR_SOCKET_DGRAM_NOT_RUNNING'') else modify (close_server i))"

definition stopTcpForward :: "nat \<Rightarrow> proxy_state \<Rightarrow> proxy_state" where
  "stopTcpForward ruleId P =
     (case map_get (runningTcpProxies P) ruleId of
        None \<Rightarrow> P
      | Some i \<Rightarrow> (close_server i P)\<lparr>runningTcpProxies := map_delete ruleId (runningTcpProxies P)\<rparr>)"

definition stopUdpForward :: "nat \<Rightarrow> (proxy_state, unit) act" where
  "stopUdpForward ruleId =
     reads (\<lambda>P. map_get (runningUdpProxies P) ruleId) (\<lambda>found. case found of
       None \<Rightarrow> ret ()
     | Some i \<Rightarrow> seq_act (close_socket i) (modify (\<lambda>P.
         P\<lparr>runningUdpProxies := map_delete ruleId (runningUdpProxies P),
           udpProxySockets := map_delete ruleId (udpProxySockets P)\<rparr>)))"

definition new_server :: "protocol \<Rightarrow> nat \<Rightarrow> proxy_state \<Rightarrow> proxy_state" where
  "new_server p ruleId P =
     P\<lparr>servers := (servers P)(next_server P :=
         \<lparr>srv_protocol = p, srv_rule = ruleId, srv_listening = False, srv_closed = False\<rparr>),
       next_server := next_server P + 1\<rparr>"

definition startTcpForward :: "rule \<Rightarrow> proxy_state \<Rightarrow> proxy_state" where
  "startTcpForward r P =
     (if map_has (runningTcpProxies P) (rule_id r) then P else new_server Tcp (rule_id r) P)"

definition startUdpForward :: "rule \<Rightarrow> proxy_state \<Rightarrow> proxy_state" where
  "startUdpForward r P =
     (if map_has (runningUdpProxies P) (rule_id r) then P else new_server Udp (rule_id r) P)"

text \<open>The callbacks of \<open>listen\<close> and \<open>bind\<close>, and the error handler of a UDP socket.\<close>

definition tcp_listening :: "nat \<Rightarrow> proxy_state \<Rightarrow> proxy_state" where
  "tcp_listening i P =
     (let P = upd_server i (\<lambda>s. s\<lparr>srv_listening := True\<rparr>) P
      in P\<lparr>runningTcpProxies := map_set (srv_rule (servers P i)) i (runningTcpProxies P)\<rparr>)"

definition udp_listening :: "nat \<Rightarrow> proxy_state \<Rightarrow> proxy_state" where
  "udp_listening i P =
     (let P = upd_server i (\<lambda>s. s\<lparr>srv_listening := True\<rparr>) P; ruleId = srv_rule (servers P i)
      in P\<lparr>runningUdpProxies := map_set ruleId i (runningUdpProxies P),
           udpProxySockets := map_set ruleId i (udpProxySockets P)\<rparr>)"

definition udp_socket_error :: "nat \<Rightarrow> (proxy_state, unit) act" where
  "udp_socket_error i =
     seq_act (close_socket i) (reads (\<lambda>P. srv_rule (servers P i)) stopUdpForward)"

text \<open>\<open>rule.protocols.includes(name)\<close>\<close>

definition lists_protocol :: "string \<Rightarrow> rule \<Rightarrow> bool result" where
  "lists_protocol name r =
     (case protocols r of None \<Rightarrow> Inl (TypeError ''includes of undefined'') | Some ps \<Rightarrow> Inr (name \<in> set ps))"

definition startPortForward :: "rule \<Rightarrow> (proxy_state, unit) act" where
  "startPortForward r =
     andthen (lift_result (lists_protocol ''tcp'' r)) (\<lambda>tcp.
       seq_act (whenever tcp (modify (startTcpForward r)))
         (andthen (lift_result (lists_protocol ''udp'' r)) (\<lambda>udp. whenever udp (modify (startUdpForward r)))))"

definition stopPortForward :: "rule \<Rightarrow> (proxy_state, unit) act" where
  "stopPortForward r =
     andthen (lift_result (lists_protocol ''tcp'' r)) (\<lambda>tcp.
       seq_act (whenever tcp (modify (stopTcpForward (rule_id r))))
         (andthen (lift_result (lists_protocol ''udp'' r)) (\<lambda>udp. whenever udp (stopUdpForward (rule_id r)))))"

section \<open>The rule list\<close>

text \<open>Adding the rule a request brought, whatever number it carried.\<close>

definition add_rule :: "rule \<Rightarrow> (proxy_state, unit) act" where
  "add_rule r =
     reads nextRuleId (\<lambda>n. let r = r\<lparr>rule_id := n\<rparr>
       in seq_act (modify (\<lambda>P. P\<lparr>nextRuleId := n + 1, proxyRules := proxyRules P @ [r]\<rparr>))
            (whenever (rule_type r = ''port'') (startPortForward r)))"

fun find_index :: "('a \<Rightarrow> bool) \<Rightarrow> 'a list \<Rightarrow> nat option" where
  "find_index p [] = None"
| "find_index p (x # xs) = (if p x then Some 0 else map_option Suc (find_index p xs))"

text \<open>
  Deleting by number; a NaN equals no number. The result tells whether there was such a rule.
\<close>

definition delete_rule :: "int option \<Rightarrow> (proxy_state, bool) act" where
  "delete_rule n =
     reads proxyRules (\<lambda>rules. case find_index (\<lambda>r. Some (int (rule_id r)) = n) rules of
       None \<Rightarrow> ret False
     | Some index \<Rightarrow>
         let r = rules ! index
         in seq_act (if rule_type r = ''port'' then stopPortForward r
              else seq_act (modify (stopTcpForward (rule_id r))) (stopUdpForward (rule_id r)))
           (andthen (modify (\<lambda>P. P\<lparr>proxyRules := take index (proxyRules P) @ drop (index + 1) (proxyRules P)\<rparr>))
              (\<lambda>_. ret True)))"

section \<open>Choosing a rule\<close>

definition starts_with :: "string \<Rightarrow> string \<Rightarrow> bool" where
  "starts_with prefix s = (take (length prefix) s = prefix)"

definition rule_matches :: "string \<Rightarrow> string \<Rightarrow> rule \<Rightarrow> bool" where
  "rule_matches host urlPath r \<longleftrightarrow> rule_type r = ''http'' \<and> (vhost r = [] \<or> vhost r = host)
     \<and> starts_with (rule_path r) urlPath"

definition rule_score :: "rule \<Rightarrow> int" where
  "rule_score r = (if vhost r \<noteq> [] then 1000 else 0) + int (length (rule_path r))"

fun best_rule :: "string \<Rightarrow> string \<Rightarrow> rule list \<Rightarrow> rule option \<Rightarrow> int \<Rightarrow> rule option" where
  "best_rule host urlPath [] bestMatch bestMatchScore = bestMatch"
| "best_rule host urlPath (r # rs) bestMatch bestMatchScore =
     (if rule_matches host urlPath r \<and> rule_score r > bestMatchScore
      then best_rule host urlPath rs (Some r) (rule_score r)
      else best_rule host urlPath rs bestMatch bestMatchScore)"

definition findProxyRule :: "string \<Rightarrow> string \<Rightarrow> proxy_state \<Rightarrow> rule option" where
  "findProxyRule host urlPath P = best_rule host urlPath (proxyRules P) None (- 1)"

section \<open>The forwarded header block\<close>

text \<open>The loop over rawHeaders, which alternates names and values.\<close>

fun kept_headers :: "string list \<Rightarrow> string list \<Rightarrow> string list" where
  "kept_headers dropped (name # v # rest) =
     (if map lower_char name \<in> set dropped then kept_headers dropped rest
      else (name @ '': '' @ v) # kept_headers dropped rest)"
| "kept_headers dropped _ = []"

fun join_lines :: "string list \<Rightarrow> string" where
  "join_lines [] = []"
| "join_lines [x] = x"
| "join_lines (x # y # r) = x @ [CHR 0x0D, CHR 0x0A] @ join_lines (y # r)"

definition request_head :: "string \<Rightarrow> string \<Rightarrow> string list \<Rightarrow> rule \<Rightarrow> string" where
  "request_head meth url rawHeaders r =
     join_lines ((meth @ '' '' @ url @ '' HTTP/1.1'') # kept_headers [''host'', ''connection''] rawHeaders
       @ [''Host: '' @ rule_vm r @ '':'' @ dec (rule_port r), ''Connection: close'', [], []])"

definition upgrade_head :: "string \<Rightarrow> string \<Rightarrow> string \<Rightarrow> string list \<Rightarrow> rule \<Rightarrow> string" where
  "upgrade_head meth url httpVersion rawHeaders r =
     join_lines ((meth @ '' '' @ url @ '' HTTP/'' @ httpVersion) # kept_headers [''host''] rawHeaders
       @ [''Host: '' @ rule_vm r @ '':'' @ dec (rule_port r), [], []])"

section \<open>The chosen rule\<close>

lemma rule_score_nonneg: "0 \<le> rule_score r"
  by (simp add: rule_score_def)

lemma best_rule_spec:
  "best_rule host u rs b s =
     (if \<exists>r \<in> set rs. rule_matches host u r \<and> rule_score r > s
      then find (\<lambda>r. rule_matches host u r \<and>
             rule_score r = Max (rule_score ` {r \<in> set rs. rule_matches host u r})) rs
      else b)"
proof (induction rs arbitrary: b s)
  case (Cons a rs)
  let ?M = "\<lambda>rs. {r \<in> set rs. rule_matches host u r}"
  let ?max = "\<lambda>rs. Max (rule_score ` ?M rs)"
  show ?case
  proof (cases "rule_matches host u a")
    case False
    then have "?M (a # rs) = ?M rs" by auto
    then show ?thesis using False Cons.IH by auto
  next
    case True
    then have M: "?M (a # rs) = insert a (?M rs)" by auto
    show ?thesis
    proof (cases "\<exists>r \<in> ?M rs. rule_score r > rule_score a")
      case above: True
      then have ne: "?M rs \<noteq> {}" by blast
      have "rule_score a < ?max rs"
        using above by (subst Max_gr_iff) auto
      then have "?max (a # rs) = ?max rs"
        using ne unfolding M by (simp add: max_def)
      moreover from this have "rule_score a \<noteq> ?max (a # rs)" using \<open>rule_score a < ?max rs\<close> by simp
      ultimately show ?thesis
        using True above Cons.IH by (auto simp: not_less)
    next
      case False
      then have "\<forall>x \<in> rule_score ` ?M rs. x \<le> rule_score a" by auto
      then have "?max (a # rs) = rule_score a"
        unfolding M by (intro Max_eqI) auto
      then show ?thesis
        using True False Cons.IH by (auto simp: not_less)
    qed
  qed
qed simp

section \<open>Properties\<close>

text \<open>
  C36: a request goes to the first of the matching http rules with the highest score: rules with a
  matching virtual host before the others (as long as no path reaches 1000 characters), then the
  longest path. None is chosen exactly when no rule matches.
\<close>

theorem proxy_rule_is_best:
  "findProxyRule host urlPath P =
     (let candidates = filter (rule_matches host urlPath) (proxyRules P)
      in if candidates = [] then None
         else find (\<lambda>r. rule_score r = Max (rule_score ` set candidates)) candidates)"
proof -
  have find_filter: "find (\<lambda>r. p r \<and> q r) xs = find q (filter p xs)" for p q and xs :: "rule list"
    by (induction xs) auto
  have "(\<exists>r \<in> set (proxyRules P). rule_matches host urlPath r \<and> rule_score r > - 1) \<longleftrightarrow>
      filter (rule_matches host urlPath) (proxyRules P) \<noteq> []"
    using rule_score_nonneg by (auto simp: filter_empty_conv) (meson less_le_trans neg_less_0_iff_less zero_less_one)
  then show ?thesis
    by (simp add: findProxyRule_def best_rule_spec find_filter Let_def)
qed

end
