(* ===== verification/Relay_Core.thy ===== *)
theory Relay_Core
  imports Tcp_Handlers Dhcp_Server Dns_Filter Proxy_Rules
begin

text \<open>
  The relay (relay.js): the sessions with the address pool and the tables they share, the handling
  of an Ethernet frame from a VM (ARP, routing of IPv4, ICMP, UDP, DHCP, TCP), the port forwards'
  NAT table, and the WebSocket handlers that open and close sessions. Sessions live in a store
  because ipToSession and activeSessions both refer to them.
\<close>

section \<open>State\<close>

text \<open>
  \<open>hostDatagrams\<close> logs what the sockets of the UDP forwards send: server, payload, port, address.
  \<open>closure\<close> gives the variables clientIP and sessionId that the WebSocket handlers of a session
  close over.
\<close>

record relay =
  pool :: address_pool
  session_of :: "nat \<Rightarrow> session"
  next_session :: nat
  activeSessions :: "(string, nat) jsmap"
  closure :: "nat \<Rightarrow> string \<times> string"
  connectionsPerIP :: "(string, nat) jsmap"
  nextProxyPort :: nat
  proxy :: proxy_state
  hostDatagrams :: "(nat \<times> bytes \<times> nat \<times> string) list"

definition upd_session :: "nat \<Rightarrow> (session \<Rightarrow> session) \<Rightarrow> relay \<Rightarrow> relay" where
  "upd_session sid f R = R\<lparr>session_of := (session_of R)(sid := f (session_of R sid))\<rparr>"

definition with_session :: "nat \<Rightarrow> (session, 'a) act \<Rightarrow> (relay, 'a) act" where
  "with_session sid m = inside (\<lambda>R. session_of R sid) (\<lambda>S. upd_session sid (\<lambda>_. S)) m"

definition with_link :: "nat \<Rightarrow> (link, 'a) act \<Rightarrow> (relay, 'a) act" where
  "with_link sid m = with_session sid (on_session_link m)"

text \<open>
  What the environment decides while one frame is handled: the random initial sequence number and
  whether creating or writing a UDP socket throws.
\<close>

record frame_env =
  e_isn :: u32
  e_socket :: "js_error option"
  e_sending :: "js_error option"

section \<open>Addresses\<close>

text \<open>allocateIP as an action; the first address a session gets becomes its own.\<close>

definition allocate :: "config \<Rightarrow> string \<Rightarrow> (relay, string) act" where
  "allocate cfg mac = inside pool (\<lambda>p R. R\<lparr>pool := p\<rparr>) (allocateIP cfg mac)"

definition adopt_ip :: "nat \<Rightarrow> string \<Rightarrow> relay \<Rightarrow> relay" where
  "adopt_ip sid ip R =
     (upd_session sid (\<lambda>S. S\<lparr>vmIP := Some ip\<rparr>) R)\<lparr>pool := register_session ip sid (pool R)\<rparr>"

text \<open>An error of \<open>m\<close> ends the handler quietly, as the catch blocks around allocateIP do.\<close>

definition or_return :: "(relay, 'a) act \<Rightarrow> ('a \<Rightarrow> (relay, unit) act) \<Rightarrow> (relay, unit) act" where
  "or_return m k = (\<lambda>R. case m R of (Inl e, R) \<Rightarrow> (Inr (), R) | (Inr a, R) \<Rightarrow> k a R)"

section \<open>ARP\<close>

definition arp_assign :: "config \<Rightarrow> nat \<Rightarrow> (relay, unit) act \<Rightarrow> (relay, unit) act" where
  "arp_assign cfg sid k =
     reads (\<lambda>R. session_of R sid) (\<lambda>S. case (vmIP S, vmMAC S) of
       (None, Some mac) \<Rightarrow>
         or_return (allocate cfg mac) (\<lambda>ip. seq_act (modify (adopt_ip sid ip)) k)
     | _ \<Rightarrow> k)"

definition arp_answer :: "config \<Rightarrow> nat \<Rightarrow> bytes \<Rightarrow> (relay, unit) act" where
  "arp_answer cfg sid arpPacket =
     (let opcode = u16be arpPacket 6;
          targetIP = formatIPv4 arpPacket 24
      in if opcode = 1 \<and> targetIP = GATEWAY_IP cfg
         then with_link sid (sendToVM cfg (arp_reply arpPacket relay_mac (dotted_bytes (GATEWAY_IP cfg))))
         else if opcode = 1 \<and> ENABLE_VM_TO_VM cfg
         then reads (\<lambda>R. map_option (session_of R) (map_get (ipToSession (pool R)) targetIP)) (\<lambda>target.
           case Option.bind target vmMAC of
             None \<Rightarrow> ret ()
           | Some mac \<Rightarrow>
               with_link sid (sendToVM cfg (arp_reply arpPacket (mac_bytes mac) (dotted_bytes targetIP))))
         else ret ())"

definition handleARP :: "config \<Rightarrow> nat \<Rightarrow> bytes \<Rightarrow> (relay, unit) act" where
  "handleARP cfg sid arpPacket =
     (if length arpPacket < 28 then ret () else arp_assign cfg sid (arp_answer cfg sid arpPacket))"

section \<open>DHCP\<close>

definition handleDHCP :: "config \<Rightarrow> nat \<Rightarrow> bytes \<Rightarrow> (relay, unit) act" where
  "handleDHCP cfg sid udp =
     (case parse_dhcp udp of
        None \<Rightarrow> ret ()
      | Some (xid, clientMAC, msgType) \<Rightarrow>
          or_return (allocate cfg (mac_string clientMAC)) (\<lambda>assignedIP.
          reads (\<lambda>R. vmIP (session_of R sid)) (\<lambda>ip.
            seq_act (whenever (ip = None) (modify (adopt_ip sid assignedIP)))
              (if msgType = 1 then with_link sid (sendDHCP cfg xid clientMAC 2 assignedIP)
               else if msgType = 3 then with_link sid (sendDHCP cfg xid clientMAC 5 assignedIP)
               else ret ()))))"

section \<open>UDP\<close>

text \<open>
  At trace level the handler reads the name of a DNS question first, which may throw or exhaust
  the stack (also a RangeError).
\<close>

definition trace_dns_query :: "config \<Rightarrow> bytes \<Rightarrow> (relay, unit) act" where
  "trace_dns_query cfg payload =
     (if log_level cfg \<ge> 2 \<and> length payload \<ge> 12 \<and> u16be payload 4 > 0
      then (case parseDnsQuestionName payload 12 of
              None \<Rightarrow> throw (RangeError ''Maximum call stack size exceeded'')
            | Some (Inl e) \<Rightarrow> throw e
            | Some (Inr name) \<Rightarrow> ret ())
      else ret ())"

definition forward_udp :: "frame_env \<Rightarrow> nat \<Rightarrow> ipv4_packet \<Rightarrow> udp_datagram \<Rightarrow> bool \<Rightarrow> (relay, unit) act" where
  "forward_udp env sid parsed d is_dns =
     modify (upd_session sid (\<lambda>S. S\<lparr>udpFlows := snd (send (e_socket env) (e_sending env)
       (now_ms (s_link S)) (udp_payload d)
       \<lparr>fl_vmIP = ip_srcIP parsed, fl_vmPort = udp_srcPort d, fl_remoteIP = ip_dstIP parsed,
        fl_remotePort = udp_dstPort d, fl_isDNS = is_dns\<rparr> (udpFlows S))\<rparr>))"

definition handleUDP :: "config \<Rightarrow> frame_env \<Rightarrow> nat \<Rightarrow> ipv4_packet \<Rightarrow> (relay, unit) act" where
  "handleUDP cfg env sid parsed =
     (case parseUDPDatagram (Some parsed) of
        None \<Rightarrow> ret ()
      | Some d \<Rightarrow>
          reads id (\<lambda>R. case map_get (udpProxyNatTable (session_of R sid)) (udp_dstPort d) of
            Some entry \<Rightarrow>
              (case map_get (udpProxySockets (proxy R)) (nat_rule entry) of
                 None \<Rightarrow> ret ()
               | Some hostSocket \<Rightarrow>
                   modify (\<lambda>R. R\<lparr>hostDatagrams := hostDatagrams R @
                     [(hostSocket, udp_payload d, nat_port entry, nat_address entry)]\<rparr>))
          | None \<Rightarrow>
              if udp_dstPort d = 67 then handleDHCP cfg sid (udp_payload d)
              else if udp_dstPort d = 53
              then seq_act (trace_dns_query cfg (udp_payload d)) (forward_udp env sid parsed d True)
              else forward_udp env sid parsed d False))"

text \<open>
  A response on the socket of a flow: the manager checks where it comes from and calls onResponse,
  which filters DNS responses and sends the payload to the VM.
\<close>

definition udp_response :: "config \<Rightarrow> nat \<Rightarrow> bytes \<Rightarrow> string \<Rightarrow> nat \<Rightarrow> session \<Rightarrow> session" where
  "udp_response cfg fid payload address port S =
     (case map_get (flow_store (udpFlows S)) fid of
        None \<Rightarrow> S
      | Some f \<Rightarrow>
          let (r, S) = (if address \<noteq> fl_remoteIP f \<or> port \<noteq> fl_remotePort f then (Inr (), S)
                else on_session_link (sendUDPToVM cfg
                  (if fl_isDNS f then filterDNSResponse payload else payload)
                  (fl_remotePort f) (fl_vmPort f) (AddrString (fl_remoteIP f)) (AddrString (fl_vmIP f))) S);
              thrown = (case r of Inl e \<Rightarrow> Some e | Inr _ \<Rightarrow> None)
          in S\<lparr>udpFlows := socket_message thrown (now_ms (s_link S)) fid payload address port (udpFlows S)\<rparr>)"

section \<open>IPv4\<close>

definition broadcast_address :: string where
  "broadcast_address = ''10.0.2.255''"

definition in_vm_network :: "string \<Rightarrow> bool" where
  "in_vm_network ip = (take 7 ip = ''10.0.2.'')"

definition broadcast :: "config \<Rightarrow> ipv4_packet \<Rightarrow> (relay, unit) act" where
  "broadcast cfg parsed =
     reads activeSessions (each (\<lambda>(sessionId, other).
       reads (\<lambda>R. vmIP (session_of R other)) (\<lambda>ip.
         whenever (ip \<noteq> None \<and> ip \<noteq> Some (ip_srcIP parsed))
           (with_link other (sendIPToVM cfg (ip_packet parsed))))))"

text \<open>The last part of handleIPv4: fragments are dropped, the rest goes to its protocol's handler.\<close>

definition internet_bound :: "config \<Rightarrow> frame_env \<Rightarrow> nat \<Rightarrow> ipv4_packet \<Rightarrow> (relay, unit) act" where
  "internet_bound cfg env sid parsed =
     (if ip_moreFragments parsed \<or> ip_fragmentOffset parsed \<noteq> 0 then ret ()
      else if ip_protocol parsed = 1 then with_link sid (handleICMP cfg parsed)
      else if ip_protocol parsed = 17 then handleUDP cfg env sid parsed
      else if ip_protocol parsed = 6 then with_session sid (handleTCP cfg parsed (e_isn env))
      else ret ())"

definition handleIPv4 :: "config \<Rightarrow> frame_env \<Rightarrow> nat \<Rightarrow> bytes \<Rightarrow> (relay, unit) act" where
  "handleIPv4 cfg env sid ipPacket =
     (case parseIPv4Packet ipPacket of
        None \<Rightarrow> ret ()
      | Some parsed \<Rightarrow>
          let dst = ip_dstIP parsed
          in if ip_protocol parsed = 6 \<and> dst = GATEWAY_IP cfg
             then if ip_moreFragments parsed \<or> ip_fragmentOffset parsed \<noteq> 0 then ret ()
                  else with_session sid (handleReverseTCP cfg parsed)
             else if ENABLE_VM_TO_VM cfg \<and> dst = broadcast_address \<and> ip_protocol parsed = 17
             then broadcast cfg parsed
             else if ENABLE_VM_TO_VM cfg \<and> in_vm_network dst \<and> dst \<noteq> GATEWAY_IP cfg
                     \<and> dst \<noteq> broadcast_address
             then reads (\<lambda>R. map_get (ipToSession (pool R)) dst) (\<lambda>target. case target of
                    Some other \<Rightarrow> with_link other (sendIPToVM cfg (ip_packet parsed))
                  | None \<Rightarrow> internet_bound cfg env sid parsed)
             else internet_bound cfg env sid parsed)"

section \<open>Frames\<close>

definition learn_mac :: "bytes \<Rightarrow> session \<Rightarrow> session" where
  "learn_mac srcMAC S =
     (if vmMACBytes (s_link S) = Some srcMAC then S
      else (set_link (\<lambda>l. l\<lparr>vmMACBytes := Some srcMAC\<rparr>) S)\<lparr>vmMAC := Some (mac_string srcMAC)\<rparr>)"

definition handleEthernetFrame :: "config \<Rightarrow> frame_env \<Rightarrow> nat \<Rightarrow> bytes \<Rightarrow> (relay, unit) act" where
  "handleEthernetFrame cfg env sid frame =
     seq_act (modify (upd_session sid (\<lambda>S. S\<lparr>bytesReceived := bytesReceived S + length frame\<rparr>)))
       (attempt (if length frame < 14 then ret ()
          else seq_act (modify (upd_session sid (learn_mac (subarray frame 6 12))))
            (if u16be frame 12 = 0x0806 then handleARP cfg sid (drop 14 frame)
             else if u16be frame 12 = 0x0800 then handleIPv4 cfg env sid (drop 14 frame)
             else ret ())))"

section \<open>The NAT table of the UDP forwards\<close>

text \<open>
  \<open>ports\<close> are the random ports drawn; the loop draws until one is free, and \<open>None\<close> is a sequence
  of draws that hits none.
\<close>

fun draw_port :: "('p \<Rightarrow> bool) \<Rightarrow> 'p list \<Rightarrow> 'p option" where
  "draw_port taken [] = None"
| "draw_port taken (p # ps) = (if taken p then draw_port taken ps else Some p)"

definition forwardUdpPacket ::
  "config \<Rightarrow> bytes \<Rightarrow> nat \<Rightarrow> string \<Rightarrow> nat \<Rightarrow> nat \<Rightarrow> nat \<Rightarrow> (session, unit) act" where
  "forwardUdpPacket cfg payload vmPort address port ruleId ephemeralPort =
     seq_act (modify (\<lambda>S. add_task (Expire_Nat ephemeralPort) (S\<lparr>udpProxyNatTable :=
       map_set ephemeralPort \<lparr>nat_address = address, nat_port = port, nat_rule = ruleId,
         nat_lastSeen = now_ms (s_link S)\<rparr> (udpProxyNatTable S)\<rparr>)))
     (reads vmIP (\<lambda>ip. on_session_link (sendUDPToVM cfg payload ephemeralPort vmPort
        (AddrString (GATEWAY_IP cfg)) (case ip of Some a \<Rightarrow> AddrString a | None \<Rightarrow> AddrOther))))"

text \<open>The message handler of the host socket of a UDP forward to the VM with address \<open>vm\<close>.\<close>

definition host_message ::
  "config \<Rightarrow> nat \<Rightarrow> string \<Rightarrow> nat \<Rightarrow> bytes \<Rightarrow> string \<Rightarrow> nat \<Rightarrow> nat list \<Rightarrow> (relay, unit) act" where
  "host_message cfg ruleId vm vmPort msg address port draws =
     reads id (\<lambda>R. case map_get (ipToSession (pool R)) vm of
       None \<Rightarrow> ret ()
     | Some sid \<Rightarrow>
         (case draw_port (map_has (udpProxyNatTable (session_of R sid)))
                 (map (\<lambda>d. 40000 + d mod 10000) draws) of
            None \<Rightarrow> ret ()
          | Some ephemeralPort \<Rightarrow>
              with_session sid (forwardUdpPacket cfg msg vmPort address port ruleId ephemeralPort)))"

section \<open>WebSocket events\<close>

record ws_lib =
  lib_buffering :: "nat \<Rightarrow> bytes \<Rightarrow> nat"
  lib_accepts :: "bytes list \<Rightarrow> bytes \<Rightarrow> bool"
  lib_idents :: "nat \<Rightarrow> nat"

definition new_link :: "ws_lib \<Rightarrow> rate_limiter \<Rightarrow> link" where
  "new_link lib rl =
     \<lparr>ws_open = True, bufferedAmount = 0, buffering = lib_buffering lib, sink_accepts = lib_accepts lib,
      transportSocket = open_sink, vmMACBytes = None, bytesSent = 0, frames = [], texts = [],
      idents = lib_idents lib, drawn = 0, now_ms = 0, rateLimiter = rl, tcpTransportWaiters = [],
      resumes = []\<rparr>"

definition blank_conn :: tcp_conn where
  "blank_conn = new_conn 0 (Reverse 0) \<lparr>tx_srcPort = 0, tx_dstPort = 0, tx_srcIP = '''', tx_dstIP = '''',
     srcAddress = [], dstAddress = []\<rparr> 0 0 0 0 0"

definition new_session :: "config \<Rightarrow> ws_lib \<Rightarrow> string \<Rightarrow> session result" where
  "new_session cfg lib ip =
     bind_result (new_udp_manager (Num (of_int (UDP_FLOW_IDLE_TIMEOUT_MS cfg)))
        (Num (of_int (MAX_UDP_FLOWS_PER_SESSION cfg))) True) (\<lambda>flows_mgr.
     bind_result (new_rate_limiter (Num (of_int (RATE_LIMIT_BPS cfg))) (Num 1000)) (\<lambda>rl.
       Inr \<lparr>s_link = new_link lib rl, clientIP = ip, vmIP = None, vmMAC = None, bytesReceived = 0,
            udpFlows = flows_mgr, conns = (\<lambda>_. blank_conn), next_conn = 0, tcpConnections = [],
            reverseTcpConnections = [], recentlyClosed = {}, udpProxyNatTable = [],
            session_tasks = [], nickname = None\<rparr>))"

definition connections_from :: "relay \<Rightarrow> string \<Rightarrow> nat" where
  "connections_from R ip = (case map_get (connectionsPerIP R) ip of Some n \<Rightarrow> n | None \<Rightarrow> 0)"

definition count_connection :: "string \<Rightarrow> nat \<Rightarrow> relay \<Rightarrow> relay" where
  "count_connection ip n R = R\<lparr>connectionsPerIP := map_set ip n (connectionsPerIP R)\<rparr>"

text \<open>
  \<open>uuid\<close> is the fresh random session id. The result is the new session's number, or \<open>None\<close> when
  the WebSocket is closed at once.
\<close>

definition on_connection :: "config \<Rightarrow> ws_lib \<Rightarrow> string \<Rightarrow> string \<Rightarrow> (relay, nat option) act" where
  "on_connection cfg lib ip uuid =
     reads (\<lambda>R. connections_from R ip) (\<lambda>currentConnections.
       if int currentConnections \<ge> MAX_CONNECTIONS_PER_IP cfg then ret None
       else andthen (modify (count_connection ip (currentConnections + 1))) (\<lambda>_.
            andthen (lift_result (new_session cfg lib ip)) (\<lambda>S.
            reads next_session (\<lambda>sid.
            andthen (modify (\<lambda>R. R\<lparr>session_of := (session_of R)(sid := S), next_session := sid + 1,
                                 activeSessions := map_set uuid sid (activeSessions R),
                                 closure := (closure R)(sid := (ip, uuid))\<rparr>)) (\<lambda>_.
              ret (Some sid))))))"

text \<open>A text message: \<open>ping:\<close> is answered, everything else ignored.\<close>

definition send_text :: "string \<Rightarrow> link \<Rightarrow> link" where
  "send_text str l = l\<lparr>texts := texts l @ [str],
     bufferedAmount := buffering l (bufferedAmount l) (map (\<lambda>c. word_of_nat (of_char c)) str)\<rparr>"

definition on_text :: "nat \<Rightarrow> string \<Rightarrow> relay \<Rightarrow> relay" where
  "on_text sid str R =
     (if take 5 str = ''ping:'' then upd_session sid (set_link (send_text (''pong:'' @ drop 5 str))) R
      else R)"

text \<open>What close does to each connection; the state field is not changed.\<close>

definition close_forward :: "tcp_conn \<Rightarrow> tcp_conn" where
  "close_forward c = destroy_sink (destroy_source (stop_timers c))"

definition close_reverse :: "tcp_conn \<Rightarrow> tcp_conn" where
  "close_reverse c = settle_promise (Rejected (GenericError ''VM session closed''))
     (destroy_sink (destroy_source ((stop_timers c)\<lparr>idleTimer := False\<rparr>)))"

definition close_session :: "session \<Rightarrow> session" where
  "close_session S =
     (let S = S\<lparr>udpFlows := close_manager (udpFlows S)\<rparr>;
          S = fold (\<lambda>(key, cid). upd_conn cid close_forward) (tcpConnections S) S;
          S = set_link (\<lambda>l. l\<lparr>tcpTransportWaiters := []\<rparr>) (S\<lparr>tcpConnections := []\<rparr>);
          S = fold (\<lambda>(key, cid). upd_conn cid close_reverse) (reverseTcpConnections S) S
      in S\<lparr>reverseTcpConnections := []\<rparr>)"

definition on_close :: "nat \<Rightarrow> relay \<Rightarrow> relay" where
  "on_close sid R =
     (let (ip, sessionId) = closure R sid;
          R = count_connection ip (connections_from R ip - 1) R;
          R = (case vmMAC (session_of R sid) of
                 Some mac \<Rightarrow> R\<lparr>pool := releaseIP mac (pool R)\<rparr> | None \<Rightarrow> R);
          R = upd_session sid close_session R
      in R\<lparr>activeSessions := map_delete sessionId (activeSessions R)\<rparr>)"

section \<open>Connections from the host to a VM\<close>

text \<open>
  The TCP forwards, the HTTP proxy and its upgrade handler all look up the session of the rule's VM
  and open a connection to it: \<open>None\<close> is a VM that is not connected (the local socket is ended, or
  502), otherwise the session with the outcome of createTCPConnection.
\<close>

definition connect_vm ::
  "config \<Rightarrow> string \<Rightarrow> nat \<Rightarrow> u32 \<Rightarrow> relay \<Rightarrow> (nat \<times> nat result) option \<times> relay" where
  "connect_vm cfg vm port isn R =
     (case map_get (ipToSession (pool R)) vm of
        None \<Rightarrow> (None, R)
      | Some sid \<Rightarrow>
          (case createTCPConnection cfg port isn (nextProxyPort R) (session_of R sid) of
             (next', r, S) \<Rightarrow> (Some (sid, r), (upd_session sid (\<lambda>_. S) R)\<lparr>nextProxyPort := next'\<rparr>)))"

text \<open>The local socket of a TCP forward closes or fails.\<close>

definition local_closed :: "config \<Rightarrow> nat \<Rightarrow> (session, unit) act" where
  "local_closed cfg connKey =
     reads (\<lambda>S. map_get (reverseTcpConnections S) connKey) (\<lambda>found. case found of
       None \<Rightarrow> ret ()
     | Some cid \<Rightarrow> seq_act (set_conn cid (\<lambda>c. c\<lparr>pendingFin := True\<rparr>)) (trySendReverseToVM cfg connKey))"

definition local_failed :: "config \<Rightarrow> nat \<Rightarrow> js_error \<Rightarrow> (session, unit) act" where
  "local_failed cfg connKey err =
     reads (\<lambda>S. map_get (reverseTcpConnections S) connKey) (\<lambda>found. case found of
       None \<Rightarrow> ret () | Some cid \<Rightarrow> abortReverseConnection cfg connKey cid err True)"

text \<open>
  The cleanup of a proxied request or upgrade (run once): the connection still in the table under
  the key is aborted, and both streams of the connection it opened are destroyed.
\<close>

definition proxy_cleanup :: "config \<Rightarrow> nat \<Rightarrow> nat \<Rightarrow> js_error \<Rightarrow> (session, unit) act" where
  "proxy_cleanup cfg connKey cid err =
     seq_act (local_failed cfg connKey err) (set_conn cid (\<lambda>c. destroy_sink (destroy_source c)))"

text \<open>\<open>Some\<close> the status a request gets before it is proxied, \<open>None\<close> when it is.\<close>

definition proxy_refusal :: "string \<Rightarrow> string \<Rightarrow> relay \<Rightarrow> nat option" where
  "proxy_refusal host url R =
     (case findProxyRule host url (proxy R) of
        None \<Rightarrow> Some 404
      | Some r \<Rightarrow> if map_has (ipToSession (pool R)) (rule_vm r) then None else Some 502)"

end
