(* ===== verification/Tcp_Wire.thy ===== *)
theory Tcp_Wire
  imports Tcp_Handlers
begin

text \<open>
  What sendTCP puts on the wire (relay.js), read back with the parsers of the other direction:
  every emitted frame is parsed again by parseIPv4Packet, its checksum verified and its TCP header
  read as the packet handlers read one.
\<close>

section \<open>Reading a frame\<close>

text \<open>The header and the flag byte of the TCP segment in an Ethernet frame that verifies.\<close>

definition read_segment :: "bytes \<Rightarrow> (tcp_header \<times> byte) option" where
  "read_segment frame =
     (case parseIPv4Packet (drop 14 frame) of
        None \<Rightarrow> None
      | Some r \<Rightarrow>
          if ip_protocol r = 6 \<and> transport_valid (ip_packet r) 6
          then map_option (\<lambda>h. (h, byte_at (ip_packet r) 33)) (parse_tcp (ip_packet r)) else None)"

text \<open>What a segment with the given sequence number, payload and flags should read as.\<close>

definition sent_header :: "config \<Rightarrow> tcp_conn \<Rightarrow> int \<Rightarrow> u32 \<times> bytes \<times> tcp_flags \<Rightarrow> tcp_header \<times> byte" where
  "sent_header cfg conn window seg = (case seg of (s, chunk, f) \<Rightarrow>
     (\<lparr>th_srcPort = tx_srcPort (tx conn), th_dstPort = tx_dstPort (tx conn), th_seq = s,
       th_ack = vmSeq conn, th_window = nat window, SYN = syn f, ACK = ack f, FIN = fin f, RST = rst f,
       th_payload = chunk,
       th_options = (if syn f then no_options\<lparr>opt_mss := Some (nat (TCP_MSS cfg))\<rparr> else no_options),
       th_bare = (chunk = [])\<rparr>, flag_byte f))"

section \<open>The bytes of a segment\<close>

definition tcp_bytes :: "nat \<Rightarrow> nat \<Rightarrow> u32 \<Rightarrow> u32 \<Rightarrow> byte \<Rightarrow> byte \<Rightarrow> nat \<Rightarrow> nat \<Rightarrow> bytes \<Rightarrow> bytes \<Rightarrow> bytes" where
  "tcp_bytes sp dp s a off f w cks opts chunk =
     u16_bytes sp @ u16_bytes dp @ u32_bytes s @ u32_bytes a @ [off, f] @ u16_bytes w @ u16_bytes cks
       @ [0, 0] @ opts @ chunk"

lemma length_tcp_bytes [simp]: "length (tcp_bytes sp dp s a off f w c opts chunk) = 20 + length opts + length chunk"
  by (simp add: tcp_bytes_def)

definition header_byte :: "bytes \<Rightarrow> byte" where
  "header_byte opts = push_bit 4 (word_of_nat ((20 + length opts) div 4))"

lemma tcp_segment_bytes:
  assumes "tx_srcPort (tx conn) \<le> 0xffff" "tx_dstPort (tx conn) \<le> 0xffff" "0 \<le> window" "window \<le> 0xffff"
  shows "tcp_segment cfg conn s f window chunk =
    Inr (tcp_bytes (tx_srcPort (tx conn)) (tx_dstPort (tx conn)) s (vmSeq conn)
      (header_byte (tcp_options_for cfg (syn f))) (flag_byte f) (nat window) 0
      (tcp_options_for cfg (syn f)) chunk)"
proof -
  let ?o = "tcp_options_for cfg (syn f)"
  let ?mem = "alloc (20 + length ?o + length chunk)"
  have z: "[0, 0, 0, 0] = u16_bytes 0 @ [0, 0]" by (simp add: u16_bytes_def)
  have w: "writeWindow window t = Inr (put t 14 (u16_bytes (nat window)))" for t
    using assms by (simp add: writeWindow_def writeUInt16BE_def nat_le_iff)
  have p: "writeUInt16BE (tx_srcPort (tx conn)) 0 t = Inr (put t 0 (u16_bytes (tx_srcPort (tx conn))))"
    "writeUInt16BE (tx_dstPort (tx conn)) 2 t = Inr (put t 2 (u16_bytes (tx_dstPort (tx conn))))" for t
    using assms by (simp_all add: writeUInt16BE_def)
  have "put (put (put (put (put (put (put (put (put ?mem 0 a) 2 b) 4 c) 8 d) 12 e) 14 g) 16 z) 20 ?o)
      (20 + length ?o) chunk = ((((((((a @ b) @ c) @ d) @ e) @ g) @ z) @ ?o) @ chunk)"
    if "length a = 2" "length b = 2" "length c = 4" "length d = 4" "length e = 2" "length g = 2"
      "length z = 4" for a b c d e g z
    using that by (simp add: put_first put_next del: append_assoc)
  then show ?thesis
    unfolding tcp_segment_def Let_def p w z bind_result_simps tcp_bytes_def header_byte_def by simp
qed

section \<open>Reading the bytes of a segment\<close>

lemma u32be_append2 [buffer_simps]: "length p \<le> i \<Longrightarrow> u32be (p @ q) i = u32be q (i - length p)"
  by (simp add: u32be_def u16be_append2 Suc_diff_le)

lemma flag_byte_bits:
  "(flag_byte f AND 0x02 \<noteq> 0) = syn f" "(flag_byte f AND 0x10 \<noteq> 0) = ack f"
  "(flag_byte f AND 0x01 \<noteq> 0) = fin f" "(flag_byte f AND 0x04 \<noteq> 0) = rst f"
  by (cases "syn f"; cases "ack f"; cases "fin f"; cases "rst f"; cases "psh f"; simp add: flag_byte_def)+

lemma u16be_Cons2_2: "u16be (x # y # p) 2 = u16be p 0"
  by (simp add: u16be_def)

lemma tcp_bytes_fields:
  assumes "sp < 65536" "dp < 65536" "w < 65536"
  shows "u16be (tcp_bytes sp dp s a off f w c opts chunk) 0 = sp"
    "u16be (tcp_bytes sp dp s a off f w c opts chunk) 2 = dp"
    "u32be (tcp_bytes sp dp s a off f w c opts chunk) 4 = s"
    "u32be (tcp_bytes sp dp s a off f w c opts chunk) 8 = a"
    "byte_at (tcp_bytes sp dp s a off f w c opts chunk) 12 = off"
    "byte_at (tcp_bytes sp dp s a off f w c opts chunk) 13 = f"
    "u16be (tcp_bytes sp dp s a off f w c opts chunk) 14 = w"
  using assms
  by (simp_all add: tcp_bytes_def u16be_append2 u32be_append2 byte_at_append2 u16be_Cons2_2)

lemma tcp_bytes_payload:
  "drop (20 + length opts) (tcp_bytes sp dp s a off f w c opts chunk) = chunk"
proof -
  define pre where "pre = u16_bytes sp @ u16_bytes dp @ u32_bytes s @ u32_bytes a @ [off, f]
    @ u16_bytes w @ u16_bytes c @ [0, 0] @ opts"
  have "tcp_bytes sp dp s a off f w c opts chunk = pre @ chunk" "length pre = 20 + length opts"
    by (simp_all add: pre_def tcp_bytes_def)
  then show ?thesis by simp
qed

lemma tcp_bytes_put_checksum:
  "put (tcp_bytes sp dp s a off f w c opts chunk) 16 (u16_bytes c') =
   tcp_bytes sp dp s a off f w c' opts chunk"
  by (simp add: put_def tcp_bytes_def)

definition mss_option :: "config \<Rightarrow> bool \<Rightarrow> tcp_options" where
  "mss_option cfg is_syn =
     (if is_syn then no_options\<lparr>opt_mss := Some (nat (TCP_MSS cfg))\<rparr> else no_options)"

lemma syn_options_bytes:
  assumes "0 < TCP_MSS cfg" "TCP_MSS cfg \<le> 0xffff"
  shows "tcp_options_for cfg True = [2, 4] @ u16_bytes (nat (TCP_MSS cfg))"
proof -
  have "word_of_int m = (word_of_nat (nat m) :: byte)" if "0 \<le> m" for m :: int
    using that by simp
  then have "word_of_int (TCP_MSS cfg) = (word_of_nat (nat (TCP_MSS cfg)) :: byte)"
    "word_of_int (TCP_MSS cfg div 256) = (word_of_nat (nat (TCP_MSS cfg div 256)) :: byte)"
    using assms pos_imp_zdiv_nonneg_iff [of 256 "TCP_MSS cfg"] by auto
  moreover have "nat (TCP_MSS cfg div 256) = nat (TCP_MSS cfg) div 256"
    using assms by (simp add: nat_div_distrib)
  ultimately show ?thesis by (simp add: tcp_options_for_def u16_bytes_def)
qed

lemma read_mss_option:
  assumes "0 < TCP_MSS cfg" "TCP_MSS cfg \<le> 0xffff"
  shows "options_loop (pre @ tcp_options_for cfg True @ post) (length pre + 4) (length pre) no_options =
    mss_option cfg True"
proof -
  let ?o = "OptMSS (nat (TCP_MSS cfg))"
  have e: "tcp_options_for cfg True = encode_option ?o"
    using syn_options_bytes [OF assms] by simp
  have wf: "wf_option ?o" using assms by simp
  have "options_loop (pre @ encode_option ?o @ post) (length pre + 4) (length pre) no_options =
    options_loop (pre @ encode_option ?o @ post) (length pre + 4) (length pre + length (encode_option ?o))
      (apply_option ?o no_options)"
    using options_loop_step [OF wf, of pre "length pre + 4" post no_options] by simp
  also have "\<dots> = apply_option ?o no_options"
    by (subst options_loop.simps) simp
  finally show ?thesis using assms e by (simp add: mss_option_def)
qed

lemma parse_tcp_bytes:
  assumes "length H = 20" "byte_at H 0 AND 0x0f = 5" "sp < 65536" "dp < 65536" "w < 65536"
    and "0 < TCP_MSS cfg" "TCP_MSS cfg \<le> 0xffff"
    and opts_def: "opts = tcp_options_for cfg (syn f)"
  shows "parse_tcp (H @ tcp_bytes sp dp s a (header_byte opts) (flag_byte f) w c opts chunk) =
    Some \<lparr>th_srcPort = sp, th_dstPort = dp, th_seq = s, th_ack = a, th_window = w, SYN = syn f,
      ACK = ack f, FIN = fin f, RST = rst f, th_payload = chunk, th_options = mss_option cfg (syn f),
      th_bare = (chunk = [])\<rparr>"
proof -
  let ?t = "tcp_bytes sp dp s a (header_byte opts) (flag_byte f) w c opts chunk"
  note fields = tcp_bytes_fields [OF assms(3,4,5), where s = s and a = a and off = "header_byte opts"
      and f = "flag_byte f" and c = c and opts = opts and chunk = chunk]
  have lo: "length opts = (if syn f then 4 else 0)" by (simp add: opts_def tcp_options_for_def)
  have off: "unat (drop_bit 4 (header_byte opts)) * 4 = 20 + length opts"
    by (simp add: header_byte_def lo)
  have opts': "(if 20 + length opts > 20
      then (case parseTCPOptions (H @ ?t) (int (20 + 20)) (int (20 + (20 + length opts))) of
              Inr options \<Rightarrow> options | Inl _ \<Rightarrow> no_options)
      else no_options) = mss_option cfg (syn f)"
  proof (cases "syn f")
    case True
    define pre where "pre = H @ u16_bytes sp @ u16_bytes dp @ u32_bytes s @ u32_bytes a
      @ [header_byte opts, flag_byte f] @ u16_bytes w @ u16_bytes c @ [0, 0]"
    have p: "H @ ?t = pre @ opts @ chunk" "length pre = 40"
      using assms(1) by (simp_all add: pre_def tcp_bytes_def)
    then show ?thesis
      using True lo read_mss_option [OF assms(6,7), of pre chunk]
      by (simp add: parseTCPOptions_def isSafeInteger_def opts_def)
  qed (simp add: lo mss_option_def)
  have at20: "u16be (H @ ?t) 20 = sp" "u16be (H @ ?t) (20 + 2) = dp" "u32be (H @ ?t) (20 + 4) = s"
    "u32be (H @ ?t) (20 + 8) = a" "u16be (H @ ?t) (20 + 14) = w"
    "byte_at (H @ ?t) (20 + 13) = flag_byte f" "byte_at (H @ ?t) (20 + 12) = header_byte opts"
    using fields assms(1) by (simp_all add: u16be_append2 u32be_append2 byte_at_append2 byte_at_append1)
  have rest: "drop (20 + (20 + length opts)) (H @ ?t) = chunk"
    using assms(1) tcp_bytes_payload [of opts sp dp s a "header_byte opts" "flag_byte f" w c chunk]
    by simp
  have ihl: "unat (byte_at (H @ ?t) 0 AND 0x0f) * 4 = 20"
    using assms(1,2) by (simp add: byte_at_append1)
  show ?thesis
    unfolding parse_tcp_def Let_def ihl at20 off opts' rest flag_byte_bits
    using assms(1) by simp
qed

section \<open>Emitting a segment\<close>

lemma drop_put_end: "length buf = off + length src \<Longrightarrow> drop off (put buf off src) = src"
  by (simp add: put_def)

lemma drop_ip_frame [simp]: "drop 14 (ip_frame mac p) = p"
  unfolding ip_frame_def Let_def by (rule drop_put_end) simp

lemma put_append2: "length p = k \<Longrightarrow> put (p @ q) (k + i) src = p @ put q i src"
  by (auto simp: put_def)

text \<open>A connection whose segments can be written: its addresses are bytes and its ports fit.\<close>

definition addressed :: "tcp_conn \<Rightarrow> bool" where
  "addressed c \<longleftrightarrow> length (srcAddress (tx c)) = 4 \<and> length (dstAddress (tx c)) = 4
     \<and> tx_srcPort (tx c) \<le> 0xffff \<and> tx_dstPort (tx c) \<le> 0xffff"

definition segment_bytes :: "config \<Rightarrow> tcp_conn \<Rightarrow> int \<Rightarrow> u32 \<Rightarrow> tcp_flags \<Rightarrow> bytes \<Rightarrow> bytes" where
  "segment_bytes cfg c window s f chunk =
     tcp_bytes (tx_srcPort (tx c)) (tx_dstPort (tx c)) s (vmSeq c)
       (header_byte (tcp_options_for cfg (syn f))) (flag_byte f) (nat window) 0
       (tcp_options_for cfg (syn f)) chunk"

lemma read_built_segment:
  assumes "addressed c" "0 \<le> window" "window \<le> 0xffff" "0 < TCP_MSS cfg" "TCP_MSS cfg \<le> 0xffff"
    and build: "buildIPv4Packet (segment_bytes cfg c window s f chunk) src dst 6 i = Inr p"
    and cks: "with_checksum tcpChecksum 16 p = Inr q"
  shows "read_segment (ip_frame mac q) = Some (sent_header cfg c window (s, chunk, f))"
proof -
  let ?t = "segment_bytes cfg c window s f chunk"
  obtain sb db k where sd: "length sb = 4" "length db = 4" and size: "20 + length ?t \<le> 65535"
    and i: "i \<le> 65535" and k: "k < 65536" and p: "p = ipv4_header (20 + length ?t) i 6 sb db k @ ?t"
    using build by (auto elim!: buildIPv4Packet_InrE)
  define H where "H = ipv4_header (20 + length ?t) i 6 sb db k"
  have H: "length H = 20" "byte_at H 0 AND 0x0f = 5"
    using sd by (simp_all add: H_def) (simp add: ipv4_header_def)
  obtain c' where c': "transportChecksum p 6 16 = Inr c'" "c' < 65536"
    "transport_valid (put p (20 + 16) (u16_bytes c')) 6"
    using built_checksum [OF build, of 16] by (auto simp: segment_bytes_def)
  then have q: "q = put p (20 + 16) (u16_bytes c')"
    using cks by (simp add: with_checksum_def tcpChecksum_def writeUInt16BE_def)
  define t' where "t' = put ?t 16 (u16_bytes c')"
  have q': "q = H @ t'"
    using H(1) unfolding q p t'_def H_def [symmetric] by (rule put_append2)
  have t': "t' = tcp_bytes (tx_srcPort (tx c)) (tx_dstPort (tx c)) s (vmSeq c)
      (header_byte (tcp_options_for cfg (syn f))) (flag_byte f) (nat window) c'
      (tcp_options_for cfg (syn f)) chunk"
    by (simp add: t'_def segment_bytes_def tcp_bytes_put_checksum)
  have len: "length t' = length ?t" by (simp add: t' segment_bytes_def)
  have parsed: "parseIPv4Packet q = Some \<lparr>ip_packet = q, ip_headerLength = 20,
      ip_totalLength = 20 + length ?t, ip_protocol = 6, ip_srcIP = formatIPv4 sb 0,
      ip_dstIP = formatIPv4 db 0, ip_moreFragments = False, ip_fragmentOffset = 0\<rparr>"
    using parse_header [OF sd, of "20 + length ?t" t' 6 i k "[]"] size i k len
    by (simp add: q' H_def)
  have tcp: "parse_tcp q = Some (fst (sent_header cfg c window (s, chunk, f)))"
    using assms parse_tcp_bytes [OF H, of "tx_srcPort (tx c)" "tx_dstPort (tx c)" "nat window" cfg
        "tcp_options_for cfg (syn f)" f s "vmSeq c" c' chunk]
    by (simp add: q' t' sent_header_def addressed_def mss_option_def)
  have flags: "byte_at q 33 = flag_byte f"
    using H tcp_bytes_fields(6) [where w = "nat window" and sp = "tx_srcPort (tx c)" and dp = "tx_dstPort (tx c)"] assms
    by (simp add: q' t' byte_at_append2 addressed_def)
  have valid: "transport_valid q 6" using c'(3) q by simp
  show ?thesis
    unfolding read_segment_def drop_ip_frame parsed
    using valid tcp flags by (simp add: sent_header_def)
qed

text \<open>The frames of a link after something was sent: nothing reaches a closed WebSocket.\<close>

definition sent_on :: "link \<Rightarrow> bytes list \<Rightarrow> link \<Rightarrow> bool" where
  "sent_on l news l' \<longleftrightarrow> ws_open l' = ws_open l \<and> frames l' = frames l @ (if ws_open l then news else [])"

lemma sent_on_trans: "sent_on l xs l1 \<Longrightarrow> sent_on l1 ys l2 \<Longrightarrow> sent_on l (xs @ ys) l2"
  by (simp add: sent_on_def)

lemma emit_segment_run:
  assumes "addressed c" "length tcp \<le> 65515" "20 \<le> length tcp"
  obtains l' p q i where
    "emit_segment cfg tcp (c, l) = (Inr (), (c, l'))"
    "buildIPv4Packet tcp (AddrBuffer (srcAddress (tx c))) (AddrBuffer (dstAddress (tx c))) 6 i = Inr p"
    "with_checksum tcpChecksum 16 p = Inr q" "sent_on l [ip_frame (vmMACBytes l) q] l'"
proof -
  let ?i = "idents l (drawn l) mod 65535"
  have ab: "ipv4Bytes (AddrBuffer (srcAddress (tx c))) = Inr (srcAddress (tx c))"
    "ipv4Bytes (AddrBuffer (dstAddress (tx c))) = Inr (dstAddress (tx c))"
    using assms(1) by (simp_all add: ipv4Bytes_def addressed_def)
  have "?i \<le> 65535" by (simp add: less_imp_le)
  then obtain p where p: "buildIPv4Packet tcp (AddrBuffer (srcAddress (tx c)))
      (AddrBuffer (dstAddress (tx c))) 6 ?i = Inr p"
    using build_succeeds [OF ab assms(2)] by blast
  obtain k where "transportChecksum p 6 16 = Inr k" "k < 65536"
    using built_checksum [OF p, of 16] assms(3) by auto
  then obtain q where q: "with_checksum tcpChecksum 16 p = Inr q"
    by (simp add: with_checksum_def tcpChecksum_def writeUInt16BE_def)
  define l1 where "l1 = l\<lparr>drawn := drawn l + 1\<rparr>"
  have "on_link (buildIP tcp (AddrBuffer (srcAddress (tx c))) (AddrBuffer (dstAddress (tx c))) 6) (c, l)
      = (Inr p, (c, l1))"
    using p by (simp add: on_link_def inside_def buildIP_def draw_ident_def andthen_def lift_result_def l1_def)
  then have "emit_segment cfg tcp (c, l) = on_link (sendIPToVM cfg q) (c, l1)"
    using q by (simp add: emit_segment_def the_conn_def reads_run andthen_def lift_result_def)
  moreover obtain l' where "on_link (sendIPToVM cfg q) (c, l1) = (Inr (), (c, l'))"
    "sent_on l [ip_frame (vmMACBytes l) q] l'"
    by (simp add: on_link_def inside_def sendIPToVM_def sendToVM_def act_simps l1_def Let_def sent_on_def)
  ultimately show ?thesis using that p q by auto
qed

section \<open>Segmentation\<close>

text \<open>
  The reference: a payload is cut into pieces of \<open>n\<close> bytes that follow one another in the
  sequence space, and the last piece alone carries PSH and FIN.
\<close>

function pieces :: "nat \<Rightarrow> u32 \<Rightarrow> tcp_flags \<Rightarrow> bytes \<Rightarrow> (u32 \<times> bytes \<times> tcp_flags) list" where
  "pieces n s f payload =
     (if length payload \<le> n \<or> n = 0 then [(s, payload, f)]
      else (s, take n payload, f\<lparr>psh := False, fin := False\<rparr>)
        # pieces n (s + word_of_nat n) f (drop n payload))"
  by pat_completeness auto
termination
  by (relation "measure (\<lambda>(n, s, f, payload). length payload)") auto

declare pieces.simps [simp del]

lemma pieces_concat: "concat (map (\<lambda>(s, chunk, f). chunk) (pieces n s f payload)) = payload"
proof (induction n s f payload rule: pieces.induct)
  case (1 n s f payload)
  then show ?case by (subst pieces.simps) (simp del: drop_drop)
qed

lemma pieces_size: "0 < n \<Longrightarrow> (s', chunk, f') \<in> set (pieces n s f payload) \<Longrightarrow> length chunk \<le> n"
proof (induction n s f payload rule: pieces.induct)
  case (1 n s f payload)
  then show ?case by (subst (asm) (2) pieces.simps) (auto split: if_splits)
qed

definition announced :: "config \<Rightarrow> tcp_flags \<Rightarrow> tcp_conn \<Rightarrow> int" where
  "announced cfg flags c =
     (case windowSize flags of Some w \<Rightarrow> w | None \<Rightarrow> tcpReceiveWindow (TCP_WINDOW_SIZE cfg) c)"

definition writable_window :: "tcp_flags \<Rightarrow> bool" where
  "writable_window flags \<longleftrightarrow> windowSize flags \<in> insert None (Some ` {0..0xffff})"

lemma announced_bounds: "writable_window flags \<Longrightarrow> 0 \<le> announced cfg flags c \<and> announced cfg flags c \<le> 0xffff"
  by (auto simp: writable_window_def announced_def tcpReceiveWindow_def Let_def)

lemma relaySeq_irrelevant [simp]:
  "addressed (c\<lparr>relaySeq := s\<rparr>) = addressed c"
  "announced cfg flags (c\<lparr>relaySeq := s\<rparr>) = announced cfg flags c"
  "sent_header cfg (c\<lparr>relaySeq := s\<rparr>) = sent_header cfg c"
  by (auto simp: addressed_def announced_def sent_header_def tcpReceiveWindow_def fun_eq_iff
      split: option.split)

lemma segment_sent:
  assumes ok: "addressed c" "writable_window flags" "0 < TCP_MSS cfg" "TCP_MSS cfg \<le> 65495"
    and size: "length chunk \<le> 65495" "syn f \<Longrightarrow> chunk = []"
  obtains l' fr where
    "andthen (lift_result (tcp_segment cfg c s f (announced cfg flags c) chunk)) (\<lambda>tcp.
       seq_act (whenever b (on_conn (\<lambda>c. c\<lparr>relaySeq := s'\<rparr>))) (seq_act (emit_segment cfg tcp) k)) (c, l) =
     k (if b then c\<lparr>relaySeq := s'\<rparr> else c, l')"
    "sent_on l [fr] l'" "read_segment fr = Some (sent_header cfg c (announced cfg flags c) (s, chunk, f))"
proof -
  let ?w = "announced cfg flags c"
  let ?t = "segment_bytes cfg c ?w s f chunk"
  let ?c = "if b then c\<lparr>relaySeq := s'\<rparr> else c"
  note w = announced_bounds [OF ok(2), of cfg c]
  have seg: "tcp_segment cfg c s f ?w chunk = Inr ?t"
    using tcp_segment_bytes ok(1) w by (simp add: addressed_def segment_bytes_def)
  have len: "length ?t \<le> 65515" "20 \<le> length ?t"
    using size by (auto simp: segment_bytes_def tcp_options_for_def)
  have c: "addressed ?c" "tx ?c = tx c" using ok(1) by simp_all
  obtain l' p q i where e: "emit_segment cfg ?t (?c, l) = (Inr (), (?c, l'))"
    and build: "buildIPv4Packet ?t (AddrBuffer (srcAddress (tx ?c))) (AddrBuffer (dstAddress (tx ?c))) 6 i = Inr p"
      "with_checksum tcpChecksum 16 p = Inr q"
    and fr: "sent_on l [ip_frame (vmMACBytes l) q] l'"
    by (rule emit_segment_run [OF c(1) len, of cfg l])
  have "seq_act (emit_segment cfg ?t) k (?c, l) = k (?c, l')"
    using e by (rule seq_act_Inr)
  then have "andthen (lift_result (tcp_segment cfg c s f ?w chunk)) (\<lambda>tcp.
       seq_act (whenever b (on_conn (\<lambda>c. c\<lparr>relaySeq := s'\<rparr>))) (seq_act (emit_segment cfg tcp) k)) (c, l) =
     k (?c, l')"
    unfolding seg by (cases b) (simp_all add: andthen_def lift_result_def act_simps on_conn_def)
  moreover have "read_segment (ip_frame (vmMACBytes l) q) = Some (sent_header cfg c ?w (s, chunk, f))"
    using read_built_segment [OF ok(1), of ?w cfg s f chunk] w ok(3,4) build by simp
  ultimately show ?thesis by (rule that [OF _ fr])
qed

lemma segment_flags_data:
  "\<not> syn flags \<Longrightarrow> segment_flags flags offset n len =
     (if len \<le> offset then flags else flags\<lparr>psh := False, fin := False\<rparr>)"
  by (cases flags) (simp add: segment_flags_def Let_def)

lemma send_loop_end:
  "payload \<noteq> [] \<Longrightarrow> length payload \<le> offset \<Longrightarrow>
   send_loop cfg m payload flags advance offset s sent = ret sent"
  by (subst send_loop.simps) auto

text \<open>The connection after sending up to \<open>s\<close>; a retransmission does not move relaySeq.\<close>

definition moved :: "bool \<Rightarrow> u32 \<Rightarrow> tcp_conn \<Rightarrow> tcp_conn" where
  "moved b s c = (if b then c\<lparr>relaySeq := s\<rparr> else c)"

lemma moved_simps [simp]:
  "addressed (moved b s c) = addressed c" "announced cfg flags (moved b s c) = announced cfg flags c"
  "sent_header cfg (moved b s c) = sent_header cfg c" "moved b s (moved b s' c) = moved b s c"
  by (simp_all add: moved_def)

lemma send_loop_pieces:
  assumes ok: "writable_window flags" "0 < TCP_MSS cfg" "TCP_MSS cfg \<le> 65495" "m < 65495"
    and data: "\<not> syn flags" "\<not> rst flags"
  shows "addressed c \<Longrightarrow> offset < length payload \<Longrightarrow>
    \<exists>l' news.
      send_loop cfg m payload flags adv offset s sent (c, l) =
        (Inr (sent @ pieces (Suc m) s flags (drop offset payload)),
         (moved adv (s + word_of_nat (sequence_length (drop offset payload) flags)) c, l'))
      \<and> sent_on l news l'
      \<and> map read_segment news =
          map (Some \<circ> sent_header cfg c (announced cfg flags c))
            (pieces (Suc m) s flags (drop offset payload))"
proof (induction "length payload - offset" arbitrary: offset s sent c l rule: less_induct)
  case less
  let ?rest = "drop offset payload"
  define chunk where "chunk = take (Suc m) ?rest"
  define offset' where "offset' = offset + length chunk"
  define f where "f = segment_flags flags offset' (length chunk) (length payload)"
  define s' where "s' = s + word_of_nat (sequence_length chunk f)"
  have ne: "payload \<noteq> []" "0 < length chunk" using less.prems by (auto simp: chunk_def)
  have f: "f = (if length payload \<le> offset' then flags else flags\<lparr>psh := False, fin := False\<rparr>)"
    by (simp add: f_def segment_flags_data data)
  have counts: "sequence_length chunk f > 0 \<and> \<not> rst f" and synf: "\<not> syn f"
    using ne data by (simp_all add: sequence_length_def f)
  have step: "send_loop cfg m payload flags adv offset s sent =
    the_conn (\<lambda>conn.
      andthen (lift_result (tcp_segment cfg conn s f (announced cfg flags conn) chunk)) (\<lambda>tcp.
      seq_act (whenever adv (on_conn (\<lambda>c. c\<lparr>relaySeq := s'\<rparr>)))
     (seq_act (emit_segment cfg tcp)
       (send_loop cfg m payload flags adv offset' s' (sent @ [(s, chunk, f)])))))"
    using less.prems(2) ne counts
    by (subst send_loop.simps)
      (simp add: Let_def subarray_def chunk_def offset'_def f_def s'_def announced_def)
  have size: "length chunk \<le> 65495" using ok(4) by (simp add: chunk_def)
  obtain l1 fr where run: "send_loop cfg m payload flags adv offset s sent (c, l) =
      send_loop cfg m payload flags adv offset' s' (sent @ [(s, chunk, f)]) (moved adv s' c, l1)"
    and l1: "sent_on l [fr] l1"
    and fr: "read_segment fr = Some (sent_header cfg c (announced cfg flags c) (s, chunk, f))"
    unfolding step the_conn_def reads_run fst_conv
    using segment_sent [OF less.prems(1) ok(1-3) size, of f s adv s'
        "send_loop cfg m payload flags adv offset' s' (sent @ [(s, chunk, f)])"] synf
    unfolding moved_def [symmetric] by (metis (lifting))
  show ?case
  proof (cases "length payload \<le> offset'")
    case True
    then have "length ?rest \<le> Suc m" by (auto simp: offset'_def chunk_def)
    then have p: "pieces (Suc m) s flags ?rest = [(s, ?rest, flags)]" and c: "chunk = ?rest"
      by (subst pieces.simps, simp, simp add: chunk_def)
    show ?thesis
      using run l1 fr True ne(1)
      by (intro exI [of _ l1] exI [of _ "[fr]"])
        (simp add: send_loop_end ret_def p c f s'_def)
  next
    case False
    then have long: "Suc m < length ?rest" by (auto simp: offset'_def chunk_def)
    then have o': "offset' = offset + Suc m" and len: "length chunk = Suc m"
      by (simp_all add: offset'_def chunk_def)
    have f': "f = flags\<lparr>psh := False, fin := False\<rparr>" using False by (simp add: f)
    have s': "s' = s + word_of_nat (Suc m)"
      using len data by (simp add: s'_def sequence_length_def f')
    have p: "pieces (Suc m) s flags ?rest = (s, chunk, f) # pieces (Suc m) s' flags (drop offset' payload)"
      using long by (subst pieces.simps) (simp add: chunk_def f' s' o' add.commute)
    have lt: "length payload - offset' < length payload - offset" "offset' < length payload"
      using False o' by auto
    obtain l2 news where r2: "send_loop cfg m payload flags adv offset' s' (sent @ [(s, chunk, f)])
          (moved adv s' c, l1) =
        (Inr ((sent @ [(s, chunk, f)]) @ pieces (Suc m) s' flags (drop offset' payload)),
         (moved adv (s' + word_of_nat (sequence_length (drop offset' payload) flags)) c, l2))"
      and l2: "sent_on l1 news l2"
      and news: "map read_segment news = map (Some \<circ> sent_header cfg c (announced cfg flags c))
          (pieces (Suc m) s' flags (drop offset' payload))"
      using less.hyps [OF lt(1) _ lt(2), of "moved adv s' c" s' "sent @ [(s, chunk, f)]" l1] less.prems(1)
      by auto
    have total: "s' + word_of_nat (sequence_length (drop offset' payload) flags) =
        s + word_of_nat (sequence_length ?rest flags)"
    proof -
      have "sequence_length ?rest flags = Suc m + sequence_length (drop offset' payload) flags"
        using long o' by (simp add: sequence_length_def)
      then show ?thesis by (simp add: s' add.assoc)
    qed
    show ?thesis
      using run r2 sent_on_trans [OF l1 l2] fr news
      by (intro exI [of _ l2] exI [of _ "fr # news"]) (simp add: total p)
  qed
qed

definition counted :: "u32 \<times> bytes \<times> tcp_flags \<Rightarrow> bool" where
  "counted seg = (case seg of (s, chunk, f) \<Rightarrow> sequence_length chunk f > 0 \<and> \<not> rst f)"

lemma counted_triple: "counted (s, chunk, f) = (sequence_length chunk f > 0 \<and> \<not> rst f)"
  by (simp add: counted_def)

lemma pieces_counted:
  "payload \<noteq> [] \<Longrightarrow> \<not> rst f \<Longrightarrow> filter counted (pieces n s f payload) = pieces n s f payload"
proof (induction n s f payload rule: pieces.induct)
  case (1 n s f payload)
  then show ?case
    by (subst (1 2) pieces.simps) (auto simp: counted_triple sequence_length_def)
qed

lemma send_empty:
  assumes "addressed c" "writable_window flags" "0 < TCP_MSS cfg" "TCP_MSS cfg \<le> 65495"
  shows "\<exists>l' news.
      send_loop cfg m [] flags adv 0 s [] (c, l) =
        (Inr (filter counted [(s, [], flags)]),
         (moved (adv \<and> counted (s, [], flags)) (s + word_of_nat (sequence_length [] flags)) c, l'))
      \<and> sent_on l news l'
      \<and> map read_segment news = [Some (sent_header cfg c (announced cfg flags c) (s, [], flags))]"
proof -
  let ?b = "counted (s, [], flags)"
  have f: "segment_flags flags 0 0 0 = flags" by (cases flags) (simp add: segment_flags_def)
  let ?sent = "if ?b then [(s, [], flags)] else []"
  have step: "send_loop cfg m [] flags adv 0 s [] = the_conn (\<lambda>conn.
      andthen (lift_result (tcp_segment cfg conn s flags (announced cfg flags conn) [])) (\<lambda>tcp.
      seq_act (whenever (adv \<and> ?b) (on_conn (\<lambda>c. c\<lparr>relaySeq := s + word_of_nat (sequence_length [] flags)\<rparr>)))
     (seq_act (emit_segment cfg tcp) (ret ?sent))))"
    by (subst send_loop.simps)
      (simp add: Let_def subarray_def f announced_def counted_def conj_commute whenever_def)
  obtain l1 fr where "send_loop cfg m [] flags adv 0 s [] (c, l) =
      ret ?sent (moved (adv \<and> ?b) (s + word_of_nat (sequence_length [] flags)) c, l1)"
    and "sent_on l [fr] l1" and "read_segment fr = Some (sent_header cfg c (announced cfg flags c) (s, [], flags))"
    unfolding step the_conn_def reads_run fst_conv
    using segment_sent [OF assms, of "[]" flags s "adv \<and> ?b" "s + word_of_nat (sequence_length [] flags)"
        "ret ?sent"]
    unfolding moved_def [symmetric] by auto
  then show ?thesis by (intro exI [of _ l1] exI [of _ "[fr]"]) (simp add: ret_def)
qed

text \<open>The segments sendTCP makes of a payload, which depend on the connection only.\<close>

definition segmentation ::
  "config \<Rightarrow> tcp_conn \<Rightarrow> bytes \<Rightarrow> tcp_flags \<Rightarrow> u32 option \<Rightarrow> (u32 \<times> bytes \<times> tcp_flags) list" where
  "segmentation cfg c payload flags sequence =
     pieces (nat (tcpMss cfg c)) (case sequence of Some s \<Rightarrow> s | None \<Rightarrow> relaySeq c) flags payload"

lemma mss_bounds: "config_ok cfg \<Longrightarrow> 1 \<le> tcpMss cfg c \<and> tcpMss cfg c \<le> 65495"
  using config_ok_mss [of cfg] by (auto simp: tcpMss_def)

lemma segmentation_facts:
  assumes "config_ok cfg"
  shows "concat (map (fst \<circ> snd) (segmentation cfg c payload flags sequence)) = payload"
    and "\<forall>(s, chunk, f) \<in> set (segmentation cfg c payload flags sequence). int (length chunk) \<le> tcpMss cfg c"
proof -
  let ?s = "case sequence of Some s \<Rightarrow> s | None \<Rightarrow> relaySeq c"
  show "concat (map (fst \<circ> snd) (segmentation cfg c payload flags sequence)) = payload"
    using pieces_concat [of "nat (tcpMss cfg c)" ?s flags payload]
    by (simp add: segmentation_def case_prod_unfold comp_def)
  show "\<forall>(s, chunk, f) \<in> set (segmentation cfg c payload flags sequence). int (length chunk) \<le> tcpMss cfg c"
    using pieces_size [of "nat (tcpMss cfg c)"] mss_bounds [OF assms, of c]
    by (fastforce simp: segmentation_def)
qed

text \<open>sendTCP does not throw, and this is its effect.\<close>

lemma sendTCP_outcome:
  assumes "config_ok cfg" "addressed c" "writable_window flags"
    and "payload = [] \<or> \<not> syn flags \<and> \<not> rst flags"
  obtains l' news where
    "sendTCP cfg payload flags sequence advance (c, l) =
       (Inr (filter counted (segmentation cfg c payload flags sequence)),
        (moved (advance \<and> filter counted (segmentation cfg c payload flags sequence) \<noteq> [])
           ((case sequence of Some s \<Rightarrow> s | None \<Rightarrow> relaySeq c)
              + word_of_nat (sequence_length payload flags)) c, l'))"
    "sent_on l news l'"
    "map read_segment news = map (Some \<circ> sent_header cfg c (announced cfg flags c))
       (segmentation cfg c payload flags sequence)"
proof -
  let ?s = "case sequence of Some s \<Rightarrow> s | None \<Rightarrow> relaySeq c"
  define m where "m = nat (tcpMss cfg c - 1)"
  have mss: "0 < TCP_MSS cfg" "TCP_MSS cfg \<le> 65495" using config_ok_mss [OF assms(1)] by auto
  have n: "nat (tcpMss cfg c) = Suc m" "m < 65495"
    using mss_bounds [OF assms(1), of c] unfolding m_def by linarith+
  have send: "sendTCP cfg payload flags sequence advance (c, l) =
      send_loop cfg m payload flags advance 0 ?s [] (c, l)"
    by (simp only: sendTCP_def the_conn_def reads_run m_def fst_conv)
  show ?thesis
  proof (cases "payload = []")
    case True
    have segs: "segmentation cfg c payload flags sequence = [(?s, [], flags)]"
      using True by (simp add: segmentation_def) (subst pieces.simps, simp)
    obtain l' news where "send_loop cfg m [] flags advance 0 ?s [] (c, l) =
        (Inr (filter counted [(?s, [], flags)]),
         (moved (advance \<and> counted (?s, [], flags)) (?s + word_of_nat (sequence_length [] flags)) c, l'))"
      and "sent_on l news l'"
      and "map read_segment news = [Some (sent_header cfg c (announced cfg flags c) (?s, [], flags))]"
      using send_empty [OF assms(2,3) mss, of m advance ?s l] by (elim exE conjE)
    then show ?thesis using that send True unfolding segs by simp
  next
    case False
    then have data: "\<not> syn flags" "\<not> rst flags" "0 < length payload" using assms(4) by auto
    let ?segs = "segmentation cfg c payload flags sequence"
    have all: "filter counted ?segs = ?segs"
      using False data by (simp add: segmentation_def pieces_counted)
    moreover have "?segs \<noteq> []" using segmentation_facts(1) [OF assms(1)] False by (metis concat.simps(1) list.map(1))
    moreover obtain l' news where "send_loop cfg m payload flags advance 0 ?s [] (c, l) =
        (Inr ?segs, (moved advance (?s + word_of_nat (sequence_length payload flags)) c, l'))"
      and "sent_on l news l'"
      and "map read_segment news = map (Some \<circ> sent_header cfg c (announced cfg flags c)) ?segs"
      using send_loop_pieces [OF assms(3) mss n(2) data(1,2) assms(2) data(3), of advance ?s "[]" l]
      by (auto simp: segmentation_def n(1))
    ultimately show ?thesis using that send by simp
  qed
qed

section \<open>Properties\<close>

text \<open>
  C9: what sendTCP sends is what the parsers of the relay read. For data, or for a control segment
  without data, every emitted frame parses as an IPv4 packet to the connection's addresses with a
  valid TCP checksum whose header carries the connection's ports, the announced window, the
  acknowledgement number, the MSS option exactly on a SYN, and the flags of the reference
  segmentation; the pieces give back the payload, none exceeds the segment size, their sequence
  numbers follow one another, and relaySeq moves by the sequence space they take, unless the
  segment is a retransmission or a reset.
\<close>

theorem sent_segments_read_back:
  assumes "config_ok cfg" "addressed c" "writable_window flags"
    and "payload = [] \<or> \<not> syn flags \<and> \<not> rst flags"
  shows "\<exists>l' news segs.
    sendTCP cfg payload flags sequence advance (c, l) =
      (Inr (filter counted segs),
       (moved (advance \<and> filter counted segs \<noteq> [])
          ((case sequence of Some s \<Rightarrow> s | None \<Rightarrow> relaySeq c)
             + word_of_nat (sequence_length payload flags)) c, l'))
    \<and> segs = segmentation cfg c payload flags sequence
    \<and> frames l' = frames l @ (if ws_open l then news else [])
    \<and> map read_segment news = map (\<lambda>g. Some (sent_header cfg c (announced cfg flags c) g)) segs
    \<and> concat (map (fst \<circ> snd) segs) = payload
    \<and> (\<forall>(s, chunk, f) \<in> set segs. int (length chunk) \<le> tcpMss cfg c)"
proof -
  obtain l' news where o: "sendTCP cfg payload flags sequence advance (c, l) =
       (Inr (filter counted (segmentation cfg c payload flags sequence)),
        (moved (advance \<and> filter counted (segmentation cfg c payload flags sequence) \<noteq> [])
           ((case sequence of Some s \<Rightarrow> s | None \<Rightarrow> relaySeq c)
              + word_of_nat (sequence_length payload flags)) c, l'))"
    "sent_on l news l'"
    "map read_segment news = map (Some \<circ> sent_header cfg c (announced cfg flags c))
       (segmentation cfg c payload flags sequence)"
    by (rule sendTCP_outcome [OF assms])
  then show ?thesis
    using segmentation_facts [OF assms(1), of c payload flags sequence]
    unfolding sent_on_def
    by (intro exI [of _ l'] exI [of _ news] exI [of _ "segmentation cfg c payload flags sequence"])
      (simp add: comp_def)
qed

text \<open>The connection of the examples, and a link to an open WebSocket.\<close>

definition example_conn :: tcp_conn where
  "example_conn = new_conn 0 (Reverse 30000)
     \<lparr>tx_srcPort = 80, tx_dstPort = 5000, tx_srcIP = ''8.8.8.8'', tx_dstIP = ''10.0.2.15'',
      srcAddress = [8, 8, 8, 8], dstAddress = [10, 0, 2, 15]\<rparr> 7 100 100 10240 536"

definition example_link :: link where
  "example_link = \<lparr>ws_open = True, bufferedAmount = 0, buffering = (\<lambda>n b. n + length b),
     sink_accepts = (\<lambda>_ _. True), transportSocket = open_sink, vmMACBytes = None, bytesSent = 0,
     frames = [], texts = [], idents = (\<lambda>n. n), drawn = 0, now_ms = 0,
     rateLimiter = \<lparr>maxBytes = 1, windowMs = 1, entries = [], head = 0, totalBytes = 0\<rparr>,
     tcpTransportWaiters = [], resumes = []\<rparr>"

theorem sent_segments_read_back_witness:
  "\<exists>l' news segs.
    sendTCP default_config (replicate 600 1) (no_flags\<lparr>ack := True, psh := True\<rparr>) None True
      (example_conn, example_link) = (Inr segs, (example_conn\<lparr>relaySeq := 700\<rparr>, l'))
    \<and> frames l' = news \<and> length news = 2
    \<and> map read_segment news = map (\<lambda>g. Some (sent_header default_config example_conn 10240 g)) segs
    \<and> map (\<lambda>(s, chunk, f). (s, length chunk, psh f)) segs = [(100, 536, False), (636, 64, True)]"
proof -
  let ?f = "no_flags\<lparr>ack := True, psh := True\<rparr>"
  let ?p = "replicate 600 1 :: bytes"
  have ok: "addressed example_conn" "writable_window ?f" "?p = [] \<or> \<not> syn ?f \<and> \<not> rst ?f"
    by (simp_all add: addressed_def example_conn_def new_conn_def example_link_def writable_window_def no_flags_def)
  have c: "relaySeq example_conn = 100" "tcpMss default_config example_conn = 536"
    "announced default_config ?f example_conn = 10240"
    by (simp_all add: example_conn_def new_conn_def tcpMss_def default_config_def TCP_MSS_def
        announced_def no_flags_def tcpReceiveWindow_def)
  have p: "pieces 536 100 ?f ?p = [(100, replicate 536 1, ?f\<lparr>psh := False, fin := False\<rparr>), (636, replicate 64 1, ?f)]"
    by (subst pieces.simps, simp, subst pieces.simps, simp)
  show ?thesis
    using sent_segments_read_back [OF default_config_ok ok, where sequence = None and advance = True and l = example_link] c p
    by (auto simp: segmentation_def moved_def counted_triple sequence_length_def no_flags_def example_link_def)
qed

end
