(* ===== verification/Tcp_Safety.thy ===== *)
theory Tcp_Safety
  imports Tcp_Wire
begin

text \<open>
  The connection invariant and what the operations on one connection (sendTCP, sendTrackedTCP,
  acknowledgements, congestion control, the receive path) do to it: none of them throws, those
  that send nothing new leave the queue and the sequence numbers alone, and a tracked send keeps
  relaySeq at the end of the retransmission queue.
\<close>

section \<open>The connection invariant\<close>

definition can_track :: "rtq \<Rightarrow> bool" where
  "can_track q \<longleftrightarrow> \<not> rtq_closed q \<and> \<not> exhausted q"

definition sendable :: "bytes \<Rightarrow> tcp_flags \<Rightarrow> bool" where
  "sendable payload f \<longleftrightarrow> writable_window f \<and> (payload = [] \<or> \<not> syn f \<and> \<not> rst f)"

definition is_forward :: "tcp_conn \<Rightarrow> bool" where
  "is_forward c = (case key_of c of Forward _ \<Rightarrow> True | Reverse _ \<Rightarrow> False)"

text \<open>The queue of a connection, whatever happens: stored segments can be sent again.\<close>

definition queue_ok :: "rtq \<Rightarrow> bool" where
  "queue_ok q \<longleftrightarrow> rtq_wf q \<and> (rtq_closed q \<or> can_probe q)
     \<and> (\<forall>s \<in> set (rtq_segments q). sendable (seg_payload s) (seg_flags s))"

text \<open>
  \<open>sendQueueBytes\<close> counts the queued bytes, relaySeq is the end of a queue in use, a forward
  connection that has sent its FIN has nothing more to send, and a closed one has closed its queue.
\<close>

definition conn_ok :: "tcp_conn \<Rightarrow> bool" where
  "conn_ok c \<longleftrightarrow> addressed c \<and> queue_ok (retransmission c)
     \<and> (can_track (retransmission c) \<longrightarrow> relaySeq c = sndNxt (retransmission c))
     \<and> sendQueueBytes c = int (length (concat (sendQueue c)))
     \<and> (is_forward c \<and> finSent c \<longrightarrow> \<not> pendingFin c \<and> sendQueueBytes c = 0)
     \<and> (conn_state c = CLOSED \<longrightarrow> rtq_closed (retransmission c))"

section \<open>The outgoing stream\<close>

text \<open>
  What a connection has still to get through to the VM: the unacknowledged part of the sequence
  space, then the bytes that are queued.
\<close>

definition stream_items :: "tcp_conn \<Rightarrow> seq_item list" where
  "stream_items c = unacked (retransmission c) @ map Byte_item (concat (sendQueue c))"

text \<open>
  \<open>advances new c c'\<close>: from \<open>c\<close> to \<open>c'\<close> the stream only got \<open>new\<close> bytes and then FINs at its end and
  lost an acknowledged part at its front, by which \<open>sndUna\<close> moved; a connection whose queue is
  closed sends nothing any more. A forward connection gets one FIN at most.
\<close>

definition advances :: "bytes \<Rightarrow> tcp_conn \<Rightarrow> tcp_conn \<Rightarrow> bool" where
  "advances new c c' \<longleftrightarrow> key_of c' = key_of c
     \<and> (rtq_closed (retransmission c) \<longrightarrow> rtq_closed (retransmission c'))
     \<and> (\<not> rtq_closed (retransmission c') \<longrightarrow> (\<exists>n m.
          n \<le> length (stream_items c @ map Byte_item new @ replicate m FIN_item)
          \<and> stream_items c' = drop n (stream_items c @ map Byte_item new @ replicate m FIN_item)
          \<and> sndUna (retransmission c') = sndUna (retransmission c) + word_of_nat n
          \<and> (finSent c' \<longleftrightarrow> finSent c \<or> 0 < m)
          \<and> (is_forward c \<longrightarrow> m \<le> 1 \<and> (finSent c \<longrightarrow> m = 0))))"

lemma advancesI:
  assumes "key_of c' = key_of c" "rtq_closed (retransmission c) \<Longrightarrow> rtq_closed (retransmission c')"
    and "n \<le> length (stream_items c @ map Byte_item new @ replicate m FIN_item)"
    and "stream_items c' = drop n (stream_items c @ map Byte_item new @ replicate m FIN_item)"
    and "sndUna (retransmission c') = sndUna (retransmission c) + word_of_nat n"
    and "finSent c' \<longleftrightarrow> finSent c \<or> 0 < m" "is_forward c \<Longrightarrow> m \<le> 1 \<and> (finSent c \<longrightarrow> m = 0)"
  shows "advances new c c'"
  unfolding advances_def using assms by blast

lemma advances_same:
  assumes "key_of c' = key_of c" "retransmission c' = retransmission c" "sendQueue c' = sendQueue c" "finSent c' = finSent c"
  shows "advances [] c c'"
  by (rule advancesI [where n = 0 and m = 0]) (simp_all add: assms stream_items_def)

lemma advances_refl [simp]: "advances [] c c"
  by (rule advances_same) simp_all

lemma advances_closed: "key_of c' = key_of c \<Longrightarrow> rtq_closed (retransmission c') \<Longrightarrow> advances new c c'"
  by (simp add: advances_def)

lemma advances_trans:
  assumes "advances new c c1" "advances [] c1 c2"
  shows "advances new c c2"
proof (cases "rtq_closed (retransmission c2)")
  case True
  then show ?thesis using assms by (intro advances_closed) (auto simp: advances_def)
next
  case False
  then have open1: "\<not> rtq_closed (retransmission c1)" using assms(2) by (auto simp: advances_def)
  obtain n m where a: "n \<le> length (stream_items c @ map Byte_item new @ replicate m FIN_item)"
    "stream_items c1 = drop n (stream_items c @ map Byte_item new @ replicate m FIN_item)"
    "sndUna (retransmission c1) = sndUna (retransmission c) + word_of_nat n"
    "finSent c1 \<longleftrightarrow> finSent c \<or> 0 < m" "is_forward c \<longrightarrow> m \<le> 1 \<and> (finSent c \<longrightarrow> m = 0)"
    using assms(1) open1 unfolding advances_def by blast
  obtain n' m' where b: "n' \<le> length (stream_items c1 @ replicate m' FIN_item)"
    "stream_items c2 = drop n' (stream_items c1 @ replicate m' FIN_item)"
    "sndUna (retransmission c2) = sndUna (retransmission c1) + word_of_nat n'"
    "finSent c2 \<longleftrightarrow> finSent c1 \<or> 0 < m'" "is_forward c1 \<longrightarrow> m' \<le> 1 \<and> (finSent c1 \<longrightarrow> m' = 0)"
    using assms(2) False unfolding advances_def by auto
  have k: "key_of c1 = key_of c" "key_of c2 = key_of c1" using assms by (simp_all add: advances_def)
  have f: "is_forward c1 = is_forward c" using k(1) by (simp add: is_forward_def)
  let ?X = "stream_items c @ map Byte_item new @ replicate m FIN_item"
  have X: "?X @ replicate m' FIN_item = stream_items c @ map Byte_item new @ replicate (m + m') FIN_item"
    by (simp add: replicate_add)
  have d: "drop n ?X @ replicate m' FIN_item = drop n (?X @ replicate m' FIN_item)" using a(1) by simp
  show ?thesis
  proof (rule advancesI [where n = "n + n'" and m = "m + m'"])
    show "n + n' \<le> length (stream_items c @ map Byte_item new @ replicate (m + m') FIN_item)"
      using a(1) b(1) unfolding a(2) by simp
    show "stream_items c2 = drop (n + n') (stream_items c @ map Byte_item new @ replicate (m + m') FIN_item)"
      unfolding b(2) a(2) d X drop_drop by (simp only: add.commute)
    show "finSent c2 \<longleftrightarrow> finSent c \<or> 0 < m + m'" using a(4) b(4) by auto
    show "is_forward c \<Longrightarrow> m + m' \<le> 1 \<and> (finSent c \<longrightarrow> m + m' = 0)" using a(4,5) b(5) f by auto
    show "rtq_closed (retransmission c) \<Longrightarrow> rtq_closed (retransmission c2)"
      using assms by (simp add: advances_def)
  qed (simp_all add: k a(3) b(3) add.assoc)
qed

section \<open>Operations that do not touch what is being sent\<close>

definition calm :: "tcp_conn \<Rightarrow> tcp_conn \<Rightarrow> bool" where
  "calm c c' \<longleftrightarrow> key_of c' = key_of c \<and> tx c' = tx c \<and> relaySeq c' = relaySeq c
     \<and> retransmission c' = retransmission c \<and> sendQueue c' = sendQueue c
     \<and> sendQueueBytes c' = sendQueueBytes c \<and> pendingFin c' = pendingFin c \<and> finSent c' = finSent c
     \<and> (conn_state c' = CLOSED \<longrightarrow> conn_state c = CLOSED)"

lemma calm_refl [simp]: "calm c c"
  by (simp add: calm_def)

lemma calm_trans: "calm c c' \<Longrightarrow> calm c' c'' \<Longrightarrow> calm c c''"
  by (simp add: calm_def)

lemma calm_advances: "calm c c' \<Longrightarrow> advances [] c c'"
  by (rule advances_same) (simp_all add: calm_def)

lemma calm_conn_ok: "calm c c' \<Longrightarrow> conn_ok c \<Longrightarrow> conn_ok c'"
  by (auto simp: calm_def conn_ok_def addressed_def is_forward_def)

text \<open>\<open>quiet m\<close>: on a connection whose segments can be sent \<open>m\<close> does not throw and is calm.\<close>

definition ready :: "tcp_conn \<Rightarrow> bool" where
  "ready c \<longleftrightarrow> addressed c \<and> queue_ok (retransmission c)"

lemma calm_ready: "calm c c' \<Longrightarrow> ready c' = ready c"
  by (simp add: calm_def ready_def addressed_def)

lemma conn_ok_ready: "conn_ok c \<Longrightarrow> ready c"
  by (simp add: conn_ok_def ready_def)

definition quiet :: "(endpoint, 'a) act \<Rightarrow> bool" where
  "quiet m \<longleftrightarrow> (\<forall>c l. ready c \<longrightarrow> (\<exists>a c' l'. m (c, l) = (Inr a, (c', l')) \<and> calm c c'))"

named_theorems quiet_intros \<open>rules that reduce \<open>quiet\<close> to the parts of an action\<close>

lemma quietI: "(\<And>c l. ready c \<Longrightarrow> \<exists>a c' l'. m (c, l) = (Inr a, (c', l')) \<and> calm c c') \<Longrightarrow> quiet m"
  by (simp add: quiet_def)

lemma quietE:
  assumes "quiet m" "ready c"
  obtains a c' l' where "m (c, l) = (Inr a, (c', l'))" "calm c c'"
  using assms unfolding quiet_def by blast

lemma quiet_ret [quiet_intros]: "quiet (ret a)"
  by (rule quietI) (simp add: ret_def)

lemma quiet_on_conn: "(\<And>c. calm c (f c)) \<Longrightarrow> quiet (on_conn f)"
  by (rule quietI) (simp add: on_conn_def modify_def)

lemma quiet_andthen [quiet_intros]:
  assumes "quiet m" "\<And>a. quiet (f a)"
  shows "quiet (andthen m f)"
proof (rule quietI)
  fix c l assume c: "ready c"
  obtain a c1 l1 where m: "m (c, l) = (Inr a, (c1, l1))" "calm c c1"
    by (rule quietE [OF assms(1) c])
  have "ready c1" using m(2) c by (simp add: calm_ready)
  then obtain b c2 l2 where f: "f a (c1, l1) = (Inr b, (c2, l2))" "calm c1 c2"
    by (rule quietE [OF assms(2)])
  show "\<exists>a c' l'. andthen m f (c, l) = (Inr a, (c', l')) \<and> calm c c'"
    using m(1) f calm_trans [OF m(2) f(2)] by (simp add: andthen_def)
qed

lemma quiet_seq [quiet_intros]: "quiet m \<Longrightarrow> quiet n \<Longrightarrow> quiet (seq_act m n)"
  unfolding seq_act_def by (rule quiet_andthen)

lemma quiet_the_conn [quiet_intros]: "(\<And>c. ready c \<Longrightarrow> quiet (k c)) \<Longrightarrow> quiet (the_conn k)"
  by (simp add: quiet_def the_conn_def reads_def)

lemma quiet_reads [quiet_intros]: "(\<And>s. quiet (k (f s))) \<Longrightarrow> quiet (reads f k)"
  by (simp add: quiet_def reads_def)

lemma quiet_if [quiet_intros]: "(b \<Longrightarrow> quiet m) \<Longrightarrow> (\<not> b \<Longrightarrow> quiet n) \<Longrightarrow> quiet (if b then m else n)"
  by simp

lemma quiet_whenever [quiet_intros]: "(b \<Longrightarrow> quiet m) \<Longrightarrow> quiet (whenever b m)"
  by (simp add: whenever_def quiet_ret)

lemma quiet_ignore [quiet_intros]: "quiet m \<Longrightarrow> quiet (ignore m)"
  unfolding ignore_def by (intro quiet_andthen quiet_ret)

lemma quiet_on_conn_if [quiet_intros]: "(\<And>c. calm c (f c)) \<Longrightarrow> quiet (on_conn f)"
  by (rule quiet_on_conn)

subsection \<open>Sending without tracking\<close>

lemma sendTCP_runs:
  assumes "config_ok cfg" "addressed c" "sendable payload flags"
  shows "\<exists>l'. sendTCP cfg payload flags sequence advance (c, l) =
    (Inr (filter counted (segmentation cfg c payload flags sequence)),
     (moved (advance \<and> filter counted (segmentation cfg c payload flags sequence) \<noteq> [])
        ((case sequence of Some s \<Rightarrow> s | None \<Rightarrow> relaySeq c) + word_of_nat (sequence_length payload flags))
        c, l'))"
proof -
  have "writable_window flags" "payload = [] \<or> \<not> syn flags \<and> \<not> rst flags"
    using assms(3) by (simp_all add: sendable_def)
  from sendTCP_outcome [OF assms(1,2) this, of sequence advance l] show ?thesis by metis
qed

lemma quiet_sendTCP_again:
  assumes "config_ok cfg" "sendable payload flags"
  shows "quiet (sendTCP cfg payload flags (Some s) False)"
proof (rule quietI)
  fix c l assume "ready c"
  then have c: "addressed c" by (simp add: ready_def)
  show "\<exists>a c' l'. sendTCP cfg payload flags (Some s) False (c, l) = (Inr a, (c', l')) \<and> calm c c'"
    using sendTCP_runs [OF assms(1) c assms(2), of "Some s" False l] by (auto simp: moved_def)
qed

lemma quiet_sendTCP_control:
  assumes "config_ok cfg" "writable_window flags" "\<not> counted (0, [], flags)"
  shows "quiet (sendTCP cfg [] flags None True)"
proof (rule quietI)
  fix c l assume "ready c"
  then have c: "addressed c" by (simp add: ready_def)
  have "filter counted (segmentation cfg c [] flags None) = []"
    using assms(3) by (simp add: segmentation_def pieces.simps counted_def)
  then show "\<exists>a c' l'. sendTCP cfg [] flags None True (c, l) = (Inr a, (c', l')) \<and> calm c c'"
    using sendTCP_runs [OF assms(1) c, of "[]" flags None True l] assms(2)
    by (auto simp: moved_def sendable_def)
qed

lemma quiet_reset:
  assumes "config_ok cfg"
  shows "quiet (sendTCP cfg [] (no_flags\<lparr>rst := True, ack := True\<rparr>) None True)"
  by (rule quiet_sendTCP_control [OF assms]) (simp_all add: writable_window_def no_flags_def counted_def)

lemma quiet_sendTCPAck [quiet_intros]: "config_ok cfg \<Longrightarrow> quiet (sendTCPAck cfg)"
  unfolding sendTCPAck_def
proof (intro quiet_seq quiet_the_conn quiet_ignore quiet_on_conn)
  fix c assume "config_ok cfg"
  show "calm c (clearDelayedTCPAck c)" by (simp add: clearDelayedTCPAck_def calm_def)
next
  fix c :: tcp_conn assume ok: "config_ok cfg"
  have "0 \<le> tcpReceiveWindow w c \<and> tcpReceiveWindow w c \<le> 0xffff" for w
    by (simp add: tcpReceiveWindow_def Let_def)
  then show "quiet (sendTCP cfg [] (no_flags\<lparr>ack := True,
      windowSize := Some (tcpReceiveWindow (TCP_WINDOW_SIZE cfg) c)\<rparr>) None True)"
    by (intro quiet_sendTCP_control [OF ok])
      (auto simp: writable_window_def no_flags_def counted_def sequence_length_def)
qed

lemma quiet_scheduleTCPAck [quiet_intros]: "config_ok cfg \<Longrightarrow> quiet (scheduleTCPAck cfg n b)"
  unfolding scheduleTCPAck_def by (intro quiet_intros) (simp_all add: calm_def)

lemma quiet_serve_ack [quiet_intros]: "config_ok cfg \<Longrightarrow> quiet (serve_ack cfg r)"
  by (cases r) (simp_all add: serve_ack_def quiet_intros)

lemma quiet_ack_timer: "config_ok cfg \<Longrightarrow> quiet (ack_timer_fired cfg)"
  unfolding ack_timer_fired_def by (intro quiet_intros) (simp_all add: calm_def)

lemma quiet_receive_drain: "config_ok cfg \<Longrightarrow> quiet (onTCPReceiveDrain cfg b)"
  unfolding onTCPReceiveDrain_def by (intro quiet_intros) (simp_all add: calm_def)

section \<open>Tracked sends\<close>

text \<open>What a segment occupies in the sequence space.\<close>

definition seq_items :: "bytes \<Rightarrow> tcp_flags \<Rightarrow> seq_item list" where
  "seq_items p f = (if syn f then [SYN_item] else []) @ map Byte_item p @ (if fin f then [FIN_item] else [])"

definition items_of :: "(u32 \<times> bytes \<times> tcp_flags) list \<Rightarrow> seq_item list" where
  "items_of segs = concat (map (\<lambda>(s, p, f). seq_items p f) segs)"

lemma items_of_simps [simp]: "items_of [] = []" "items_of ((s, p, f) # segs) = seq_items p f @ items_of segs"
  by (simp_all add: items_of_def)

lemma pieces_items:
  "\<not> syn f \<or> payload = [] \<Longrightarrow> items_of (pieces n s f payload) = seq_items payload f"
proof (induction n s f payload rule: pieces.induct)
  case (1 n s f payload)
  show ?case
  proof (cases "length payload \<le> n \<or> n = 0")
    case True
    then show ?thesis by (subst pieces.simps) simp
  next
    case False
    have "map Byte_item payload = map Byte_item (take n payload) @ map Byte_item (drop n payload)"
      by (simp flip: map_append)
    then show ?thesis using 1 False by (subst pieces.simps) (auto simp: seq_items_def)
  qed
qed

lemma items_counted: "\<forall>(s, p, f) \<in> set segs. \<not> rst f \<Longrightarrow> items_of (filter counted segs) = items_of segs"
  by (induction segs) (auto simp: counted_def seq_items_def sequence_length_def)

text \<open>Segments that follow one another in the sequence space from \<open>s\<close> to \<open>e\<close>.\<close>

fun chained :: "u32 \<Rightarrow> (u32 \<times> bytes \<times> tcp_flags) list \<Rightarrow> u32 \<Rightarrow> bool" where
  "chained s [] e \<longleftrightarrow> s = e"
| "chained s ((a, p, f) # segs) e \<longleftrightarrow> a = s \<and> chained (s + word_of_nat (sequence_length p f)) segs e"

lemma pieces_chained:
  "\<not> syn f \<or> payload = [] \<Longrightarrow>
   chained s (pieces n s f payload) (s + word_of_nat (sequence_length payload f))"
proof (induction n s f payload rule: pieces.induct)
  case (1 n s f payload)
  show ?case
  proof (cases "length payload \<le> n \<or> n = 0")
    case True
    then show ?thesis by (subst pieces.simps) simp
  next
    case False
    then have "sequence_length payload f = n + sequence_length (drop n payload) f"
      and "sequence_length (take n payload) (f\<lparr>psh := False, fin := False\<rparr>) = n"
      using 1(2) by (auto simp: sequence_length_def)
    then show ?thesis
      using 1 False by (subst pieces.simps) (auto simp: add.assoc)
  qed
qed

lemma pieces_flags:
  "(s', chunk, f') \<in> set (pieces n s f payload) \<Longrightarrow>
   syn f' = syn f \<and> rst f' = rst f \<and> windowSize f' = windowSize f"
proof (induction n s f payload rule: pieces.induct)
  case (1 n s f payload)
  then show ?case by (subst (asm) (2) pieces.simps) (auto split: if_splits)
qed

lemma segmentation_tracked:
  assumes "sendable payload flags" "\<not> rst flags"
    and s_def: "s = (case sequence of Some s \<Rightarrow> s | None \<Rightarrow> relaySeq c)"
  shows "chained s (filter counted (segmentation cfg c payload flags sequence))
      (s + word_of_nat (sequence_length payload flags))"
    and "\<forall>(a, p, f) \<in> set (filter counted (segmentation cfg c payload flags sequence)).
      counted (a, p, f) \<and> sendable p f"
    and "items_of (filter counted (segmentation cfg c payload flags sequence)) = seq_items payload flags"
proof -
  let ?segs = "segmentation cfg c payload flags sequence"
  have ok: "\<not> syn flags \<or> payload = []" using assms(1) by (auto simp: sendable_def)
  have "\<forall>(s, p, f) \<in> set ?segs. \<not> rst f"
    using pieces_flags assms(2) by (fastforce simp: segmentation_def)
  then show "items_of (filter counted ?segs) = seq_items payload flags"
    using pieces_items [OF ok] by (simp add: items_counted) (simp add: segmentation_def)
  have ch: "chained s ?segs (s + word_of_nat (sequence_length payload flags))"
    unfolding segmentation_def s_def using pieces_chained [OF ok] by blast
  show "chained s (filter counted ?segs) (s + word_of_nat (sequence_length payload flags))"
  proof (cases "payload = []")
    case True
    then have "?segs = [(s, [], flags)]"
      by (simp add: segmentation_def s_def) (subst pieces.simps, simp)
    then show ?thesis using True assms(2) by (simp add: counted_def)
  next
    case False
    then have "filter counted ?segs = ?segs"
      using assms(2) by (simp add: segmentation_def pieces_counted)
    then show ?thesis using ch by simp
  qed
  show "\<forall>(a, p, f) \<in> set (filter counted ?segs). counted (a, p, f) \<and> sendable p f"
  proof clarify
    fix a p f
    assume m: "(a, p, f) \<in> set (filter counted ?segs)"
    have "windowSize f = windowSize flags \<and> rst f = rst flags \<and> syn f = syn flags"
      using m pieces_flags by (fastforce simp: segmentation_def)
    moreover have "p = []" if "payload = []"
      using m that by (auto simp: segmentation_def pieces.simps split: if_splits)
    ultimately show "counted (a, p, f) \<and> sendable p f"
      using m assms(1,2) ok by (auto simp: sendable_def writable_window_def)
  qed
qed

lemma track_one:
  assumes "queue_ok q" "can_track q" "counted (sndNxt q, p, f)" "sendable p f"
  shows "fst (track (sndNxt q) p f q) = Inr True"
    and "queue_ok (snd (track (sndNxt q) p f q))" "can_track (snd (track (sndNxt q) p f q))"
    and "sndNxt (snd (track (sndNxt q) p f q)) = sndNxt q + word_of_nat (sequence_length p f)"
    and "rtq_live q \<Longrightarrow> rtq_live (snd (track (sndNxt q) p f q))"
    and "unacked (snd (track (sndNxt q) p f q)) = unacked q @ seq_items p f"
    and "sndUna (snd (track (sndNxt q) p f q)) = sndUna q"
proof -
  let ?q = "snd (track (sndNxt q) p f q)"
  have c: "\<not> (rtq_closed q \<or> exhausted q \<or> sequence_length p f = 0 \<or> sndNxt q \<noteq> sndNxt q)"
    using assms(2,3) by (simp add: can_track_def counted_def)
  have q: "rtq_segments ?q = rtq_segments q @ [\<lparr>seg_seq = sndNxt q, seg_payload = p, seg_flags = f,
      sequenceLength = sequence_length p f, retransmissions = 0\<rparr>]" "rtq_closed ?q = rtq_closed q"
    "exhausted ?q = exhausted q" "can_probe ?q = can_probe q"
    "sndNxt ?q = sndNxt q + word_of_nat (sequence_length p f)"
    unfolding track_cases using c by (auto simp: tracked_def rtq_simps)
  show "fst (track (sndNxt q) p f q) = Inr True" using c by (auto simp: track_def Let_def)
  show "queue_ok ?q"
    using assms(1,4) q track_keeps_wf by (auto simp: queue_ok_def)
  show "can_track ?q" using assms(2) q by (simp add: can_track_def)
  show "sndNxt ?q = sndNxt q + word_of_nat (sequence_length p f)" by (rule q)
  show "rtq_live q \<Longrightarrow> rtq_live ?q" by (rule track_keeps_live)
  show "unacked ?q = unacked q @ seq_items p f" using q(1) by (simp add: unacked_def items_def seq_items_def)
  show "sndUna ?q = sndUna q" unfolding track_cases by (simp add: tracked_def rtq_simps)
qed

lemma track_all:
  assumes "chained (sndNxt (retransmission c)) segs e" "\<forall>(a, p, f) \<in> set segs. counted (a, p, f) \<and> sendable p f"
    and "queue_ok (retransmission c)" "can_track (retransmission c)"
  shows "\<exists>q. each track_segment segs (c, l) = (Inr (), (c\<lparr>retransmission := q\<rparr>, l))
    \<and> queue_ok q \<and> can_track q \<and> sndNxt q = e \<and> (rtq_live (retransmission c) \<longrightarrow> rtq_live q)
    \<and> unacked q = unacked (retransmission c) @ items_of segs \<and> sndUna q = sndUna (retransmission c)"
  using assms
proof (induction segs arbitrary: c)
  case Nil
  then show ?case by (intro exI [of _ "retransmission c"]) (simp add: ret_def)
next
  case (Cons seg segs)
  obtain a p f where seg: "seg = (a, p, f)" by (cases seg)
  let ?q = "retransmission c"
  define q1 where "q1 = snd (track (sndNxt ?q) p f ?q)"
  have a: "a = sndNxt ?q" and ok: "counted (sndNxt ?q, p, f)" "sendable p f"
    using Cons.prems(1,2) by (auto simp: seg)
  note one = track_one [OF Cons.prems(3,4) ok, folded q1_def]
  have run: "track_segment seg (c, l) = (Inr (), (c\<lparr>retransmission := q1\<rparr>, l))"
    using one(1) by (simp add: track_segment_def seg a q1_def case_prod_unfold)
  have "chained (sndNxt q1) segs e" using Cons.prems(1) one(4) by (simp add: seg a)
  then obtain q where "each track_segment segs (c\<lparr>retransmission := q1\<rparr>, l) =
      (Inr (), ((c\<lparr>retransmission := q1\<rparr>)\<lparr>retransmission := q\<rparr>, l))"
    and q: "queue_ok q" "can_track q" "sndNxt q = e" "rtq_live q1 \<longrightarrow> rtq_live q"
      "unacked q = unacked q1 @ items_of segs" "sndUna q = sndUna q1"
    using Cons.IH [of "c\<lparr>retransmission := q1\<rparr>"] Cons.prems(2) one(2,3) by auto
  then have "each track_segment (seg # segs) (c, l) = (Inr (), (c\<lparr>retransmission := q\<rparr>, l))"
    by (simp add: seq_act_def andthen_def run)
  moreover have "unacked q = unacked ?q @ items_of (seg # segs)" "sndUna q = sndUna ?q"
    using q(5,6) one(6,7) by (simp_all add: seg)
  ultimately show ?case using q one(5) by blast
qed

text \<open>The outcome of a tracked send that starts at the end of the queue.\<close>

lemma sendTrackedTCP_runs:
  assumes "config_ok cfg" "addressed c" "queue_ok (retransmission c)" "can_track (retransmission c)"
    and "sendable payload flags" "\<not> rst flags"
    and s: "(case sequence of Some s \<Rightarrow> s | None \<Rightarrow> relaySeq c) = sndNxt (retransmission c)"
  shows "\<exists>q l'. sendTrackedTCP cfg payload flags sequence advance (c, l) =
      (Inr (), (moved (advance \<and> sequence_length payload flags \<noteq> 0) (sndNxt q) (c\<lparr>retransmission := q\<rparr>), l'))
    \<and> queue_ok q \<and> can_track q \<and> (rtq_live (retransmission c) \<longrightarrow> rtq_live q)
    \<and> sndNxt q = sndNxt (retransmission c) + word_of_nat (sequence_length payload flags)
    \<and> unacked q = unacked (retransmission c) @ seq_items payload flags \<and> sndUna q = sndUna (retransmission c)"
proof -
  let ?segs = "filter counted (segmentation cfg c payload flags sequence)"
  let ?e = "sndNxt (retransmission c) + word_of_nat (sequence_length payload flags)"
  let ?b = "advance \<and> ?segs \<noteq> []"
  obtain l' where run: "sendTCP cfg payload flags sequence advance (c, l) = (Inr ?segs, (moved ?b ?e c, l'))"
    using sendTCP_runs [OF assms(1,2,5), of sequence advance l] unfolding s by blast
  note seg = segmentation_tracked [OF assms(5,6) s [symmetric], of cfg]
  have m: "retransmission (moved ?b ?e c) = retransmission c" by (simp add: moved_def)
  obtain q where q: "each track_segment ?segs (moved ?b ?e c, l') =
      (Inr (), ((moved ?b ?e c)\<lparr>retransmission := q\<rparr>, l'))"
    "queue_ok q" "can_track q" "sndNxt q = ?e" "rtq_live (retransmission c) \<longrightarrow> rtq_live q"
    "unacked q = unacked (retransmission c) @ seq_items payload flags" "sndUna q = sndUna (retransmission c)"
    using track_all [of "moved ?b ?e c" ?segs ?e l'] seg assms(3,4) unfolding m seg(3) by blast
  have "?segs \<noteq> [] \<longleftrightarrow> sequence_length payload flags \<noteq> 0"
  proof (cases "payload = []")
    case True
    then show ?thesis using assms(6) by (simp add: segmentation_def pieces.simps counted_def)
  next
    case False
    then have "concat (map (fst \<circ> snd) (segmentation cfg c payload flags sequence)) \<noteq> []"
      by (simp only: segmentation_facts(1) [OF assms(1)]) simp
    moreover have "?segs = segmentation cfg c payload flags sequence"
      using False assms(6) by (simp add: segmentation_def pieces_counted)
    ultimately show ?thesis using False by (auto simp: sequence_length_def)
  qed
  then have "sendTrackedTCP cfg payload flags sequence advance (c, l) =
      (Inr (), (moved (advance \<and> sequence_length payload flags \<noteq> 0) (sndNxt q) (c\<lparr>retransmission := q\<rparr>), l'))"
    using q(1,4) by (simp add: sendTrackedTCP_def andthen_def run moved_def)
  then show ?thesis using q by blast
qed

lemma sendTrackedTCP_ok:
  assumes "config_ok cfg" "ready c" "can_track (retransmission c)" "relaySeq c = sndNxt (retransmission c)"
    and "sendable payload flags" "\<not> rst flags"
  shows "\<exists>q l'. sendTrackedTCP cfg payload flags None True (c, l) =
      (Inr (), (c\<lparr>retransmission := q, relaySeq := sndNxt q\<rparr>, l'))
    \<and> queue_ok q \<and> can_track q \<and> (rtq_live (retransmission c) \<longrightarrow> rtq_live q)
    \<and> unacked q = unacked (retransmission c) @ seq_items payload flags \<and> sndUna q = sndUna (retransmission c)"
proof -
  have ok: "addressed c" "queue_ok (retransmission c)" using assms(2) by (simp_all add: ready_def)
  then obtain q l' where run: "sendTrackedTCP cfg payload flags None True (c, l) =
      (Inr (), (moved (sequence_length payload flags \<noteq> 0) (sndNxt q) (c\<lparr>retransmission := q\<rparr>), l'))"
    and q: "queue_ok q" "can_track q" "rtq_live (retransmission c) \<longrightarrow> rtq_live q"
      "sndNxt q = sndNxt (retransmission c) + word_of_nat (sequence_length payload flags)"
      "unacked q = unacked (retransmission c) @ seq_items payload flags" "sndUna q = sndUna (retransmission c)"
    using sendTrackedTCP_runs [OF assms(1) ok assms(3,5,6), of None True l] assms(4) by auto
  have "moved (sequence_length payload flags \<noteq> 0) (sndNxt q) (c\<lparr>retransmission := q\<rparr>) =
      c\<lparr>retransmission := q, relaySeq := sndNxt q\<rparr>"
    using q(4) assms(4) by (cases c) (auto simp: moved_def)
  then show ?thesis using run q by (intro exI [of _ q] exI [of _ l']) simp
qed

text \<open>Taking bytes off the send queue, sending and counting them.\<close>

lemma take_queued_runs:
  assumes "sendQueueBytes c = int (length (concat (sendQueue c)))" "0 < n" "n \<le> 65535" "n \<le> sendQueueBytes c"
  shows "\<exists>queue. take_queued n (c, l) =
      (Inr (take (nat n) (concat (sendQueue c))), (c\<lparr>sendQueue := queue\<rparr>, l))
    \<and> concat queue = drop (nat n) (concat (sendQueue c))"
proof -
  have n: "0 < nat n" "int (nat n) \<le> 2 ^ 53 - 1" "nat n \<le> length (concat (sendQueue c))" "int (nat n) = n"
    using assms by auto
  obtain r queue where t: "takeQueuedBytes (sendQueue c) n = (r, queue)" by fastforce
  then show ?thesis
    using takeQueuedBytes_spec [OF n(1-3)] unfolding n(4) by (auto simp: take_queued_def)
qed

lemma consume_ok:
  assumes "conn_ok c" "can_track (retransmission c)" "queue_ok q" "can_track q" "0 < n"
    and "n \<le> sendQueueBytes c" "concat queue = drop (nat n) (concat (sendQueue c))"
  shows "conn_ok (consumeTCPQueuedData cfg n (c\<lparr>sendQueue := queue, retransmission := q, relaySeq := sndNxt q\<rparr>))"
  using assms by (auto simp: consumeTCPQueuedData_def Let_def conn_ok_def addressed_def is_forward_def can_track_def)

lemma fin_ok:
  assumes "conn_ok c" "queue_ok q" "can_track q" "sendQueueBytes c = 0"
  shows "conn_ok (c\<lparr>pendingFin := False, finSent := True, conn_state := FIN_WAIT,
    retransmission := q, relaySeq := sndNxt q\<rparr>)"
  using assms by (auto simp: conn_ok_def addressed_def is_forward_def can_track_def)

text \<open>The two ways in which the stream moves from the send queue to the wire.\<close>

lemma chunk_advances:
  assumes "\<not> rtq_closed (retransmission c)" "concat queue = drop n (concat (sendQueue c))" "\<not> syn flags" "\<not> fin flags"
    and "unacked q = unacked (retransmission c) @ seq_items (take n (concat (sendQueue c))) flags"
    and "sndUna q = sndUna (retransmission c)" "retransmission c' = q" "sendQueue c' = queue"
    and "key_of c' = key_of c" "finSent c' = finSent c"
  shows "advances [] c c'"
proof (rule advancesI [where n = 0 and m = 0])
  have "map Byte_item (take n (concat (sendQueue c))) @ map Byte_item (concat queue) = map Byte_item (concat (sendQueue c))"
    unfolding assms(2) by (simp flip: map_append)
  then show "stream_items c' = drop 0 (stream_items c @ map Byte_item [] @ replicate 0 FIN_item)"
    using assms by (simp add: stream_items_def seq_items_def)
qed (simp_all add: assms)

lemma fin_advances:
  assumes "\<not> rtq_closed (retransmission c)" "concat (sendQueue c) = []"
    and "unacked q = unacked (retransmission c) @ seq_items [] (no_flags\<lparr>fin := True, ack := True\<rparr>)"
    and "sndUna q = sndUna (retransmission c)" "retransmission c' = q" "sendQueue c' = sendQueue c"
    and "key_of c' = key_of c" "finSent c'" "is_forward c \<Longrightarrow> \<not> finSent c"
  shows "advances [] c c'"
  by (rule advancesI [where n = 0 and m = 1])
    (use assms in \<open>simp_all add: stream_items_def seq_items_def no_flags_def del: concat_eq_Nil_conv\<close>)

section \<open>Congestion control and the receive path\<close>

lemma calm_loss: "calm c (onTCPCongestionLoss cfg b c)"
  by (simp add: onTCPCongestionLoss_def Let_def calm_def)

lemma calm_grow: "calm c (grow_window cfg n c)"
  by (simp add: grow_window_def Let_def calm_def)

lemma calm_recovery: "calm c (snd (isTCPCongestionRecoveryActive c))"
  by (simp add: isTCPCongestionRecoveryActive_def calm_def split: option.split)

lemma calm_window: "calm c (snd (updateTCPWindow s a w c))"
  by (simp add: updateTCPWindow_def Let_def calm_def)

lemma quiet_send_stored:
  "config_ok cfg \<Longrightarrow> sendable (seg_payload s) (seg_flags s) \<Longrightarrow> quiet (send_stored cfg (Some s))"
  by (simp add: send_stored_def quiet_ignore quiet_sendTCP_again)

lemma ready_oldest:
  "ready c \<Longrightarrow> oldest (retransmission c) = Some s \<Longrightarrow> sendable (seg_payload s) (seg_flags s)"
  by (auto simp: ready_def queue_ok_def oldest_def split: list.splits)

lemma quiet_recovery_head:
  assumes "config_ok cfg"
  shows "quiet (retransmitTCPRecoveryHead cfg)"
  unfolding retransmitTCPRecoveryHead_def
proof (rule quiet_the_conn)
  fix c assume "ready c"
  then show "quiet (case oldest (retransmission c) of None \<Rightarrow> ret ()
      | Some s \<Rightarrow> seq_act (on_conn (\<lambda>c. c\<lparr>fastRetransmitAck := Some (sndUna (retransmission c))\<rparr>))
          (send_stored cfg (Some s)))"
    using ready_oldest quiet_send_stored [OF assms]
    by (auto split: option.split intro!: quiet_intros simp: calm_def)
qed

lemma quiet_congestion_ack:
  "config_ok cfg \<Longrightarrow> quiet (onTCPCongestionAck cfg n a)"
  unfolding onTCPCongestionAck_def
  by (rule quiet_the_conn)
    (auto split: option.split intro!: quiet_intros quiet_recovery_head calm_grow simp: calm_def)

text \<open>The receive path works on the part of a connection that sending does not read.\<close>

lemma calm_more:
  fixes c c' :: tcp_conn
  assumes "receive_state.more c' = receive_state.more c"
  shows "calm c c'"
  using assms by (cases c; cases c') (simp add: calm_def)

lemma write_more [simp]: "receive_state.more (snd (writeTCPReceiveData accepts b c)) = receive_state.more c"
  by (simp add: writeTCPReceiveData_def Let_def)

lemma add_range_more:
  fixes c :: "'a receive_state_scheme"
  shows "receive_state.more (add_range p s f t c) = receive_state.more c"
  by (simp add: add_range_def Let_def)

lemma buffer_loop_more:
  fixes c :: "'a receive_state_scheme"
  shows "receive_state.more (buffer_loop p s e rs k c) = receive_state.more c"
  by (induction p s e rs k c rule: buffer_loop.induct) (simp_all add: add_range_more Let_def)

lemma buffer_more:
  fixes c :: "'a receive_state_scheme"
  shows "receive_state.more (bufferTCPOutOfOrder c s p cap) = receive_state.more c"
  by (simp add: bufferTCPOutOfOrder_def Let_def buffer_loop_more)

lemma drain_loop_more:
  fixes c :: "'a receive_state_scheme"
  shows "receive_state.more (snd (drain_loop (sink_write accepts) rs n c)) = receive_state.more c"
proof (induction rs arbitrary: n c)
  case (Cons r rs)
  then show ?case by (cases r) (simp add: Let_def)
qed simp

lemma drain_to_sink_more [simp]:
  "receive_state.more (snd (drain_to_sink accepts c)) = receive_state.more c"
  by (simp add: drain_to_sink_def drainTCPOutOfOrder_def drain_loop_more)

lemma calm_accept_reverse: "calm c (snd (accept_reverse_payload accepts w s p c))"
  by (rule calm_more)
    (simp add: accept_reverse_payload_def Let_def buffer_more case_prod_unfold)

lemma calm_accept_forward: "calm c (snd (accept_forward_payload accepts w s p c))"
  by (rule calm_more)
    (simp add: accept_forward_payload_def Let_def buffer_more case_prod_unfold)

lemma quiet_take_payload:
  assumes "config_ok cfg" "\<And>c l. calm c (snd (accept c l))"
  shows "quiet (take_payload cfg accept)"
proof (rule quietI)
  fix c l assume c: "ready c"
  obtain request c1 where a: "accept c l = (request, c1)" by fastforce
  then have c1: "calm c c1" using assms(2) by (metis snd_conv)
  then have "ready c1" using c by (simp add: calm_ready)
  then obtain a c2 l2 where s: "serve_ack cfg request (c1, l) = (Inr a, (c2, l2))" "calm c1 c2"
    by (rule quietE [OF quiet_serve_ack [OF assms(1)]])
  show "\<exists>b c' l'. take_payload cfg accept (c, l) = (Inr b, (c', l')) \<and> calm c c'"
    using s(1) calm_trans [OF c1 s(2)]
    by (simp add: take_payload_def reads_def a on_conn_def modify_def andthen_def ret_def)
qed

end
