(* ===== verification/Queue_Owner.thy ===== *)
theory Queue_Owner
  imports Tcp_Safety
begin

text \<open>
  A connection of a session as the owner of its retransmission queue: the callbacks of
  initializeRetransmission keep the queue well formed (the contract \<open>queue_host\<close>), and, while a
  predicate on the session holds that they preserve, the operations that call back neither fail
  nor break it (the contract \<open>careful_host\<close>).
\<close>

section \<open>A careful owner\<close>

text \<open>
  \<open>P\<close> is an invariant of the owner's state that says the queue's segments can be sent: the
  callbacks then return normally and keep it, and so does giving up.
\<close>

locale careful_host = queue_host h for h :: "'s rtq_host" +
  fixes P :: "'s \<Rightarrow> bool"
  assumes P_queue: "P s \<Longrightarrow> queue_ok (queue_of h s)"
    and P_on_queue: "P s \<Longrightarrow> queue_ok (f (queue_of h s)) \<Longrightarrow> sndNxt (f (queue_of h s)) = sndNxt (queue_of h s) \<Longrightarrow>
      sndUna (f (queue_of h s)) = sndUna (queue_of h s) \<Longrightarrow>
      rtq_closed (f (queue_of h s)) = rtq_closed (queue_of h s) \<Longrightarrow>
      exhausted (f (queue_of h s)) = exhausted (queue_of h s) \<Longrightarrow>
      unacked (f (queue_of h s)) = unacked (queue_of h s) \<Longrightarrow> P (on_queue h f s)"
    and P_give_up: "P s \<Longrightarrow> P (give_up h e s)"
    and P_retransmit: "P s \<Longrightarrow> oldest (queue_of h s) = Some seg \<Longrightarrow>
      fst (onRetransmit h (Some seg) r s) = None \<and> P (snd (onRetransmit h (Some seg) r s))"
    and P_probe: "P s \<Longrightarrow> can_track (queue_of h s) \<Longrightarrow>
      \<exists>b s'. onPersistProbe h (oldest (queue_of h s)) s = (Inr b, s') \<and> P s'"

text \<open>The small queue operations keep the segments sendable.\<close>

lemma queue_ok_steps:
  assumes "queue_ok q"
  shows "queue_ok (armTimer q)" "queue_ok (clearTimer q)" "queue_ok (back_off q)"
    "queue_ok (bump_oldest q)" "queue_ok (count_timeout (-1) q)" "queue_ok (q\<lparr>rtq_timer := None\<rparr>)"
    "queue_ok (clearTimer (q\<lparr>currentRtoMs := initialRtoMs q\<rparr>))"
    "timeoutRetransmissions q < maxRetransmissions q \<Longrightarrow> queue_ok (count_timeout 1 q)"
    "\<not> rtq_closed q \<Longrightarrow> queue_ok (change_persist b q)"
proof -
  have wf: "rtq_wf q" using assms by (simp add: queue_ok_def)
  have rto: "rtq_wf (q\<lparr>currentRtoMs := initialRtoMs q\<rparr>)"
    using wf by (simp add: rtq_wf_def rtq_simps)
  show "queue_ok (armTimer q)" "queue_ok (clearTimer q)" "queue_ok (back_off q)"
    "queue_ok (count_timeout (-1) q)" "queue_ok (q\<lparr>rtq_timer := None\<rparr>)"
    using assms armTimer_wf [OF wf] clearTimer_wf [OF wf] back_off_wf [OF wf] count_down_wf [OF wf] disarm_wf [OF wf]
    by (simp_all add: queue_ok_def rtq_simps back_off_def count_timeout_def)
  show "queue_ok (bump_oldest q)"
    using assms bump_oldest_wf [OF wf]
    by (cases "rtq_segments q") (auto simp: queue_ok_def bump_oldest_def)
  show "queue_ok (clearTimer (q\<lparr>currentRtoMs := initialRtoMs q\<rparr>))"
    using assms clearTimer_wf [OF rto] by (simp add: queue_ok_def rtq_simps)
  show "queue_ok (count_timeout 1 q)" if "timeoutRetransmissions q < maxRetransmissions q"
    using assms count_up_wf [OF wf that] by (simp add: queue_ok_def count_timeout_def)
  show "queue_ok (change_persist b q)" if "\<not> rtq_closed q"
    using assms persist_change_wf [OF wf that] by (simp add: queue_ok_def change_persist_def rtq_simps)
qed

lemma queue_step_fields:
  "sndUna (back_off q) = sndUna q" "sndUna (bump_oldest q) = sndUna q" "sndUna (count_timeout n q) = sndUna q"
  "sndUna (change_persist b q) = sndUna q"
  "sndNxt (back_off q) = sndNxt q" "rtq_closed (back_off q) = rtq_closed q" "exhausted (back_off q) = exhausted q"
  "sndNxt (bump_oldest q) = sndNxt q" "rtq_closed (bump_oldest q) = rtq_closed q"
  "exhausted (bump_oldest q) = exhausted q" "sndNxt (count_timeout n q) = sndNxt q"
  "rtq_closed (count_timeout n q) = rtq_closed q" "exhausted (count_timeout n q) = exhausted q"
  "sndNxt (change_persist b q) = sndNxt q" "rtq_closed (change_persist b q) = rtq_closed q"
  "exhausted (change_persist b q) = exhausted q"
  by (auto simp: back_off_def bump_oldest_def count_timeout_def change_persist_def rtq_simps split: list.split)

text \<open>Timers and counters do not touch the unacknowledged sequence space.\<close>

lemma unacked_steps:
  "concat (map items (rtq_segments (bump_oldest q))) = concat (map items (rtq_segments q))"
  "rtq_segments (back_off q) = rtq_segments q" "rtq_segments (count_timeout n q) = rtq_segments q"
  "rtq_segments (change_persist b q) = rtq_segments q"
  by (auto simp: items_def back_off_def bump_oldest_def count_timeout_def change_persist_def rtq_simps
      split: list.split)

lemmas queue_steps = queue_ok_steps queue_step_fields unacked_steps rtq_simps

lemma oldest_Some: "rtq_segments q \<noteq> [] \<Longrightarrow> \<exists>seg. oldest q = Some seg"
  by (auto simp: oldest_def split: list.split)

context careful_host
begin

lemma P_emit:
  assumes "P s" "rtq_segments (queue_of h s) \<noteq> []"
  shows "fst (emitRetransmission h r s)" "P (snd (emitRetransmission h r s))"
proof -
  obtain seg where seg: "oldest (queue_of h s) = Some seg" using oldest_Some [OF assms(2)] by blast
  have "fst (onRetransmit h (Some seg) r s) = None" "P (snd (onRetransmit h (Some seg) r s))"
    using P_retransmit [OF assms(1) seg] by simp_all
  then show "fst (emitRetransmission h r s)" "P (snd (emitRetransmission h r s))"
    by (auto simp: emitRetransmission_def seg split: prod.split option.split)
qed

lemma P_arm: "P s \<Longrightarrow> P (on_queue h armTimer s)"
  by (rule P_on_queue) (simp_all add: P_queue queue_steps)

lemma P_fastRetransmit:
  assumes "P s"
  shows "P (snd (fastRetransmit h s))"
proof (cases "persist (queue_of h s) \<or> \<not> hasOutstanding (queue_of h s) \<or> rtq_closed (queue_of h s)
    \<or> exhausted (queue_of h s)")
  case True
  then show ?thesis using assms by (simp add: fastRetransmit_def)
next
  case False
  let ?s = "on_queue h (\<lambda>q. clearTimer (q\<lparr>currentRtoMs := initialRtoMs q\<rparr>)) s"
  have s: "P ?s" using assms by (intro P_on_queue) (simp_all add: P_queue queue_steps)
  moreover have "rtq_segments (queue_of h ?s) \<noteq> []" using False by (simp add: get_put rtq_simps)
  ultimately have e: "fst (emitRetransmission h Fast_Retransmit ?s)" "P (snd (emitRetransmission h Fast_Retransmit ?s))"
    by (rule P_emit)+
  show ?thesis
    using False e P_arm by (simp add: fastRetransmit_def Let_def case_prod_unfold)
qed

lemma P_setPersist:
  assumes "P s"
  shows "fst (setPersist h b s) = None" "P (snd (setPersist h b s))"
proof -
  let ?q = "queue_of h s"
  let ?s = "on_queue h (change_persist b) s"
  have "fst (setPersist h b s) = None \<and> P (snd (setPersist h b s))"
  proof (cases "rtq_closed ?q \<or> exhausted ?q \<or> persist ?q = b")
    case True
    then show ?thesis using assms by (auto simp: setPersist_def Let_def)
  next
    case False
    then have probe: "can_probe ?q" using P_queue [OF assms] by (simp add: queue_ok_def)
    have s: "P ?s" using False assms by (intro P_on_queue) (simp_all add: P_queue queue_steps)
    show ?thesis
    proof (cases "\<not> b \<and> hasOutstanding (queue_of h ?s)")
      case True
      then have "rtq_segments (queue_of h ?s) \<noteq> []" unfolding queue_views by (rule conjunct2)
      then have "P (snd (emitRetransmission h Window_Open ?s))" by (rule P_emit(2) [OF s])
      then show ?thesis using False True probe P_arm by (auto simp: setPersist_def Let_def)
    next
      case no: False
      then show ?thesis using False probe P_arm [OF s] by (auto simp: setPersist_def Let_def)
    qed
  qed
  then show "fst (setPersist h b s) = None" "P (snd (setPersist h b s))" by simp_all
qed

lemma P_persistTimeout:
  assumes "P s" "can_track (queue_of h s)"
  shows "P (persistTimeout h s)"
proof (cases "timeoutRetransmissions (queue_of h s) \<ge> maxRetransmissions (queue_of h s)")
  case True
  then show ?thesis using P_give_up [OF assms(1)] by (simp add: persistTimeout_def Let_def)
next
  case False
  let ?s = "on_queue h (count_timeout 1) s"
  have s: "P ?s" using False assms(1) by (intro P_on_queue) (simp_all add: P_queue queue_steps)
  have "can_track (queue_of h ?s)" using assms(2) by (simp add: can_track_def get_put queue_steps)
  then obtain b s' where p: "onPersistProbe h (oldest (queue_of h ?s)) ?s = (Inr b, s')" "P s'"
    using P_probe [OF s] by blast
  define s2 where "s2 = (if \<not> b then on_queue h (count_timeout (-1)) s' else s')"
  have "P s2"
    using p(2) unfolding s2_def by (auto intro!: P_on_queue simp: P_queue queue_steps)
  then have "P (on_queue h (\<lambda>q. armTimer (back_off (clearTimer q))) s2)"
    by (rule P_on_queue) (simp_all add: \<open>P s2\<close> P_queue queue_steps)
  then show ?thesis using False p(1) by (simp add: persistTimeout_def Let_def s2_def)
qed

lemma P_timer_callback:
  assumes "P s"
  shows "P (timer_callback h g s)"
proof (cases "g \<noteq> timerGeneration (queue_of h s) \<or> rtq_closed (queue_of h s) \<or> exhausted (queue_of h s)")
  case True
  then show ?thesis using assms by (auto simp: timer_callback_def Let_def)
next
  case False
  let ?s = "on_queue h (\<lambda>q. q\<lparr>rtq_timer := None\<rparr>) s"
  have s: "P ?s" using assms by (intro P_on_queue) (simp_all add: P_queue queue_steps)
  have q: "can_track (queue_of h ?s)" using False by (simp add: can_track_def get_put)
  have "P (handleTimeout h ?s)"
  proof (cases "persist (queue_of h ?s) \<or> \<not> hasOutstanding (queue_of h ?s)
      \<or> timeoutRetransmissions (queue_of h ?s) \<ge> maxRetransmissions (queue_of h ?s)")
    case True
    then show ?thesis
      using s q P_give_up [OF s] P_persistTimeout [OF s q]
      by (auto simp: handleTimeout_def Let_def can_track_def)
  next
    case no: False
    let ?s1 = "on_queue h (\<lambda>q. bump_oldest (count_timeout 1 q)) ?s"
    have lt: "timeoutRetransmissions (queue_of h ?s) < maxRetransmissions (queue_of h ?s)"
      using no by simp
    have s1: "P ?s1"
      by (rule P_on_queue [OF s]) (simp_all add: P_queue [OF s] lt queue_steps)
    moreover have "rtq_segments (queue_of h ?s1) \<noteq> []"
      using no by (cases "rtq_segments (queue_of h ?s)")
        (simp_all add: get_put bump_oldest_def count_timeout_def rtq_simps)
    ultimately have e: "fst (emitRetransmission h Timeout_Retransmit ?s1)"
      "P (snd (emitRetransmission h Timeout_Retransmit ?s1))" by (rule P_emit)+
    then have "P (on_queue h (\<lambda>q. armTimer (back_off q)) (snd (emitRetransmission h Timeout_Retransmit ?s1)))"
      by (intro P_on_queue) (simp_all add: P_queue queue_steps)
    then show ?thesis
      using no q e(1) by (auto simp: handleTimeout_def Let_def can_track_def case_prod_unfold)
  qed
  then show ?thesis using False by (simp add: timer_callback_def Let_def)
qed

end

section \<open>A connection owns its queue\<close>

text \<open>Sending changes no queue, even when it throws; only tracking does.\<close>

abbreviation queue_is :: "(rtq \<Rightarrow> bool) \<Rightarrow> endpoint \<Rightarrow> bool" where
  "queue_is R \<equiv> (\<lambda>p. R (retransmission (fst p)))"

lemma keeps_on_link [keeps_intros]: "keeps (queue_is R) (on_link m)"
  by (rule keepsI) (simp add: on_link_def inside_run)

lemma keeps_on_conn: "(\<And>c. retransmission (f c) = retransmission c) \<Longrightarrow> keeps (queue_is R) (on_conn f)"
  unfolding on_conn_def by (rule keeps_modify) (simp add: case_prod_unfold)

lemma keeps_the_conn [keeps_intros]: "(\<And>c. keeps P (k c)) \<Longrightarrow> keeps P (the_conn k)"
  by (simp add: keeps_def the_conn_def reads_def)

lemma keeps_emit [keeps_intros]: "keeps (queue_is R) (emit_segment cfg tcp)"
  unfolding emit_segment_def by (intro keeps_intros)

lemma keeps_send_loop:
  "keeps (queue_is R) (send_loop cfg m payload flags advance offset sequence sent)"
proof (induction cfg m payload flags advance offset sequence sent rule: send_loop.induct)
  case (1 cfg m payload flags advance offset sequence sent)
  then show ?case
    by (subst send_loop.simps)
      (auto simp: Let_def intro!: keeps_intros keeps_on_conn split del: if_split)
qed

lemma keeps_sendTCP [keeps_intros]: "keeps (queue_is R) (sendTCP cfg payload flags sequence advance)"
  unfolding sendTCP_def by (intro keeps_intros keeps_send_loop)

lemma keeps_track: "keeps (queue_is rtq_wf) (track_segment seg)"
  by (rule keepsI)
    (auto simp: track_segment_def track_keeps_wf case_prod_unfold)

lemma keeps_sendTracked [keeps_intros]:
  "keeps (queue_is rtq_wf) (sendTrackedTCP cfg payload flags sequence advance)"
  unfolding sendTrackedTCP_def by (intro keeps_intros keeps_track)

lemma keeps_close: "keeps (queue_is rtq_wf) close_queue"
  unfolding close_queue_def on_conn_def
  by (rule keeps_modify) (simp add: case_prod_unfold close_wf)

lemma keeps_send_stored [keeps_intros]: "keeps (queue_is R) (send_stored cfg seg)"
  unfolding send_stored_def by (intro keeps_intros)

lemma keeps_conn_retransmit: "keeps (queue_is rtq_wf) (conn_retransmit cfg current seg reason)"
  unfolding conn_retransmit_def
  by (intro keeps_intros keeps_close keeps_on_conn) (simp add: onTCPCongestionLoss_def Let_def)

lemma keeps_take_queued [keeps_intros]: "keeps (queue_is R) (take_queued n)"
  by (rule keepsI) (auto simp: take_queued_def case_prod_unfold)

lemma retransmission_consume [simp]: "retransmission (consumeTCPQueuedData cfg n c) = retransmission c"
  by (simp add: consumeTCPQueuedData_def Let_def)

lemma keeps_probe: "keeps (queue_is rtq_wf) (conn_probe cfg current seg)"
proof -
  have s: "keeps (queue_is rtq_wf) (probe_segment cfg s)" for s
    unfolding probe_segment_def by (intro keeps_intros)
  have n: "keeps (queue_is rtq_wf) (probe_new_data cfg)"
    unfolding probe_new_data_def by (intro keeps_intros keeps_on_conn) simp_all
  show ?thesis
    unfolding conn_probe_def
    by (rule keeps_reads, rule keeps_prod) (intro keeps_intros keeps_close s n)
qed

text \<open>Ending a connection closes its queue and does not revive it.\<close>

abbreviation session_queue_is :: "nat \<Rightarrow> (rtq \<Rightarrow> bool) \<Rightarrow> session \<Rightarrow> bool" where
  "session_queue_is cid R \<equiv> (\<lambda>S. R (retransmission (conns S cid)))"

lemma keeps_with_conn: "keeps (queue_is R) m \<Longrightarrow> keeps (session_queue_is cid R) (with_conn cid m)"
  by (auto simp: keeps_def with_conn_def inside_run put_endpoint_def)

lemma keeps_send_reset: "keeps (session_queue_is cid R) (send_reset cfg cid b)"
  unfolding send_reset_def by (intro keeps_intros keeps_with_conn)

lemma retransmission_upd:
  "retransmission (conns (upd_conn i f S) cid) =
     (if i = cid then retransmission (f (conns S cid)) else retransmission (conns S cid))"
  by (simp add: upd_conn_def)

lemma retransmission_shut:
  "retransmission (conns (shut_conn cid S) cid) = close_rtq (retransmission (conns S cid))"
  by (simp add: shut_conn_def Let_def upd_conn_def set_link_def stop_timers_def clearDelayedTCPAck_def)

lemma retransmission_drop: "retransmission (conns (drop_reverse k S) cid) = retransmission (conns S cid)"
  by (simp add: drop_reverse_def clearReverseConnTimer_def retransmission_upd split: option.split)

lemma retransmission_ends [simp]:
  "retransmission (end_sink c) = retransmission c" "retransmission (destroy_sink c) = retransmission c"
  "retransmission (destroy_source c) = retransmission c"
  "retransmission (settle_promise p c) = retransmission c"
  by (simp_all add: end_sink_def destroy_sink_def destroy_source_def settle_promise_def)

lemma keeps_abort:
  assumes "\<And>q. R q \<Longrightarrow> R (close_rtq q)"
  shows "keeps (session_queue_is cid R) (abort_conn cfg cid e b)"
proof -
  have r: "keeps (session_queue_is cid R) (abortReverseConnection cfg k cid e b)" for k
    unfolding abortReverseConnection_def
    by (intro keeps_intros keeps_send_reset keeps_modify)
      (simp_all add: assms retransmission_shut retransmission_drop retransmission_upd remember_closed_def add_task_def)
  have f: "keeps (session_queue_is cid R) (abortTCPConnection cfg k cid e b)" for k
    unfolding abortTCPConnection_def
    by (intro keeps_intros keeps_send_reset keeps_modify)
      (simp_all add: assms retransmission_shut retransmission_upd)
  show ?thesis
    unfolding abort_conn_def by (rule keeps_reads) (simp add: r f split: conn_key.split)
qed

lemma exhausted_close: "exhausted (close_rtq q) = exhausted q"
  by (simp add: close_rtq_def rtq_simps)

interpretation connection: queue_host "conn_host cfg cid" for cfg cid
proof
  let ?h = "conn_host cfg cid"
  fix S :: session and f seg r e
  show "queue_of ?h (on_queue ?h f S) = f (queue_of ?h S)"
    by (simp add: conn_host_def retransmission_upd)
  show "rtq_wf (queue_of ?h (snd (onRetransmit ?h seg r S)))" if "rtq_wf (queue_of ?h S)"
    using keepsD [OF keeps_with_conn [OF keeps_conn_retransmit], of S cid] that
    by (simp add: conn_host_def split: prod.split sum.split) (metis snd_conv)
  show "rtq_wf (queue_of ?h (snd (onPersistProbe ?h seg S)))" if "rtq_wf (queue_of ?h S)"
    using keepsD [OF keeps_with_conn [OF keeps_probe], of S cid] that by (simp add: conn_host_def)
  show "rtq_wf (queue_of ?h (onExhausted ?h e seg S)) \<and> exhausted (queue_of ?h (onExhausted ?h e seg S))"
    if "rtq_wf (queue_of ?h S)" "exhausted (queue_of ?h S)"
    using keepsD [OF keeps_abort [of "\<lambda>q. rtq_wf q \<and> exhausted q"], of S cid cfg e True] that
    by (simp add: conn_host_def close_wf exhausted_close)
qed

end
