(* ===== verification/Session_Safety.thy ===== *)
theory Session_Safety
  imports Queue_Owner Relay_Core
begin

text \<open>
  No handler of a session's TCP connections throws. The invariant of a session says that every
  connection's queue is well formed with its timer armed exactly while it must be, that the
  queued bytes are counted, that relaySeq is the end of the queue, and that a connection found in
  a table can still send or has said all it had to say. Each handler, timer and stream event is
  shown to return normally and to keep it.
\<close>

section \<open>Actions that do not throw\<close>

text \<open>\<open>returns P m Q\<close>: from a state with \<open>P\<close> the action returns normally in one with \<open>Q\<close>.\<close>

definition returns :: "('s \<Rightarrow> bool) \<Rightarrow> ('s, 'a) act \<Rightarrow> ('s \<Rightarrow> bool) \<Rightarrow> bool" where
  "returns P m Q \<longleftrightarrow> (\<forall>s. P s \<longrightarrow> (\<exists>a s'. m s = (Inr a, s') \<and> Q s'))"

abbreviation safe :: "('s \<Rightarrow> bool) \<Rightarrow> ('s, 'a) act \<Rightarrow> bool" where
  "safe P m \<equiv> returns P m P"

lemma returnsI: "(\<And>s. P s \<Longrightarrow> \<exists>a s'. m s = (Inr a, s') \<and> Q s') \<Longrightarrow> returns P m Q"
  by (simp add: returns_def)

lemma returnsE:
  assumes "returns P m Q" "P s"
  obtains a s' where "m s = (Inr a, s')" "Q s'"
  using assms unfolding returns_def by blast

lemma returns_andthen:
  assumes "returns P m R" "\<And>a. returns R (f a) Q"
  shows "returns P (andthen m f) Q"
proof (rule returnsI)
  fix s assume "P s"
  then obtain a s1 where m: "m s = (Inr a, s1)" "R s1" by (rule returnsE [OF assms(1)])
  from this(2) obtain b s2 where "f a s1 = (Inr b, s2)" "Q s2" by (rule returnsE [OF assms(2)])
  then show "\<exists>a s'. andthen m f s = (Inr a, s') \<and> Q s'" using m(1) by (simp add: andthen_def)
qed

lemma returns_seq: "returns P m R \<Longrightarrow> returns R n Q \<Longrightarrow> returns P (seq_act m n) Q"
  unfolding seq_act_def by (rule returns_andthen)

lemma returns_modify: "(\<And>s. P s \<Longrightarrow> Q (f s)) \<Longrightarrow> returns P (modify f) Q"
  by (simp add: returns_def modify_def)

lemma returns_reads: "(\<And>s. P s \<Longrightarrow> returns (\<lambda>s'. s' = s) (k (f s)) Q) \<Longrightarrow> returns P (reads f k) Q"
  by (simp add: returns_def reads_def)

lemma returns_block:
  "returns P m R \<Longrightarrow> returns R (block ms) Q \<Longrightarrow> returns P (block (m # ms)) Q"
  "returns P (block []) P"
  by (simp_all add: returns_seq) (simp add: returns_def ret_def)

lemma returns_weaken: "returns P m Q \<Longrightarrow> (\<And>s. P' s \<Longrightarrow> P s) \<Longrightarrow> (\<And>s. Q s \<Longrightarrow> Q' s) \<Longrightarrow> returns P' m Q'"
  unfolding returns_def by blast

named_theorems safe_intros \<open>rules that reduce \<open>safe\<close> to the parts of an action\<close>

lemma safe_ret [safe_intros]: "safe P (ret a)"
  by (simp add: returns_def ret_def)

lemma safe_modify: "(\<And>s. P s \<Longrightarrow> P (f s)) \<Longrightarrow> safe P (modify f)"
  by (simp add: returns_def modify_def)

lemma safe_andthen [safe_intros]: "safe P m \<Longrightarrow> (\<And>a. safe P (f a)) \<Longrightarrow> safe P (andthen m f)"
  by (rule returns_andthen)

lemma safe_seq [safe_intros]: "safe P m \<Longrightarrow> safe P n \<Longrightarrow> safe P (seq_act m n)"
  unfolding seq_act_def by (rule safe_andthen)

lemma safe_reads: "(\<And>s. P s \<Longrightarrow> safe P (k (f s))) \<Longrightarrow> safe P (reads f k)"
  by (simp add: returns_def reads_def)

lemma safe_reads_any [safe_intros]: "(\<And>a. safe P (k a)) \<Longrightarrow> safe P (reads f k)"
  by (rule safe_reads)

lemma safe_if [safe_intros]: "(b \<Longrightarrow> safe P m) \<Longrightarrow> (\<not> b \<Longrightarrow> safe P n) \<Longrightarrow> safe P (if b then m else n)"
  by simp

lemma safe_whenever [safe_intros]: "(b \<Longrightarrow> safe P m) \<Longrightarrow> safe P (whenever b m)"
  by (simp add: whenever_def safe_ret)

lemma safe_ignore [safe_intros]: "safe P m \<Longrightarrow> safe P (ignore m)"
  unfolding ignore_def by (intro safe_andthen safe_ret)

lemma safe_block [safe_intros]: "list_all (safe P) ms \<Longrightarrow> safe P (block ms)"
  by (induction ms) (auto intro: safe_intros)

lemma safe_list [safe_intros]: "safe P m \<Longrightarrow> list_all (safe P) ms \<Longrightarrow> list_all (safe P) (m # ms)"
  "list_all (safe P) []"
  by simp_all

lemma safe_option [safe_intros]:
  "(x = None \<Longrightarrow> safe P m) \<Longrightarrow> (\<And>a. x = Some a \<Longrightarrow> safe P (n a)) \<Longrightarrow>
   safe P (case x of None \<Rightarrow> m | Some a \<Rightarrow> n a)"
  by (cases x) auto

lemma safe_prod [safe_intros]: "(\<And>a b. x = (a, b) \<Longrightarrow> safe P (m a b)) \<Longrightarrow> safe P (case x of (a, b) \<Rightarrow> m a b)"
  by (cases x) auto

lemma safe_Let [safe_intros]: "safe P (m a) \<Longrightarrow> safe P (let x = a in m x)"
  by (simp add: Let_def)

section \<open>The invariant of a session\<close>

text \<open>
  A connection in a table can take new data, or it is a finished forward connection, which stays
  in the table for two seconds with its queue closed.
\<close>

definition usable :: "tcp_conn \<Rightarrow> bool" where
  "usable c \<longleftrightarrow> can_track (retransmission c) \<or> (rtq_closed (retransmission c) \<and> finSent c
     \<and> is_forward c \<and> sndUna (retransmission c) = sndNxt (retransmission c))"

text \<open>
  Inside an operation on one connection the timer (\<open>L\<close>) or the table condition (\<open>T\<close>) of that
  connection may be open; between operations both sets are empty.
\<close>

definition session_inv :: "nat set \<Rightarrow> nat set \<Rightarrow> session \<Rightarrow> bool" where
  "session_inv L T S \<longleftrightarrow>
     (\<forall>i < next_conn S. conn_ok (conns S i) \<and> (i \<notin> L \<longrightarrow> rtq_live (retransmission (conns S i))))
     \<and> (\<forall>k i. lookup_key k S = Some i \<longrightarrow>
          i < next_conn S \<and> key_of (conns S i) = k \<and> (i \<notin> T \<longrightarrow> usable (conns S i)))"

text \<open>
  The invariant while working on \<open>cid\<close>; \<open>k\<close> fixes the number of connections and their keys, which
  only the opening of a connection changes, and the connections the work started from, whose
  outgoing streams have only advanced since.
\<close>

type_synonym origin = "(nat \<times> (nat \<Rightarrow> tcp_conn)) \<times> (nat \<Rightarrow> conn_key)"

definition inv_at :: "nat set \<Rightarrow> nat set \<Rightarrow> nat \<Rightarrow> origin \<Rightarrow> session \<Rightarrow> bool" where
  "inv_at L T cid k S \<longleftrightarrow> session_inv L T S \<and> cid < next_conn S \<and> next_conn S = fst (fst k)
     \<and> (\<forall>i. key_of (conns S i) = snd k i) \<and> (\<forall>i. advances [] (snd (fst k) i) (conns S i))"

abbreviation origin_of :: "session \<Rightarrow> origin" where
  "origin_of S \<equiv> ((next_conn S, conns S), \<lambda>i. key_of (conns S i))"

abbreviation sound :: "session \<Rightarrow> bool" where
  "sound \<equiv> session_inv {} {}"

lemma lookup_key_simps [simp]:
  "lookup_key (Forward t) S = map_get (tcpConnections S) t"
  "lookup_key (Reverse p) S = map_get (reverseTcpConnections S) p"
  by (simp_all add: lookup_key_def)

text \<open>The tables and the number of connections; the invariant depends on these and \<open>conns\<close>.\<close>

definition tables :: "session \<Rightarrow> (string, nat) jsmap \<times> (nat, nat) jsmap \<times> nat" where
  "tables S = (tcpConnections S, reverseTcpConnections S, next_conn S)"

lemma tables_eq:
  "tables S' = tables S \<longleftrightarrow> (tcpConnections S' = tcpConnections S
     \<and> reverseTcpConnections S' = reverseTcpConnections S \<and> next_conn S' = next_conn S)"
  by (auto simp: tables_def)

lemma tables_lookup: "tables S' = tables S \<Longrightarrow> lookup_key k S' = lookup_key k S"
  by (simp add: tables_eq lookup_key_def split: conn_key.split)

lemma inv_conn: "inv_at L T cid k S \<Longrightarrow> conn_ok (conns S cid)"
  by (simp add: inv_at_def session_inv_def)

lemma inv_lookup:
  assumes "inv_at L T i k S" "lookup_key key S = Some cid"
  shows "inv_at L T cid k S \<and> snd k cid = key"
proof -
  have "cid < next_conn S" "key_of (conns S cid) = key"
    using assms by (auto simp: inv_at_def session_inv_def)
  then show ?thesis using assms(1) by (auto simp: inv_at_def)
qed

lemma inv_usable:
  "inv_at L T cid k S \<Longrightarrow> isCurrent cid S \<Longrightarrow> cid \<notin> T \<Longrightarrow> usable (conns S cid)"
  unfolding inv_at_def session_inv_def isCurrent_def by blast

lemma inv_change:
  assumes "inv_at L T cid k S" "tables S' = tables S" "conns S' = (conns S)(cid := c)"
    and "conn_ok c" "key_of c = snd k cid"
    and "cid \<notin> L \<Longrightarrow> rtq_live (retransmission c)"
    and "cid \<notin> T \<Longrightarrow> isCurrent cid S \<Longrightarrow> usable (conns S cid) \<Longrightarrow> usable c"
    and "advances [] (conns S cid) c"
  shows "inv_at L T cid k S'"
proof -
  have n: "next_conn S' = next_conn S" using assms(2) by (simp add: tables_eq)
  have k: "lookup_key k' S' = lookup_key k' S" for k' by (rule tables_lookup [OF assms(2)])
  show ?thesis
    unfolding inv_at_def session_inv_def n k
  proof (intro conjI allI impI)
    fix i assume "i < next_conn S"
    then show "conn_ok (conns S' i)" using assms(1,3,4) by (auto simp: inv_at_def session_inv_def)
    assume "i \<notin> L"
    then show "rtq_live (retransmission (conns S' i))"
      using assms(1,3,6) \<open>i < next_conn S\<close> by (auto simp: inv_at_def session_inv_def)
  next
    fix k' i assume l: "lookup_key k' S = Some i"
    then show "i < next_conn S" "key_of (conns S' i) = k'"
      using assms(1,3,5) by (auto simp: inv_at_def session_inv_def)
    assume "i \<notin> T"
    then have u: "usable (conns S i)" and key: "key_of (conns S i) = k'"
      using assms(1) l by (auto simp: inv_at_def session_inv_def)
    show "usable (conns S' i)"
    proof (cases "i = cid")
      case True
      then have "isCurrent cid S" using l key by (simp add: isCurrent_def)
      then show ?thesis using assms(3,7) True u \<open>i \<notin> T\<close> by simp
    next
      case False
      then show ?thesis using assms(3) u by simp
    qed
  next
    show "cid < next_conn S" "next_conn S = fst (fst k)" "key_of (conns S' i) = snd k i" for i
      using assms(1,3,5) by (simp_all add: inv_at_def)
    show "advances [] (snd (fst k) i) (conns S' i)" for i
      using assms(1,3,8) by (auto simp: inv_at_def intro: advances_trans)
  qed
qed

lemma inv_same:
  "session_inv L T S \<Longrightarrow> tables S' = tables S \<Longrightarrow> conns S' = conns S \<Longrightarrow> session_inv L T S'"
  unfolding session_inv_def using tables_lookup [of S' S] by (auto simp: tables_eq)

lemma inv_at_same:
  "inv_at L T cid k S \<Longrightarrow> tables S' = tables S \<Longrightarrow> conns S' = conns S \<Longrightarrow> inv_at L T cid k S'"
  using inv_same by (auto simp: inv_at_def tables_eq)

lemma calm_usable: "calm c c' \<Longrightarrow> usable c' = usable c"
  by (simp add: calm_def usable_def is_forward_def)

lemma inv_calm:
  assumes "inv_at L T cid k S" "tables S' = tables S" "conns S' = (conns S)(cid := c)" "calm (conns S cid) c"
  shows "inv_at L T cid k S'"
proof (rule inv_change [OF assms(1-3)])
  show "conn_ok c" using calm_conn_ok [OF assms(4)] inv_conn [OF assms(1)] by simp
  show "key_of c = snd k cid" using assms(1,4) by (simp add: calm_def inv_at_def)
  show "rtq_live (retransmission c)" if "cid \<notin> L"
    using that assms(1,4) by (auto simp: calm_def inv_at_def session_inv_def)
  show "usable c" if "usable (conns S cid)" using that calm_usable [OF assms(4)] by simp
  show "advances [] (conns S cid) c" by (rule calm_advances [OF assms(4)])
qed

lemma tables_simps [simp]:
  "tables (upd_conn i f S) = tables S" "tables (put_endpoint i p S) = tables S"
  "tables (set_link g S) = tables S" "tables (add_task t S) = tables S"
  by (simp_all add: tables_def upd_conn_def put_endpoint_def set_link_def add_task_def)

lemma conns_simps [simp]:
  "conns (set_link g S) = conns S" "conns (add_task t S) = conns S"
  "conns (upd_conn i f S) = (conns S)(i := f (conns S i))"
  "conns (put_endpoint i p S) = (conns S)(i := fst p)"
  by (simp_all add: set_link_def add_task_def upd_conn_def put_endpoint_def)

lemma safe_set_calm: "(\<And>c. calm c (f c)) \<Longrightarrow> safe (inv_at L T cid k) (set_conn cid f)"
  unfolding set_conn_def by (rule safe_modify, erule inv_calm) simp_all

lemma safe_with_quiet:
  assumes "quiet m"
  shows "safe (inv_at L T cid k) (with_conn cid m)"
proof (rule returnsI)
  fix S assume S: "inv_at L T cid k S"
  have "ready (conns S cid)" using inv_conn [OF S] by (rule conn_ok_ready)
  then obtain a c' l' where m: "m (conns S cid, s_link S) = (Inr a, (c', l'))" "calm (conns S cid) c'"
    by (rule quietE [OF assms])
  then have "with_conn cid m S = (Inr a, put_endpoint cid (c', l') S)"
    by (simp add: with_conn_def inside_run)
  moreover have "inv_at L T cid k (put_endpoint cid (c', l') S)"
    using m(2) by (intro inv_calm [OF S]) simp_all
  ultimately show "\<exists>a S'. with_conn cid m S = (Inr a, S') \<and> inv_at L T cid k S'" by blast
qed

lemma safe_conn_at [safe_intros]: "(\<And>c. safe P (k c)) \<Longrightarrow> safe P (conn_at cid k)"
  unfolding conn_at_def by (rule safe_reads)

lemma safe_modify_same:
  "(\<And>S. tables (f S) = tables S \<and> conns (f S) = conns S) \<Longrightarrow> safe (inv_at L T cid k) (modify f)"
  by (rule safe_modify, erule inv_at_same) simp_all

section \<open>Ending a connection\<close>

lemma inv_open_table: "inv_at L T cid k S \<Longrightarrow> T \<subseteq> {cid} \<Longrightarrow> inv_at L {cid} cid k S"
  unfolding inv_at_def session_inv_def by blast

lemma inv_close_table:
  assumes "inv_at L {cid} cid k S" "isCurrent cid S \<Longrightarrow> usable (conns S cid)"
  shows "inv_at L {} cid k S"
  unfolding inv_at_def session_inv_def
proof (intro conjI allI impI)
  fix k' i assume l: "lookup_key k' S = Some i"
  then show "i < next_conn S" "key_of (conns S i) = k'"
    using assms(1) unfolding inv_at_def session_inv_def by blast+
  then have "isCurrent i S" using l by (simp add: isCurrent_def)
  then show "usable (conns S i)"
    using assms l unfolding inv_at_def session_inv_def by blast
qed (use assms(1) in \<open>auto simp: inv_at_def session_inv_def\<close>)

lemma close_rtq_facts:
  "queue_ok q \<Longrightarrow> queue_ok (close_rtq q)" "rtq_closed (close_rtq q)" "\<not> can_track (close_rtq q)"
  using close_wf [of q] by (auto simp: queue_ok_def can_track_def close_rtq_def rtq_simps)

lemma conn_ok_close:
  "conn_ok c \<Longrightarrow> conn_ok (c\<lparr>retransmission := close_rtq (retransmission c)\<rparr>)"
  by (auto simp: conn_ok_def close_rtq_facts addressed_def is_forward_def)

lemma conn_ok_shut: "conn_ok c \<Longrightarrow> conn_ok (stop_timers (c\<lparr>conn_state := CLOSED\<rparr>))"
  by (auto simp: conn_ok_def stop_timers_def clearDelayedTCPAck_def close_rtq_facts addressed_def is_forward_def)

lemma shut_views:
  "tables (shut_conn cid S) = tables S"
  "conns (shut_conn cid S) = (conns S)(cid := stop_timers ((conns S cid)\<lparr>conn_state := CLOSED\<rparr>))"
  by (simp_all add: shut_conn_def Let_def)

lemma stop_timers_fields:
  "key_of (stop_timers c) = key_of c" "finSent (stop_timers c) = finSent c"
  "retransmission (stop_timers c) = close_rtq (retransmission c)"
  by (simp_all add: stop_timers_def clearDelayedTCPAck_def)

lemma inv_shut:
  assumes "inv_at L {cid} cid k S"
  shows "inv_at L {cid} cid k (shut_conn cid S)"
  by (rule inv_change [OF assms shut_views])
    (use assms in \<open>simp_all add: conn_ok_shut [OF inv_conn [OF assms]] stop_timers_fields close_live inv_at_def
      advances_closed close_rtq_facts\<close>)

text \<open>Deleting the entry of a connection settles its table condition.\<close>

lemma inv_delete:
  assumes "inv_at L {cid} cid k S" "conns S' = conns S" "next_conn S' = next_conn S"
    and del: "\<And>k'. lookup_key k' S' = (if k' = snd k cid then None else lookup_key k' S)"
  shows "inv_at L {} cid k S'"
  unfolding inv_at_def session_inv_def
proof (intro conjI allI impI)
  fix k' i assume "lookup_key k' S' = Some i"
  then have l: "lookup_key k' S = Some i" "k' \<noteq> snd k cid" by (auto simp: del split: if_splits)
  then show i: "i < next_conn S'" "key_of (conns S' i) = k'"
    using assms(1,2,3) unfolding inv_at_def session_inv_def by auto
  have "i \<noteq> cid" using i(2) l(2) assms(1,2) by (auto simp: inv_at_def)
  then show "usable (conns S' i)"
    using assms(1,2) l(1) unfolding inv_at_def session_inv_def by auto
qed (use assms(1,2,3) in \<open>auto simp: inv_at_def session_inv_def\<close>)

lemma not_current:
  assumes "inv_at L T cid k S" "T \<subseteq> {cid}" "\<not> isCurrent cid S"
  shows "inv_at L {} cid k S"
  by (rule inv_close_table [OF inv_open_table [OF assms(1,2)]]) (simp add: assms(3))

lemma calm_ends [simp]:
  "calm c (end_sink c)" "calm c (destroy_sink c)" "calm c (destroy_source c)" "calm c (settle_promise p c)"
  "calm c (destroy_sink (destroy_source c))" "calm c (destroy_source (end_sink c))"
  "calm c (settle_promise p (destroy_sink (destroy_source c)))"
  by (simp_all add: calm_def end_sink_def destroy_sink_def destroy_source_def settle_promise_def)

lemma safe_send_reset: "config_ok cfg \<Longrightarrow> safe (inv_at L T cid k) (send_reset cfg cid b)"
  unfolding send_reset_def
  by (intro safe_intros safe_with_quiet quiet_intros quiet_reset)

lemma inv_at_other: "inv_at L T i k S \<Longrightarrow> inv_at L' T' cid k S' \<Longrightarrow> inv_at L' T' i k S'"
  by (simp add: inv_at_def)

lemma set_timer_inv:
  assumes "inv_at L T cid k S" "lookup_key key S = Some i"
  shows "inv_at L T cid k (upd_conn i (\<lambda>c. c\<lparr>idleTimer := b\<rparr>) S)"
proof -
  have i: "inv_at L T i k S" using inv_lookup assms by blast
  have "inv_at L T i k (upd_conn i (\<lambda>c. c\<lparr>idleTimer := b\<rparr>) S)"
    by (rule inv_calm [OF i tables_simps(1) conns_simps(3)]) (simp add: calm_def)
  then show ?thesis by (rule inv_at_other [OF assms(1)])
qed

lemma safe_bump: "safe (inv_at L T cid k) (modify (bumpReverseConnActivity p))"
  by (rule safe_modify)
    (auto simp: bumpReverseConnActivity_def split: option.split intro!: set_timer_inv [where key = "Reverse p"])

lemma drop_reverse_ok:
  assumes "inv_at L {cid} cid k S" "snd k cid = Reverse p"
  shows "inv_at L {} cid k (drop_reverse p S)"
proof -
  have "inv_at L {cid} cid k (clearReverseConnTimer p S)"
    using assms set_timer_inv [OF assms(1), of "Reverse p"]
    by (auto simp: clearReverseConnTimer_def split: option.split)
  moreover have "tables (clearReverseConnTimer p S) = tables S"
    by (simp add: clearReverseConnTimer_def split: option.split)
  then have "reverseTcpConnections (clearReverseConnTimer p S) = reverseTcpConnections S"
    by (simp add: tables_eq)
  ultimately show ?thesis
    unfolding drop_reverse_def
    by (elim inv_delete) (simp_all add: lookup_key_def assms(2) split: conn_key.split)
qed

lemma returns_abort:
  assumes "config_ok cfg" "T \<subseteq> {cid}"
  shows "returns (inv_at L T cid k) (abort_conn cfg cid e b) (inv_at L {} cid k)"
proof (rule returnsI)
  fix S assume S: "inv_at L T cid k S"
  show "\<exists>a S'. abort_conn cfg cid e b S = (Inr a, S') \<and> inv_at L {} cid k S'"
  proof (cases "isCurrent cid S")
    case False
    then have "abort_conn cfg cid e b S = (Inr (), S)"
      by (auto simp: abort_conn_def reads_def abortTCPConnection_def abortReverseConnection_def ret_def
          isCurrent_def split: conn_key.split)
    then show ?thesis using not_current [OF S assms(2) False] by blast
  next
    case True
    note S1 = inv_open_table [OF S assms(2)]
    show ?thesis
    proof (cases "snd k cid")
      case (Forward t)
      let ?A = "inv_at L {cid} cid k" and ?B = "inv_at L {} cid k"
      have del: "?B (S\<lparr>tcpConnections := map_delete t (tcpConnections S)\<rparr>)" if "?A S" for S
        by (rule inv_delete [OF that]) (simp_all add: lookup_key_def Forward split: conn_key.split)
      have "returns ?A (block [
         modify (shut_conn cid),
         modify (\<lambda>S. S\<lparr>tcpConnections := map_delete t (tcpConnections S)\<rparr>),
         send_reset cfg cid b,
         modify (upd_conn cid (\<lambda>c. destroy_sink (destroy_source c)))]) ?B"
        by (rule returns_block(1) [where R = ?A], rule returns_modify, erule inv_shut,
            rule returns_block(1) [where R = ?B], rule returns_modify, erule del,
            intro safe_intros safe_send_reset [OF assms(1)] safe_set_calm [unfolded set_conn_def] calm_ends)
      then show ?thesis
        using S1 True Forward S
        by (auto simp: abort_conn_def reads_def abortTCPConnection_def isCurrent_def inv_at_def returns_def)
    next
      case (Reverse p)
      let ?A = "inv_at L {cid} cid k" and ?B = "inv_at L {} cid k"
      have "returns ?A (block [
         send_reset cfg cid b,
         modify (shut_conn cid),
         modify (drop_reverse p),
         modify (upd_conn cid (\<lambda>c. settle_promise (Rejected e) (destroy_sink (destroy_source c)))),
         modify (remember_closed p)]) ?B"
        by (rule returns_block(1) [where R = ?A], rule safe_send_reset [OF assms(1)],
            rule returns_block(1) [where R = ?A], rule returns_modify, erule inv_shut,
            rule returns_block(1) [where R = ?B], rule returns_modify, erule drop_reverse_ok, rule Reverse,
            intro safe_intros safe_set_calm [unfolded set_conn_def] calm_ends safe_modify_same)
          (simp_all add: remember_closed_def tables_def add_task_def)
      then show ?thesis
        using S1 True Reverse S
        by (auto simp: abort_conn_def reads_def abortReverseConnection_def isCurrent_def inv_at_def returns_def)
    qed
  qed
qed

text \<open>The orderly end needs that the FIN has been sent and that nothing is outstanding.\<close>

lemma nothing_outstanding:
  "rtq_wf q \<Longrightarrow> \<not> rtq_closed q \<Longrightarrow> \<not> hasOutstanding q \<Longrightarrow> sndUna q = sndNxt q"
  by (simp add: rtq_wf_def rtq_simps)

lemma inv_finish:
  assumes "inv_at L {} cid k S" "finSent (conns S cid)" "\<not> hasOutstanding (retransmission (conns S cid))"
  shows "inv_at L {} cid k (finish_conn cid S)"
proof (cases "isCurrent cid S")
  case False
  then have "finish_conn cid S = S"
    by (auto simp: finish_conn_def finishTCPConnection_def finishReverseConnection_def isCurrent_def
        split: conn_key.split)
  then show ?thesis using assms by simp
next
  case True
  have S1: "inv_at L {cid} cid k (shut_conn cid S)"
    using inv_shut [OF inv_open_table [OF assms(1)]] by simp
  show ?thesis
  proof (cases "snd k cid")
    case (Forward t)
    have "sndUna (retransmission (conns S cid)) = sndNxt (retransmission (conns S cid))"
      using inv_usable [OF assms(1) True] inv_conn [OF assms(1)] nothing_outstanding [OF _ _ assms(3)]
      by (auto simp: usable_def can_track_def conn_ok_def queue_ok_def)
    then have "usable (conns (shut_conn cid S) cid)"
      using assms Forward by (simp add: shut_views usable_def stop_timers_fields is_forward_def inv_at_def
          close_rtq_def rtq_simps)
    then have "inv_at L {} cid k (shut_conn cid S)" by (rule inv_close_table [OF S1])
    then have "inv_at L {} cid k (upd_conn cid end_sink (shut_conn cid S))"
      by (rule inv_calm [OF _ tables_simps(1) conns_simps(3)]) simp
    then have "inv_at L {} cid k (add_task (Forget_Finished t cid) (upd_conn cid end_sink (shut_conn cid S)))"
      by (rule inv_at_same) simp_all
    then show ?thesis
      using True assms(1) Forward
      by (simp add: finish_conn_def finishTCPConnection_def isCurrent_def inv_at_def)
  next
    case (Reverse p)
    have "inv_at L {} cid k (drop_reverse p (shut_conn cid S))"
      using drop_reverse_ok [OF S1 Reverse] .
    then have "inv_at L {} cid k (upd_conn cid (\<lambda>c. destroy_source (end_sink c)) (drop_reverse p (shut_conn cid S)))"
      by (rule inv_calm [OF _ tables_simps(1) conns_simps(3)]) simp
    then have "inv_at L {} cid k (remember_closed p
        (upd_conn cid (\<lambda>c. destroy_source (end_sink c)) (drop_reverse p (shut_conn cid S))))"
      by (rule inv_at_same) (simp_all add: remember_closed_def tables_def add_task_def)
    then show ?thesis
      using True assms(1) Reverse
      by (simp add: finish_conn_def finishReverseConnection_def isCurrent_def inv_at_def)
  qed
qed

section \<open>The queue operations of a connection\<close>

lemma conn_ok_queue:
  assumes "conn_ok c" "queue_ok q" "sndNxt q = sndNxt (retransmission c)"
    and "rtq_closed q = rtq_closed (retransmission c)" "exhausted q = exhausted (retransmission c)"
  shows "conn_ok (c\<lparr>retransmission := q\<rparr>)"
  using assms by (auto simp: conn_ok_def can_track_def addressed_def is_forward_def)

text \<open>Giving up marks the queue exhausted before the connection is aborted.\<close>

lemma conn_ok_exhaust:
  assumes "conn_ok c"
  shows "conn_ok (c\<lparr>retransmission := clearTimer ((retransmission c)\<lparr>exhausted := True\<rparr>)\<rparr>)"
proof -
  let ?q = "clearTimer ((retransmission c)\<lparr>exhausted := True\<rparr>)"
  have "rtq_wf (retransmission c)" using assms by (simp add: conn_ok_def queue_ok_def)
  then have "rtq_wf ?q" by (auto simp: rtq_wf_def rtq_simps)
  then have "queue_ok ?q" using assms by (simp add: conn_ok_def queue_ok_def rtq_simps)
  moreover have "\<not> can_track ?q" by (simp add: can_track_def rtq_simps)
  moreover have "rtq_closed ?q = rtq_closed (retransmission c)" by (simp add: rtq_simps)
  ultimately show ?thesis using assms by (auto simp: conn_ok_def addressed_def is_forward_def)
qed

lemma conn_host_fields:
  "queue_of (conn_host cfg cid) S = retransmission (conns S cid)"
  "on_queue (conn_host cfg cid) f S = upd_conn cid (\<lambda>c. c\<lparr>retransmission := f (retransmission c)\<rparr>) S"
  "onExhausted (conn_host cfg cid) e seg S = exec (abort_conn cfg cid e True) S"
  by (simp_all add: conn_host_def)

lemma inv_on_queue:
  assumes "inv_at {cid} T cid k S" "queue_ok (f (retransmission (conns S cid)))"
    and "sndNxt (f (retransmission (conns S cid))) = sndNxt (retransmission (conns S cid))"
    and "sndUna (f (retransmission (conns S cid))) = sndUna (retransmission (conns S cid))"
    and "rtq_closed (f (retransmission (conns S cid))) = rtq_closed (retransmission (conns S cid))"
    and "exhausted (f (retransmission (conns S cid))) = exhausted (retransmission (conns S cid))"
    and "unacked (f (retransmission (conns S cid))) = unacked (retransmission (conns S cid))"
  shows "inv_at {cid} T cid k (on_queue (conn_host cfg cid) f S)"
  unfolding conn_host_fields
proof (rule inv_change [OF assms(1)])
  let ?c = "(conns S cid)\<lparr>retransmission := f (retransmission (conns S cid))\<rparr>"
  show "conns (upd_conn cid (\<lambda>c. c\<lparr>retransmission := f (retransmission c)\<rparr>) S) = (conns S)(cid := ?c)"
    by simp
  show "conn_ok ?c" using conn_ok_queue [OF inv_conn [OF assms(1)]] assms(2,3,5,6) by blast
  show "key_of ?c = snd k cid" using assms(1) by (simp add: inv_at_def)
  show "usable ?c" if "usable (conns S cid)"
    using that assms(3-6) by (simp add: usable_def can_track_def is_forward_def)
  show "advances [] (conns S cid) ?c"
    by (rule advancesI [where n = 0 and m = 0]) (simp_all add: assms stream_items_def)
qed simp_all

lemma inv_give_up:
  assumes "config_ok cfg" "inv_at L {} cid k S"
  shows "inv_at L {} cid k (give_up (conn_host cfg cid) e S)"
proof -
  let ?f = "\<lambda>q. clearTimer (q\<lparr>exhausted := True\<rparr>)"
  let ?S = "on_queue (conn_host cfg cid) ?f S"
  have "inv_at L {cid} cid k ?S"
    unfolding conn_host_fields
  proof (rule inv_change [OF inv_open_table [OF assms(2)]])
    let ?c = "(conns S cid)\<lparr>retransmission := ?f (retransmission (conns S cid))\<rparr>"
    show "conns (upd_conn cid (\<lambda>c. c\<lparr>retransmission := ?f (retransmission c)\<rparr>) S) = (conns S)(cid := ?c)"
      by simp
    show "conn_ok ?c" by (rule conn_ok_exhaust [OF inv_conn [OF assms(2)]])
    show "key_of ?c = snd k cid" using assms(2) by (simp add: inv_at_def)
    show "rtq_live (retransmission ?c)" by (simp add: live_no_timer rtq_simps)
    show "advances [] (conns S cid) ?c"
      by (rule advancesI [where n = 0 and m = 0]) (simp_all add: stream_items_def rtq_simps unacked_steps)
  qed simp_all
  then obtain a S' where "abort_conn cfg cid e True ?S = (Inr a, S')" "inv_at L {} cid k S'"
    by (rule returnsE [OF returns_abort [OF assms(1) subset_refl]])
  then show ?thesis by (simp add: give_up_def Let_def conn_host_fields)
qed

lemma inv_close_queue:
  assumes "inv_at {cid} {} cid k S" "\<not> isCurrent cid S"
  shows "\<exists>S'. with_conn cid close_queue S = (Inr (), S') \<and> inv_at {cid} {} cid k S'"
proof -
  let ?c = "(conns S cid)\<lparr>retransmission := close_rtq (retransmission (conns S cid))\<rparr>"
  have run: "with_conn cid close_queue S = (Inr (), put_endpoint cid (?c, s_link S) S)"
    by (simp add: with_conn_def inside_run close_queue_def on_conn_def modify_def)
  have "inv_at {cid} {} cid k (put_endpoint cid (?c, s_link S) S)"
  proof (rule inv_change [OF assms(1) tables_simps(2)])
    show "conns (put_endpoint cid (?c, s_link S) S) = (conns S)(cid := ?c)" by simp
    show "conn_ok ?c" by (rule conn_ok_close [OF inv_conn [OF assms(1)]])
    show "key_of ?c = snd k cid" using assms(1) by (simp add: inv_at_def)
    show "advances [] (conns S cid) ?c" by (rule advances_closed) (simp_all add: close_rtq_facts)
  qed (use assms(2) in simp_all)
  then show ?thesis using run by blast
qed

lemma retransmit_inv:
  assumes "config_ok cfg" "inv_at {cid} {} cid k S" "oldest (retransmission (conns S cid)) = Some seg"
  shows "\<exists>S'. with_conn cid (conn_retransmit cfg (isCurrent cid S) (Some seg) reason) S = (Inr (), S')
    \<and> inv_at {cid} {} cid k S'"
proof (cases "isCurrent cid S")
  case False
  then show ?thesis using inv_close_queue [OF assms(2)] by (simp add: conn_retransmit_def)
next
  case True
  have "sendable (seg_payload seg) (seg_flags seg)"
    using ready_oldest [OF conn_ok_ready [OF inv_conn [OF assms(2)]] assms(3)] .
  then have "quiet (conn_retransmit cfg True (Some seg) reason)"
    unfolding conn_retransmit_def
    by (auto intro!: quiet_intros calm_loss quiet_send_stored [OF assms(1)])
  from safe_with_quiet [OF this] assms(2) obtain a S' where
    "with_conn cid (conn_retransmit cfg True (Some seg) reason) S = (Inr a, S')" "inv_at {cid} {} cid k S'"
    by (rule returnsE)
  then show ?thesis using True by auto
qed

text \<open>The data and FIN branches of a zero-window probe, and the two places where the drain sends.\<close>

lemma probe_new_data_ok:
  assumes "config_ok cfg" "conn_ok c" "can_track (retransmission c)"
  shows "\<exists>c' l'. probe_new_data cfg (c, l) = (Inr (), (c', l'))
    \<and> conn_ok c' \<and> can_track (retransmission c') \<and> key_of c' = key_of c \<and> advances [] c c'"
proof -
  have c: "ready c" "relaySeq c = sndNxt (retransmission c)" "sendQueueBytes c = int (length (concat (sendQueue c)))"
    using assms(2,3) by (simp_all add: conn_ok_def ready_def)
  have op: "\<not> rtq_closed (retransmission c)" using assms(3) by (simp add: can_track_def)
  consider "0 < sendQueueBytes c" | "sendQueueBytes c = 0" "pendingFin c" | "sendQueueBytes c = 0" "\<not> pendingFin c"
    using c(3) by force
  then show ?thesis
  proof cases
    case 1
    let ?b = "take 1 (concat (sendQueue c))"
    obtain queue where t: "take_queued 1 (c, l) = (Inr ?b, (c\<lparr>sendQueue := queue\<rparr>, l))"
      and queue: "concat queue = drop (nat 1) (concat (sendQueue c))"
      using take_queued_runs [OF c(3), of 1 l] 1 by auto
    let ?c = "c\<lparr>sendQueue := queue\<rparr>"
    have "ready ?c" using c(1) by (simp add: ready_def addressed_def)
    then obtain q l' where s: "sendTrackedTCP cfg ?b (no_flags\<lparr>ack := True\<rparr>) None True (?c, l) =
        (Inr (), (?c\<lparr>retransmission := q, relaySeq := sndNxt q\<rparr>, l'))"
      and q: "queue_ok q" "can_track q" "unacked q = unacked (retransmission c) @ seq_items ?b (no_flags\<lparr>ack := True\<rparr>)"
        "sndUna q = sndUna (retransmission c)"
      using sendTrackedTCP_ok [OF assms(1), of ?c ?b "no_flags\<lparr>ack := True\<rparr>" l] assms(3) c(2)
      by (auto simp: sendable_def writable_window_def no_flags_def)
    let ?c' = "consumeTCPQueuedData cfg 1 (?c\<lparr>retransmission := q, relaySeq := sndNxt q\<rparr>)"
    have "probe_new_data cfg (c, l) = (Inr (), (?c', l'))"
      using 1 t s
      by (simp add: probe_new_data_def the_conn_def reads_def andthen_def seq_act_def on_conn_def modify_def)
    moreover have "conn_ok ?c'"
      using consume_ok [OF assms(2,3) q(1,2), of 1 queue cfg] 1 queue by simp
    moreover have "advances [] c ?c'"
      by (rule chunk_advances [OF op queue _ _ _ q(4)])
        (simp_all add: q(3) no_flags_def consumeTCPQueuedData_def Let_def)
    moreover have "can_track (retransmission ?c')" "key_of ?c' = key_of c"
      using q(2) by (simp_all add: consumeTCPQueuedData_def Let_def)
    ultimately show ?thesis by blast
  next
    case 2
    let ?c = "c\<lparr>pendingFin := False, finSent := True, conn_state := FIN_WAIT\<rparr>"
    have "ready ?c" using c(1) by (simp add: ready_def addressed_def)
    then obtain q l' where s: "sendTrackedTCP cfg [] (no_flags\<lparr>fin := True, ack := True\<rparr>) None True (?c, l) =
        (Inr (), (?c\<lparr>retransmission := q, relaySeq := sndNxt q\<rparr>, l'))"
      and q: "queue_ok q" "can_track q"
        "unacked q = unacked (retransmission c) @ seq_items [] (no_flags\<lparr>fin := True, ack := True\<rparr>)"
        "sndUna q = sndUna (retransmission c)"
      using sendTrackedTCP_ok [OF assms(1), of ?c "[]" "no_flags\<lparr>fin := True, ack := True\<rparr>" l] assms(3) c(2)
      by (auto simp: sendable_def writable_window_def no_flags_def)
    then have "probe_new_data cfg (c, l) = (Inr (), (?c\<lparr>retransmission := q, relaySeq := sndNxt q\<rparr>, l'))"
      using 2
      by (simp add: probe_new_data_def the_conn_def reads_def andthen_def seq_act_def on_conn_def modify_def)
    moreover have "conn_ok (?c\<lparr>retransmission := q, relaySeq := sndNxt q\<rparr>)"
      using fin_ok [OF assms(2) q(1,2) 2(1)] by simp
    moreover have "advances [] c (?c\<lparr>retransmission := q, relaySeq := sndNxt q\<rparr>)"
      using assms(2) 2 c(3) by (intro fin_advances [OF op _ q(3,4)]) (auto simp: conn_ok_def)
    ultimately show ?thesis using q(2) by fastforce
  next
    case 3
    then show ?thesis
      using assms by (intro exI [of _ c] exI [of _ l]) (simp add: probe_new_data_def the_conn_def reads_def ret_def)
  qed
qed

lemma probe_inv:
  assumes "config_ok cfg" "inv_at {cid} {} cid k S" "can_track (retransmission (conns S cid))"
  shows "\<exists>b S'. with_conn cid (conn_probe cfg (isCurrent cid S) (oldest (retransmission (conns S cid)))) S = (Inr b, S')
    \<and> inv_at {cid} {} cid k S'"
proof -
  let ?c = "conns S cid" and ?seg = "oldest (retransmission (conns S cid))"
  have ok: "conn_ok ?c" by (rule inv_conn [OF assms(2)])
  then have open_state: "conn_state ?c \<noteq> CLOSED" using assms(3) by (auto simp: conn_ok_def can_track_def)
  consider "\<not> isCurrent cid S" | "isCurrent cid S" "bufferedAmount (s_link S) > 32768"
    | s where "isCurrent cid S" "\<not> bufferedAmount (s_link S) > 32768" "?seg = Some s"
    | "isCurrent cid S" "\<not> bufferedAmount (s_link S) > 32768" "?seg = None" by blast
  then show ?thesis
  proof cases
    case 1
    then show ?thesis
      using inv_close_queue [OF assms(2) 1]
      by (auto simp: conn_probe_def with_conn_def inside_run reads_def andthen_def ret_def
          split: prod.splits sum.splits)
  next
    case 2
    then have "with_conn cid (conn_probe cfg True ?seg) S = (Inr False, put_endpoint cid (?c, s_link S) S)"
      using open_state by (simp add: conn_probe_def with_conn_def inside_run reads_def ret_def)
    moreover have "inv_at {cid} {} cid k (put_endpoint cid (?c, s_link S) S)"
      by (rule inv_calm [OF assms(2) tables_simps(2) conns_simps(4)]) simp
    ultimately show ?thesis using 2 by auto
  next
    case 3
    have seg: "sendable (take 1 (seg_payload s)) (no_flags\<lparr>ack := True, fin := b\<rparr>)" for b
      by (simp add: sendable_def writable_window_def no_flags_def)
    have "ready ?c" by (rule conn_ok_ready [OF ok])
    have "quiet (probe_segment cfg s)"
      unfolding probe_segment_def by (intro quiet_ignore quiet_sendTCP_again [OF assms(1)] seg)
    then have "quiet (andthen (probe_segment cfg s) (\<lambda>_. ret True))" by (intro quiet_intros)
    from safe_with_quiet [OF this] assms(2) obtain a S' where
      "with_conn cid (andthen (probe_segment cfg s) (\<lambda>_. ret True)) S = (Inr a, S')" "inv_at {cid} {} cid k S'"
      by (rule returnsE)
    then show ?thesis
      using 3 open_state by (auto simp: conn_probe_def with_conn_def inside_run reads_def)
  next
    case 4
    obtain c' l' where p: "probe_new_data cfg (?c, s_link S) = (Inr (), (c', l'))"
      and c': "conn_ok c'" "can_track (retransmission c')" "key_of c' = key_of ?c" "advances [] ?c c'"
      using probe_new_data_ok [OF assms(1) ok assms(3), of "s_link S"] by blast
    have "with_conn cid (conn_probe cfg True ?seg) S = (Inr True, put_endpoint cid (c', l') S)"
      using 4 open_state p by (simp add: conn_probe_def with_conn_def inside_run reads_def andthen_def ret_def)
    moreover have "inv_at {cid} {} cid k (put_endpoint cid (c', l') S)"
      using c' assms(2)
      by (intro inv_change [OF assms(2) tables_simps(2) conns_simps(4)]) (simp_all add: inv_at_def usable_def)
    ultimately show ?thesis using 4 by auto
  qed
qed

interpretation careful: careful_host "conn_host cfg cid" "\<lambda>S. config_ok cfg \<and> inv_at {cid} {} cid k S" for cfg cid k
proof
  let ?h = "conn_host cfg cid" and ?P = "\<lambda>S. config_ok cfg \<and> inv_at {cid} {} cid k S"
  fix S :: session and f seg r e
  assume P: "?P S"
  show "queue_ok (queue_of ?h S)"
    using inv_conn [of "{cid}" "{}" cid k S] P by (simp add: conn_host_fields conn_ok_def)
  show "?P (on_queue ?h f S)" if "queue_ok (f (queue_of ?h S))" "sndNxt (f (queue_of ?h S)) = sndNxt (queue_of ?h S)"
    "sndUna (f (queue_of ?h S)) = sndUna (queue_of ?h S)" "rtq_closed (f (queue_of ?h S)) = rtq_closed (queue_of ?h S)"
    "exhausted (f (queue_of ?h S)) = exhausted (queue_of ?h S)" "unacked (f (queue_of ?h S)) = unacked (queue_of ?h S)"
    using inv_on_queue [of cid "{}" k S f cfg] P that by (simp add: conn_host_fields(1))
  show "?P (give_up ?h e S)" using inv_give_up P by blast
  show "fst (onRetransmit ?h (Some seg) r S) = None \<and> ?P (snd (onRetransmit ?h (Some seg) r S))"
    if "oldest (queue_of ?h S) = Some seg"
    using retransmit_inv [of cfg cid k S seg r] P that by (auto simp: conn_host_def)
  show "\<exists>b S'. onPersistProbe ?h (oldest (queue_of ?h S)) S = (Inr b, S') \<and> ?P S'"
    if "can_track (queue_of ?h S)"
    using probe_inv [of cfg cid k S] P that by (auto simp: conn_host_def)
qed

text \<open>With the timer law of the queue, the operations keep the whole invariant.\<close>

lemma inv_open_live: "inv_at {} T cid k S \<Longrightarrow> inv_at {cid} T cid k S"
  by (auto simp: inv_at_def session_inv_def)

lemma inv_close_live:
  "inv_at {cid} T cid k S \<Longrightarrow> rtq_live (retransmission (conns S cid)) \<Longrightarrow> inv_at {} T cid k S"
  unfolding inv_at_def session_inv_def by (metis empty_iff insert_iff)

lemma inv_queue:
  assumes "inv_at {} {} cid k S"
  shows "rtq_wf (retransmission (conns S cid))" "rtq_live (retransmission (conns S cid))"
  using assms inv_conn [OF assms] by (auto simp: inv_at_def session_inv_def conn_ok_def queue_ok_def)

lemma safe_fast_retransmit:
  assumes "config_ok cfg"
  shows "safe (inv_at {} {} cid k) (fast_retransmit_conn cfg cid)"
  unfolding fast_retransmit_conn_def
proof (rule safe_modify)
  fix S assume S: "inv_at {} {} cid k S"
  have "inv_at {cid} {} cid k (snd (fastRetransmit (conn_host cfg cid) S))"
    using careful.P_fastRetransmit [of cfg cid k S] assms inv_open_live [OF S] by simp
  moreover have "rtq_live (retransmission (conns (snd (fastRetransmit (conn_host cfg cid) S)) cid))"
    using connection.fastRetransmit_ok [where cfg = cfg and cid = cid and s = S] inv_queue [OF S]
    by (simp add: conn_host_fields)
  ultimately show "inv_at {} {} cid k (snd (fastRetransmit (conn_host cfg cid) S))" by (rule inv_close_live)
qed

lemma safe_set_persist:
  assumes "config_ok cfg"
  shows "safe (inv_at {} {} cid k) (set_persist_conn cfg cid b)"
proof (rule returnsI)
  fix S assume S: "inv_at {} {} cid k S"
  obtain S' where r: "setPersist (conn_host cfg cid) b S = (None, S')" and P: "inv_at {cid} {} cid k S'"
    using careful.P_setPersist [of cfg cid k S b] assms inv_open_live [OF S] by (cases "setPersist (conn_host cfg cid) b S") auto
  moreover have "rtq_live (retransmission (conns S' cid))"
    using connection.setPersist_ok [where cfg = cfg and cid = cid and s = S and b = b] inv_queue [OF S] r
    by (simp add: conn_host_fields)
  ultimately have "inv_at {} {} cid k S'" by (intro inv_close_live)
  then show "\<exists>a S'. set_persist_conn cfg cid b S = (Inr a, S') \<and> inv_at {} {} cid k S'"
    using r by (simp add: set_persist_conn_def)
qed

lemma inv_timer:
  assumes "config_ok cfg" "inv_at {} {} cid k S"
  shows "inv_at {} {} cid k (rtq_timer_fired cfg cid g S)"
proof -
  have "inv_at {cid} {} cid k (timer_callback (conn_host cfg cid) g S)"
    using careful.P_timer_callback [of cfg cid k S g] assms(1) inv_open_live [OF assms(2)] by simp
  moreover have "rtq_live (retransmission (conns (timer_callback (conn_host cfg cid) g S) cid))"
    using connection.timer_callback_ok [where cfg = cfg and cid = cid and s = S and g = g] inv_queue [OF assms(2)]
    by (simp add: conn_host_fields)
  ultimately show ?thesis unfolding rtq_timer_fired_def by (rule inv_close_live)
qed

section \<open>Draining the send queue\<close>

text \<open>The data in flight, the most the window and the congestion window allow, and keeping to it.\<close>

definition in_flight :: "nat \<Rightarrow> session \<Rightarrow> int" where
  "in_flight cid S = payloadBytesInFlight (retransmission (conns S cid))"

definition send_limit :: "config \<Rightarrow> nat \<Rightarrow> session \<Rightarrow> int" where
  "send_limit cfg cid S = tcpSendLimit cfg (conns S cid)"

definition obeys :: "config \<Rightarrow> nat \<Rightarrow> session \<Rightarrow> session \<Rightarrow> bool" where
  "obeys cfg cid S S' \<longleftrightarrow> send_limit cfg cid S' = send_limit cfg cid S
     \<and> in_flight cid S' \<le> max (in_flight cid S) (send_limit cfg cid S)"

lemma obeys_refl [simp]: "obeys cfg cid S S"
  by (simp add: obeys_def)

lemma obeys_trans: "obeys cfg cid S S1 \<Longrightarrow> obeys cfg cid S1 S2 \<Longrightarrow> obeys cfg cid S S2"
  by (auto simp: obeys_def)

lemma obeys_same:
  assumes "retransmission (conns S' cid) = retransmission (conns S cid)" "vmWindow (conns S' cid) = vmWindow (conns S cid)"
    and "congestionWindow (conns S' cid) = congestionWindow (conns S cid)"
  shows "obeys cfg cid S S'"
  using assms by (simp add: obeys_def in_flight_def send_limit_def tcpSendLimit_def)

lemma in_flight_wf: "inv_at {} {} cid k S \<Longrightarrow> in_flight cid S = int (data_bytes (unacked (retransmission (conns S cid))))"
  using inv_queue(1) [of cid k S] by (simp add: in_flight_def rtq_wf_def)

lemma recovery_fields:
  "vmWindow (snd (isTCPCongestionRecoveryActive c)) = vmWindow c"
  "congestionWindow (snd (isTCPCongestionRecoveryActive c)) = congestionWindow c"
  by (simp_all add: isTCPCongestionRecoveryActive_def split: option.split)

lemma obeys_stop: "stop_sending cid S = (r, S') \<Longrightarrow> obeys cfg cid S S'"
  by (rule obeys_same) (auto simp: stop_sending_def set_conn_def modify_def)

lemma data_bytes_seq_items [simp]: "data_bytes (seq_items p f) = length p"
  by (auto simp: seq_items_def) (simp_all add: data_bytes_def)

lemma safe_stop_sending: "safe (inv_at L T cid k) (stop_sending cid)"
  unfolding stop_sending_def by (rule safe_set_calm) (simp add: calm_def)

lemma safe_later:
  "safe (inv_at L T cid k) (modify (schedule_resume d cid))"
  "safe (inv_at L T cid k) (modify (wait_for_transport cid))"
  by (rule safe_modify_same, simp add: schedule_resume_def wait_for_transport_def)+

lemma safe_note_paced: "safe (inv_at L T cid k) (notePacedTCPSegment cid)"
proof (rule returnsI)
  fix S assume S: "inv_at L T cid k S"
  obtain paced p where n: "noteSegment (now_ms (s_link S)) (drawn (s_link S)) (conn_pacer (conns S cid)) = (paced, p)"
    by fastforce
  let ?f = "\<lambda>c. if paced then c\<lparr>conn_pacer := p, sending := False\<rparr> else c\<lparr>conn_pacer := p\<rparr>"
  have "inv_at L T cid k (upd_conn cid ?f S)"
    by (rule inv_calm [OF S tables_simps(1) conns_simps(3)]) (simp add: calm_def)
  then show "\<exists>a S'. notePacedTCPSegment cid S = (Inr a, S') \<and> inv_at L T cid k S'"
    using n by (simp add: notePacedTCPSegment_def)
qed

lemma try_consume_runs:
  assumes "0 \<le> n"
  shows "\<exists>b g. try_consume n S = (Inr b, set_link g S)"
proof -
  have "\<exists>b rl. tryConsume (now_ms (s_link S)) (Num (of_int n)) (rateLimiter (s_link S)) = (Inr b, rl)"
    using assms by (auto simp: tryConsume_def Let_def)
  then show ?thesis by (auto simp: try_consume_def)
qed

lemma inv_set_link: "inv_at L T cid k S \<Longrightarrow> inv_at L T cid k (set_link g S)"
  by (erule inv_at_same) simp_all

lemma current_upd:
  assumes "inv_at L T cid k S" "key_of (f (conns S cid)) = snd k cid"
  shows "isCurrent cid (upd_conn cid f S) = isCurrent cid S"
  using assms tables_lookup [OF tables_simps(1) [of cid f S]] by (simp add: isCurrent_def inv_at_def)

text \<open>A current connection with something left to send can be sent on.\<close>

lemma current_can_track:
  assumes "inv_at L {} cid k S" "isCurrent cid S"
    and "0 < sendQueueBytes (conns S cid) \<or> \<not> finSent (conns S cid)"
  shows "can_track (retransmission (conns S cid))"
  using inv_usable [OF assms(1,2)] inv_conn [OF assms(1)] assms(3) by (auto simp: usable_def conn_ok_def)

lemma send_fin_inv:
  assumes "config_ok cfg" "inv_at {} {} cid k S" "isCurrent cid S" "\<not> finSent (conns S cid)"
    and "sendQueueBytes (conns S cid) = 0"
  shows "\<exists>S'. seq_act (set_conn cid (\<lambda>c. c\<lparr>pendingFin := False, finSent := True, conn_state := FIN_WAIT\<rparr>))
      (with_conn cid (sendTrackedTCP cfg [] (no_flags\<lparr>fin := True, ack := True\<rparr>) None True)) S = (Inr (), S')
    \<and> inv_at {} {} cid k S' \<and> obeys cfg cid S S'"
proof -
  let ?c = "conns S cid"
  let ?c1 = "?c\<lparr>pendingFin := False, finSent := True, conn_state := FIN_WAIT\<rparr>"
  let ?S1 = "upd_conn cid (\<lambda>_. ?c1) S"
  have ok: "conn_ok ?c" by (rule inv_conn [OF assms(2)])
  have track: "can_track (retransmission ?c)" using current_can_track [OF assms(2,3)] assms(4) by simp
  have "ready ?c1" "relaySeq ?c1 = sndNxt (retransmission ?c1)"
    using ok track by (simp_all add: conn_ok_def ready_def addressed_def)
  then obtain q l' where s: "sendTrackedTCP cfg [] (no_flags\<lparr>fin := True, ack := True\<rparr>) None True (?c1, s_link S) =
      (Inr (), (?c1\<lparr>retransmission := q, relaySeq := sndNxt q\<rparr>, l'))"
    and q: "queue_ok q" "can_track q" "rtq_live (retransmission ?c) \<longrightarrow> rtq_live q"
      "unacked q = unacked (retransmission ?c) @ seq_items [] (no_flags\<lparr>fin := True, ack := True\<rparr>)"
      "sndUna q = sndUna (retransmission ?c)"
    using sendTrackedTCP_ok [OF assms(1), of ?c1 "[]" "no_flags\<lparr>fin := True, ack := True\<rparr>" "s_link S"] track
    by (auto simp: sendable_def writable_window_def no_flags_def)
  let ?c2 = "?c1\<lparr>retransmission := q, relaySeq := sndNxt q\<rparr>"
  let ?S' = "put_endpoint cid (?c2, l') (upd_conn cid (\<lambda>c. c\<lparr>pendingFin := False, finSent := True, conn_state := FIN_WAIT\<rparr>) S)"
  have "inv_at {} {} cid k ?S'"
  proof (rule inv_change [OF assms(2)])
    show "conns ?S' = (conns S)(cid := ?c2)" by simp
    show "conn_ok ?c2" using fin_ok [OF ok q(1,2) assms(5)] by simp
    show "key_of ?c2 = snd k cid" using assms(2) by (simp add: inv_at_def)
    show "rtq_live (retransmission ?c2)" using q(3) inv_queue(2) [OF assms(2)] by simp
    show "usable ?c2" using q(2) by (simp add: usable_def)
    have "\<not> rtq_closed (retransmission ?c)" "concat (sendQueue ?c) = []"
      using track ok assms(5) by (auto simp: can_track_def conn_ok_def)
    then show "advances [] ?c ?c2" by (rule fin_advances [OF _ _ q(4,5)]) (simp_all add: assms(4))
  qed simp_all
  moreover from this have "obeys cfg cid S ?S'"
    using in_flight_wf [OF assms(2)] q(4) by (simp add: obeys_def in_flight_wf send_limit_def tcpSendLimit_def)
  moreover have "s_link (upd_conn cid f S) = s_link S" for f by (simp add: upd_conn_def)
  ultimately show ?thesis
    using s by (simp add: seq_act_def andthen_def set_conn_def modify_def with_conn_def inside_run)
qed

lemma maybeSendFin_runs:
  assumes "config_ok cfg" "inv_at {} {} cid k S"
  shows "\<exists>a S'. maybeSendFin cfg cid S = (Inr a, S') \<and> inv_at {} {} cid k S' \<and> obeys cfg cid S S'"
proof -
  note S = assms(2)
  let ?c = "conns S cid"
  obtain active c' where r: "isTCPCongestionRecoveryActive ?c = (active, c')" by fastforce
  then have calm: "calm ?c c'" using calm_recovery [of ?c] by simp
  let ?S1 = "upd_conn cid (\<lambda>_. c') S"
  have S1: "inv_at {} {} cid k ?S1"
    by (rule inv_calm [OF S tables_simps(1) conns_simps(3)]) (rule calm)
  have w: "obeys cfg cid S ?S1"
    by (rule obeys_same) (use calm r recovery_fields [of ?c] in \<open>simp_all add: calm_def\<close>)
  show ?thesis
  proof (cases "\<not> pendingFin ?c \<or> finSent ?c \<or> sendQueue ?c \<noteq> []
      \<or> payloadBytesInFlight (retransmission ?c) \<ge> vmWindow ?c")
    case True
    then show ?thesis using S by (auto simp: maybeSendFin_def conn_at_def reads_def ret_def)
  next
    case False
    then have run: "maybeSendFin cfg cid S =
        (if active \<or> \<not> isCurrent cid ?S1 then (Inr (), ?S1)
         else seq_act (set_conn cid (\<lambda>c. c\<lparr>pendingFin := False, finSent := True, conn_state := FIN_WAIT\<rparr>))
           (with_conn cid (sendTrackedTCP cfg [] (no_flags\<lparr>fin := True, ack := True\<rparr>) None True)) ?S1)"
      by (simp add: maybeSendFin_def conn_at_def reads_def r set_conn_def seq_act_def andthen_def modify_def ret_def)
    have "\<not> finSent (conns ?S1 cid)" "sendQueueBytes (conns ?S1 cid) = 0"
      using False calm inv_conn [OF S] by (auto simp: calm_def conn_ok_def)
    then show ?thesis
      using send_fin_inv [OF assms(1) S1] S1 run w obeys_trans by (cases "active \<or> \<not> isCurrent cid ?S1") fastforce+
  qed
qed

lemma safe_maybeSendFin: "config_ok cfg \<Longrightarrow> safe (inv_at {} {} cid k) (maybeSendFin cfg cid)"
  using maybeSendFin_runs [of cfg cid k] by (intro returnsI) blast

text \<open>The bytes still queued, which bound the iterations of the drain.\<close>

definition queued :: "nat \<Rightarrow> session \<Rightarrow> nat" where
  "queued cid S = length (concat (sendQueue (conns S cid)))"

lemma send_chunk_inv:
  assumes "config_ok cfg" "inv_at {} {} cid k S" "can_track (retransmission (conns S cid))"
    and "0 < n" "n \<le> 65535" "n \<le> sendQueueBytes (conns S cid)"
  shows "\<exists>chunk S1 S2. with_conn cid (take_queued n) S = (Inr chunk, S1)
    \<and> with_conn cid (sendTrackedTCP cfg chunk (no_flags\<lparr>ack := True, psh := True\<rparr>) None True) S1 = (Inr (), S2)
    \<and> inv_at {} {} cid k (upd_conn cid (consumeTCPQueuedData cfg n) S2)
    \<and> queued cid (upd_conn cid (consumeTCPQueuedData cfg n) S2) < queued cid S
    \<and> in_flight cid (upd_conn cid (consumeTCPQueuedData cfg n) S2) = in_flight cid S + n
    \<and> send_limit cfg cid (upd_conn cid (consumeTCPQueuedData cfg n) S2) = send_limit cfg cid S"
proof -
  let ?c = "conns S cid" and ?f = "no_flags\<lparr>ack := True, psh := True\<rparr>"
  let ?b = "take (nat n) (concat (sendQueue ?c))"
  have ok: "conn_ok ?c" by (rule inv_conn [OF assms(2)])
  then have c: "sendQueueBytes ?c = int (length (concat (sendQueue ?c)))" by (simp add: conn_ok_def)
  obtain queue where t: "take_queued n (?c, s_link S) = (Inr ?b, (?c\<lparr>sendQueue := queue\<rparr>, s_link S))"
    and queue: "concat queue = drop (nat n) (concat (sendQueue ?c))"
    using take_queued_runs [OF c assms(4-6), of "s_link S"] by blast
  let ?c1 = "?c\<lparr>sendQueue := queue\<rparr>"
  have "ready ?c1" "relaySeq ?c1 = sndNxt (retransmission ?c1)"
    using ok assms(3) by (simp_all add: conn_ok_def ready_def addressed_def)
  then obtain q l' where s: "sendTrackedTCP cfg ?b ?f None True (?c1, s_link S) =
      (Inr (), (?c1\<lparr>retransmission := q, relaySeq := sndNxt q\<rparr>, l'))"
    and q: "queue_ok q" "can_track q" "rtq_live (retransmission ?c) \<longrightarrow> rtq_live q"
      "unacked q = unacked (retransmission ?c) @ seq_items ?b ?f" "sndUna q = sndUna (retransmission ?c)"
    using sendTrackedTCP_ok [OF assms(1), of ?c1 ?b ?f "s_link S"] assms(3)
    by (auto simp: sendable_def writable_window_def no_flags_def)
  let ?c2 = "?c1\<lparr>retransmission := q, relaySeq := sndNxt q\<rparr>"
  let ?S1 = "put_endpoint cid (?c1, s_link S) S"
  let ?S2 = "put_endpoint cid (?c2, l') ?S1"
  let ?c3 = "consumeTCPQueuedData cfg n ?c2"
  have s1: "with_conn cid (take_queued n) S = (Inr ?b, ?S1)"
    using t by (simp add: with_conn_def inside_run)
  have s2: "with_conn cid (sendTrackedTCP cfg ?b ?f None True) ?S1 = (Inr (), ?S2)"
    using s by (simp add: with_conn_def inside_run) (simp add: put_endpoint_def)
  have c3: "key_of ?c3 = key_of ?c" "retransmission ?c3 = q" "sendQueue ?c3 = queue"
    by (simp_all add: consumeTCPQueuedData_def Let_def)
  have "inv_at {} {} cid k (upd_conn cid (consumeTCPQueuedData cfg n) ?S2)"
  proof (rule inv_change [OF assms(2)])
    show "conns (upd_conn cid (consumeTCPQueuedData cfg n) ?S2) = (conns S)(cid := ?c3)" by simp
    show "conn_ok ?c3" using consume_ok [OF ok assms(3) q(1,2) assms(4,6) queue] by simp
    show "key_of ?c3 = snd k cid" using assms(2) c3 by (simp add: inv_at_def)
    show "rtq_live (retransmission ?c3)" using q(3) inv_queue(2) [OF assms(2)] c3 by simp
    show "usable ?c3" using q(2) c3 by (simp add: usable_def)
    show "advances [] ?c ?c3"
      by (rule chunk_advances [OF _ queue _ _ q(4,5)])
        (use assms(3) in \<open>simp_all add: can_track_def no_flags_def consumeTCPQueuedData_def Let_def\<close>)
  qed simp_all
  moreover from this have "in_flight cid (upd_conn cid (consumeTCPQueuedData cfg n) ?S2) = in_flight cid S + n"
    using in_flight_wf [OF assms(2)] q(4) assms(4,6) c c3(2) by (simp add: in_flight_wf)
  moreover have "send_limit cfg cid (upd_conn cid (consumeTCPQueuedData cfg n) ?S2) = send_limit cfg cid S"
    by (simp add: send_limit_def tcpSendLimit_def consumeTCPQueuedData_def Let_def)
  moreover have "queued cid (upd_conn cid (consumeTCPQueuedData cfg n) ?S2) < queued cid S"
    using c3(3) queue assms(4,6) c by (simp add: queued_def)
  ultimately show ?thesis using s1 s2 by blast
qed

text \<open>The other parts of an iteration, with the bound carried along.\<close>

abbreviation bounded :: "config \<Rightarrow> nat \<Rightarrow> origin \<Rightarrow> session \<Rightarrow> session \<Rightarrow> bool" where
  "bounded cfg cid k S \<equiv> \<lambda>S'. inv_at {} {} cid k S' \<and> obeys cfg cid S S'"

lemma obeys_maybeSendFin: "config_ok cfg \<Longrightarrow> safe (bounded cfg cid k S) (maybeSendFin cfg cid)"
  by (rule returnsI) (use maybeSendFin_runs obeys_trans in blast)

lemma obeys_stop_sending: "safe (bounded cfg cid k S) (stop_sending cid)"
proof (rule returnsI)
  fix S1 assume S1: "bounded cfg cid k S S1"
  then obtain a S2 where "stop_sending cid S1 = (Inr a, S2)" "inv_at {} {} cid k S2"
    using returnsE [OF safe_stop_sending] by blast
  then show "\<exists>a S'. stop_sending cid S1 = (Inr a, S') \<and> bounded cfg cid k S S'"
    using S1 obeys_stop obeys_trans by blast
qed

lemma obeys_later:
  "safe (bounded cfg cid k S) (modify (schedule_resume d cid))"
  "safe (bounded cfg cid k S) (modify (wait_for_transport cid))"
  by (rule safe_modify;
      auto simp: schedule_resume_def wait_for_transport_def intro: inv_set_link obeys_trans [OF _ obeys_same])+

lemma drain_send_inv:
  assumes "config_ok cfg" "inv_at {} {} cid k S" "can_track (retransmission (conns S cid))"
    and "0 < n" "n \<le> 65535" "n \<le> sendQueueBytes (conns S cid)" "in_flight cid S + n \<le> send_limit cfg cid S"
  shows "\<exists>b S'. drain_send cfg cid m available n S = (Inr b, S') \<and> inv_at {} {} cid k S'
    \<and> (b \<longrightarrow> queued cid S' < queued cid S) \<and> obeys cfg cid S S'"
proof -
  let ?A = "inv_at {} {} cid k"
  obtain chunk S1 S2 where s: "with_conn cid (take_queued n) S = (Inr chunk, S1)"
    "with_conn cid (sendTrackedTCP cfg chunk (no_flags\<lparr>ack := True, psh := True\<rparr>) None True) S1 = (Inr (), S2)"
    and S3: "?A (upd_conn cid (consumeTCPQueuedData cfg n) S2)"
      "queued cid (upd_conn cid (consumeTCPQueuedData cfg n) S2) < queued cid S"
      "in_flight cid (upd_conn cid (consumeTCPQueuedData cfg n) S2) = in_flight cid S + n"
      "send_limit cfg cid (upd_conn cid (consumeTCPQueuedData cfg n) S2) = send_limit cfg cid S"
    using send_chunk_inv [OF assms(1-6)] by blast
  let ?S3 = "upd_conn cid (consumeTCPQueuedData cfg n) S2"
  obtain paced p where n: "noteSegment (now_ms (s_link ?S3)) (drawn (s_link ?S3)) (conn_pacer (conns ?S3 cid)) = (paced, p)"
    by fastforce
  let ?f = "\<lambda>c. if paced then c\<lparr>conn_pacer := p, sending := False\<rparr> else c\<lparr>conn_pacer := p\<rparr>"
  let ?S4 = "upd_conn cid ?f ?S3"
  have note4: "notePacedTCPSegment cid ?S3 = (Inr paced, ?S4)"
    using n by (simp add: notePacedTCPSegment_def)
  have S4: "?A ?S4"
    by (rule inv_calm [OF S3(1) tables_simps(1) conns_simps(3)]) (simp add: calm_def)
  have q4: "queued cid ?S4 = queued cid ?S3" by (simp add: queued_def)
  have "obeys cfg cid ?S3 ?S4" by (rule obeys_same) simp_all
  then have w4: "obeys cfg cid S ?S4" using S3(3,4) assms(7) by (auto simp: obeys_def le_max_iff_disj)
  let ?rest = "conn_at cid (\<lambda>conn.
         if sendQueue conn = [] \<or> available \<le> n
         then andthen (stop_sending cid) (\<lambda>_. andthen (maybeSendFin cfg cid) (\<lambda>_. ret False))
         else if isOff (conn_pacer conn) \<and> m + 1 \<ge> 64
         then andthen (stop_sending cid) (\<lambda>_. andthen (modify (schedule_resume 0 cid)) (\<lambda>_. ret False))
         else ret True)"
  have run: "drain_send cfg cid m available n S = (if paced then (Inr False, ?S4) else ?rest ?S4)"
    using s note4 by (simp add: drain_send_def andthen_def set_conn_def modify_def ret_def)
  have "safe (\<lambda>S'. ?A S' \<and> obeys cfg cid S S') ?rest"
    by (intro safe_intros obeys_stop_sending obeys_maybeSendFin [OF assms(1)] obeys_later)
  then obtain b S' where r: "?rest ?S4 = (Inr b, S')" "?A S'" "obeys cfg cid S S'"
    using S4 w4 by (elim returnsE) auto
  have "S' = ?S4" if "b"
    using r(1) that
    by (auto simp: conn_at_def reads_def andthen_def ret_def split: if_splits prod.splits sum.splits)
  then show ?thesis using run r S4 S3(2) q4 w4 by (cases paced) auto
qed

lemma next_chunk_facts:
  assumes "next_chunk cfg c = (available, n, c')" "config_ok cfg"
  shows "calm c c'" "n \<le> sendQueueBytes c" "n \<le> 65535"
    and "0 < n \<Longrightarrow> payloadBytesInFlight (retransmission c) + n \<le> tcpSendLimit cfg c"
    and "vmWindow c' = vmWindow c" "congestionWindow c' = congestionWindow c"
proof -
  obtain active c1 where r: "isTCPCongestionRecoveryActive c = (active, c1)" by fastforce
  then have calm: "calm c c1" using calm_recovery [of c] by simp
  then show "calm c c'" using assms(1) r by (simp add: next_chunk_def Let_def)
  have "n = min (tcpMss cfg c1) (min (sendQueueBytes c1) available)"
    using assms(1) r by (auto simp: next_chunk_def Let_def)
  then show "n \<le> sendQueueBytes c" "n \<le> 65535"
    using calm mss_bounds [OF assms(2), of c1] by (auto simp: calm_def)
  show "vmWindow c' = vmWindow c" "congestionWindow c' = congestionWindow c"
    using assms(1) r recovery_fields [of c] by (auto simp: next_chunk_def Let_def)
  show "payloadBytesInFlight (retransmission c) + n \<le> tcpSendLimit cfg c" if "0 < n"
    using assms(1) r that by (auto simp: next_chunk_def Let_def split: if_splits)
qed

lemma drain_step_inv:
  assumes "config_ok cfg" "inv_at {} {} cid k S"
  shows "\<exists>b S'. drain_step cfg cid rl m S = (Inr b, S') \<and> inv_at {} {} cid k S'
    \<and> (b \<longrightarrow> queued cid S' < queued cid S) \<and> obeys cfg cid S S'"
proof -
  let ?A = "bounded cfg cid k S" and ?c = "conns S cid"
  have S: "?A S" using assms(2) by simp
  have stop: "\<exists>b S'. andthen m1 (\<lambda>_. ret False) S = (Inr b, S') \<and> ?A S' \<and> \<not> b"
    if m1: "safe ?A m1" and S: "?A S" for m1 :: "(session, unit) act" and S
  proof -
    obtain a S1 where "m1 S = (Inr a, S1)" "?A S1" using returnsE [OF m1 S] by blast
    then show ?thesis by (intro exI [of _ False] exI [of _ S1]) (simp add: andthen_def ret_def)
  qed
  have stop2: "\<exists>b S'. andthen (stop_sending cid) (\<lambda>_. andthen m1 (\<lambda>_. ret False)) S = (Inr b, S') \<and> ?A S' \<and> \<not> b"
    if m1: "safe ?A m1" and S: "?A S" for m1 :: "(session, unit) act" and S
  proof -
    obtain a S1 where "stop_sending cid S = (Inr a, S1)" "?A S1"
      using returnsE [OF obeys_stop_sending S] by blast
    then show ?thesis using stop [OF m1, of S1] by (simp add: andthen_def)
  qed
  obtain available n c' where nc: "next_chunk cfg ?c = (available, n, c')" by (metis prod_cases3)
  note facts = next_chunk_facts [OF nc assms(1)]
  let ?S1 = "upd_conn cid (\<lambda>_. c') S"
  have "inv_at {} {} cid k ?S1" by (rule inv_calm [OF assms(2) tables_simps(1) conns_simps(3)]) (rule facts(1))
  moreover have w1: "obeys cfg cid S ?S1"
    by (rule obeys_same) (use facts(1,5,6) in \<open>simp_all add: calm_def\<close>)
  ultimately have S1: "?A ?S1" by simp
  consider "\<not> isCurrent cid S" | "isCurrent cid S" "sendQueue ?c = []"
    | "isCurrent cid S" "sendQueue ?c \<noteq> []" "bufferedAmount (s_link S) > 32768"
    | "isCurrent cid S" "sendQueue ?c \<noteq> []" "\<not> bufferedAmount (s_link S) > 32768" "n \<le> 0"
    | "isCurrent cid S" "sendQueue ?c \<noteq> []" "\<not> bufferedAmount (s_link S) > 32768" "0 < n" by linarith
  then show ?thesis
  proof cases
    case 1
    then show ?thesis
      using stop [OF obeys_stop_sending S] by (auto simp: drain_step_def reads_def Let_def)
  next
    case 2
    then show ?thesis
      using stop2 [OF obeys_maybeSendFin [OF assms(1)] S] by (auto simp: drain_step_def reads_def Let_def)
  next
    case 3
    then show ?thesis
      using stop2 [OF obeys_later(2) S] by (auto simp: drain_step_def reads_def Let_def)
  next
    case 4
    then have "drain_step cfg cid rl m S = andthen (stop_sending cid) (\<lambda>_. ret False) ?S1"
      by (simp add: drain_step_def reads_def Let_def nc set_conn_def andthen_def modify_def)
    then show ?thesis using stop [OF obeys_stop_sending S1] by auto
  next
    case 5
    let ?limit = "if rl then try_consume n else ret True"
    have run: "drain_step cfg cid rl m S = andthen ?limit (\<lambda>allowed.
        if \<not> allowed
        then andthen (stop_sending cid) (\<lambda>_. andthen (modify (schedule_resume 20 cid)) (\<lambda>_. ret False))
        else drain_send cfg cid m available n) ?S1"
      using 5 by (simp add: drain_step_def reads_def Let_def nc set_conn_def andthen_def modify_def)
    have q: "0 < sendQueueBytes ?c" using facts(2) 5(4) by simp
    have track: "can_track (retransmission c')"
      using current_can_track [OF assms(2) 5(1)] q facts(1) by (simp add: calm_def)
    have "\<exists>b S2. ?limit ?S1 = (Inr b, S2) \<and> ?A S2 \<and> conns S2 = conns ?S1"
    proof (cases rl)
      case True
      obtain b g where "try_consume n ?S1 = (Inr b, set_link g ?S1)"
        using try_consume_runs [of n ?S1] 5(4) by auto
      moreover have "?A (set_link g ?S1)"
        using S1 inv_set_link obeys_trans [OF w1 obeys_same [of "set_link g ?S1"]] by simp
      ultimately show ?thesis using True by auto
    next
      case False
      then show ?thesis using S1 by (intro exI [of _ True] exI [of _ ?S1]) (simp add: ret_def)
    qed
    then obtain b S2 where l: "?limit ?S1 = (Inr b, S2)" "?A S2" "conns S2 = conns ?S1" by blast
    show ?thesis
    proof (cases b)
      case False
      then show ?thesis
        using stop2 [OF obeys_later(1) l(2), of 20] l(1) unfolding run by (auto simp: andthen_def)
    next
      case True
      have "queued cid S2 = queued cid S" using l(3) facts(1) by (simp add: queued_def calm_def)
      moreover have "can_track (retransmission (conns S2 cid))" "n \<le> sendQueueBytes (conns S2 cid)"
        using track facts l(3) by (simp_all add: calm_def)
      moreover have "in_flight cid S2 + n \<le> send_limit cfg cid S2"
      proof -
        have "tcpSendLimit cfg c' = tcpSendLimit cfg ?c" using facts(5,6) by (simp add: tcpSendLimit_def)
        then show ?thesis
          using facts(1,4) 5(4) l(3) by (simp add: in_flight_def send_limit_def calm_def)
      qed
      ultimately obtain b S3 where "drain_send cfg cid m available n S2 = (Inr b, S3)" "inv_at {} {} cid k S3"
        "b \<longrightarrow> queued cid S3 < queued cid S" "obeys cfg cid S2 S3"
        using drain_send_inv [OF assms(1) conjunct1 [OF l(2)], of n m available] 5(4) facts(3) by auto
      then show ?thesis
        using l(1) True obeys_trans [OF conjunct2 [OF l(2)]] unfolding run by (auto simp: andthen_def)
    qed
  qed
qed

lemma safe_send_pending:
  assumes "config_ok cfg"
  shows "safe (inv_at {} {} cid k) (send_pending cfg cid rl fuel m)"
proof (induction fuel arbitrary: m)
  case 0
  then show ?case by (simp add: safe_ret)
next
  case (Suc fuel)
  have "safe (inv_at {} {} cid k) (drain_step cfg cid rl m)"
    using drain_step_inv [OF assms] by (intro returnsI) meson
  then show ?case using Suc by (auto intro!: safe_intros)
qed

lemma safe_drain:
  assumes "config_ok cfg"
  shows "safe (inv_at {} {} cid k) (drainTCPToVM cfg cid rl)"
  unfolding drainTCPToVM_def
  by (intro safe_intros safe_set_calm safe_set_persist [OF assms] safe_send_pending [OF assms])
    (simp add: calm_def)

end
