(* ===== verification/Session_Steps.thy ===== *)
theory Session_Steps
  imports Session_Safety
begin

text \<open>
  The packet handlers, stream events and timers of a session's TCP connections keep its
  invariant and return normally; a run of a session is a list of such events.
\<close>

section \<open>Resuming a connection\<close>

abbreviation at_conn :: "nat \<Rightarrow> origin \<Rightarrow> session \<Rightarrow> bool" where
  "at_conn \<equiv> inv_at {} {}"

text \<open>Work on whatever connection a table holds under a key.\<close>

lemma safe_found:
  assumes "\<And>cid. snd k cid = key \<Longrightarrow> safe (at_conn cid k) (m cid)"
  shows "safe (at_conn i k) (reads id (\<lambda>S. case lookup_key key S of None \<Rightarrow> ret () | Some cid \<Rightarrow> m cid))"
proof (rule returnsI)
  fix S assume S: "at_conn i k S"
  show "\<exists>a S'. reads id (\<lambda>S. case lookup_key key S of None \<Rightarrow> ret () | Some cid \<Rightarrow> m cid) S = (Inr a, S')
      \<and> at_conn i k S'"
  proof (cases "lookup_key key S")
    case None
    then show ?thesis using S by (simp add: reads_def ret_def)
  next
    case (Some cid)
    have c: "at_conn cid k S" "snd k cid = key" using inv_lookup [OF S Some] by simp_all
    obtain a S' where "m cid S = (Inr a, S')" "at_conn cid k S'" by (rule returnsE [OF assms [OF c(2)] c(1)])
    then show ?thesis using Some inv_at_other [OF S] by (auto simp: reads_def)
  qed
qed

lemma safe_trySendReverse:
  assumes "config_ok cfg"
  shows "safe (at_conn i k) (trySendReverseToVM cfg p)"
proof -
  let ?m = "\<lambda>cid. conn_at cid (\<lambda>conn. if sending conn \<or> blocked (conn_pacer conn)
      \<or> (conn_state conn \<noteq> ESTABLISHED \<and> conn_state conn \<noteq> FIN_WAIT \<and> conn_state conn \<noteq> CLOSING)
      then ret () else drainTCPToVM cfg cid False)"
  have e: "trySendReverseToVM cfg p = reads id (\<lambda>S. case lookup_key (Reverse p) S of None \<Rightarrow> ret () | Some cid \<Rightarrow> ?m cid)"
    by (rule ext) (auto simp: trySendReverseToVM_def reads_def conn_at_def Let_def split: option.split)
  show ?thesis unfolding e by (intro safe_found safe_intros safe_drain [OF assms])
qed

lemma safe_trySend:
  assumes "config_ok cfg"
  shows "safe (at_conn i k) (trySendToVM cfg key)"
proof -
  let ?m = "\<lambda>cid. conn_at cid (\<lambda>conn. if sending conn \<or> blocked (conn_pacer conn) \<or> conn_state conn = SYN_SENT
      then ret () else drainTCPToVM cfg cid True)"
  have e: "trySendToVM cfg key = reads id (\<lambda>S. case lookup_key (Forward key) S of None \<Rightarrow> ret () | Some cid \<Rightarrow> ?m cid)"
    by (rule ext) (auto simp: trySendToVM_def reads_def conn_at_def Let_def split: option.split)
  show ?thesis unfolding e by (intro safe_found safe_intros safe_drain [OF assms])
qed

lemma safe_try_send: "config_ok cfg \<Longrightarrow> safe (at_conn i k) (try_send cfg key)"
  by (simp add: try_send_def safe_trySend safe_trySendReverse split: conn_key.split)

section \<open>Acknowledgements\<close>

lemma consume_prefix_sendable:
  assumes "sendable (seg_payload s) (seg_flags s)"
  shows "sendable (seg_payload (snd (consumeSegmentPrefix s n))) (seg_flags (snd (consumeSegmentPrefix s n)))"
proof -
  have "seg_payload (snd (consumeSegmentPrefix s n)) =
      drop (min (n - (if syn (seg_flags s) \<and> n > 0 then 1 else 0)) (length (seg_payload s))) (seg_payload s)"
    unfolding consumeSegmentPrefix_def Let_def
    by (cases "syn (seg_flags s) \<and> n > 0"; cases "seg_payload s = []"; simp split: if_split)
  moreover have "windowSize (seg_flags (snd (consumeSegmentPrefix s n))) = windowSize (seg_flags s)
      \<and> rst (seg_flags (snd (consumeSegmentPrefix s n))) = rst (seg_flags s)
      \<and> (syn (seg_flags (snd (consumeSegmentPrefix s n))) \<longrightarrow> syn (seg_flags s))"
    unfolding consumeSegmentPrefix_def Let_def by (cases "syn (seg_flags s) \<and> n > 0"; simp split: if_split)
  ultimately show ?thesis using assms by (auto simp: sendable_def writable_window_def)
qed

lemma ack_loop_sendable:
  "\<forall>s \<in> set segs. sendable (seg_payload s) (seg_flags s) \<Longrightarrow>
   \<forall>s \<in> set (snd (snd (ack_loop r a f segs))). sendable (seg_payload s) (seg_flags s)"
proof (induction r a f segs rule: ack_loop.induct)
  case (1 r a f segs)
  show ?case
  proof (cases segs)
    case Nil
    then show ?thesis by (subst ack_loop.simps) simp
  next
    case (Cons s rest)
    have "sendable (seg_payload (snd (consumeSegmentPrefix s r))) (seg_flags (snd (consumeSegmentPrefix s r)))"
      using consume_prefix_sendable 1(2) Cons by simp
    then show ?thesis
      using 1 Cons by (subst ack_loop.simps) (auto split: prod.split sum.split)
  qed
qed

lemma acknowledge_queue_ok:
  assumes "queue_ok q" "rtq_live q"
  shows "queue_ok (snd (acknowledge a q))"
proof -
  have wf: "rtq_wf (snd (acknowledge a q))"
    using acknowledge_inv assms by (simp add: queue_ok_def)
  have "can_probe (snd (acknowledge a q)) = can_probe q" "rtq_closed (snd (acknowledge a q)) = rtq_closed q"
    by (auto simp: acknowledge_def Let_def rtq_simps split: prod.split sum.split)
  moreover have "\<forall>s \<in> set (rtq_segments (snd (acknowledge a q))). sendable (seg_payload s) (seg_flags s)"
    using assms(1) ack_loop_sendable [of "rtq_segments q" "sequenceDistance a (sndUna q)" 0 "payloadBytesInFlight q"]
    by (auto simp: acknowledge_def Let_def queue_ok_def rtq_simps split: prod.split sum.split)
  ultimately show ?thesis using wf assms(1) by (simp add: queue_ok_def)
qed

lemma acknowledge_returns:
  assumes "rtq_wf q" "\<not> rtq_closed q \<or> sndUna q = sndNxt q"
  shows "\<exists>r. fst (acknowledge a q) = Inr r"
proof (cases "rtq_closed q")
  case False
  then show ?thesis using acknowledge_spec(1) [OF assms(1)] by blast
next
  case True
  then show ?thesis using assms(2) by (auto simp: acknowledge_def Let_def sequenceDistance_def)
qed

lemma acknowledge_same:
  assumes "rtq_wf q" "\<not> rtq_closed q \<or> sndUna q = sndNxt q"
  shows "sndNxt (snd (acknowledge a q)) = sndNxt q" "rtq_closed (snd (acknowledge a q)) = rtq_closed q"
    "exhausted (snd (acknowledge a q)) = exhausted q"
    "rtq_closed q \<Longrightarrow> sndUna (snd (acknowledge a q)) = sndUna q"
proof -
  show "sndNxt (snd (acknowledge a q)) = sndNxt q" "rtq_closed (snd (acknowledge a q)) = rtq_closed q"
    "exhausted (snd (acknowledge a q)) = exhausted q"
    by (auto simp: acknowledge_def Let_def rtq_simps split: prod.split sum.split)
  show "sndUna (snd (acknowledge a q)) = sndUna q" if "rtq_closed q"
    using assms(2) that by (auto simp: acknowledge_def Let_def sequenceDistance_def)
qed

text \<open>The acknowledgement is taken by a connection that was just found in its table.\<close>

definition found :: "nat \<Rightarrow> origin \<Rightarrow> session \<Rightarrow> bool" where
  "found cid k S \<longleftrightarrow> at_conn cid k S \<and> usable (conns S cid)"

lemma found_at: "found cid k S \<Longrightarrow> at_conn cid k S"
  by (simp add: found_def)

lemma returns_acknowledge: "returns (found cid k) (acknowledge_conn cid a) (at_conn cid k)"
proof (rule returnsI)
  fix S assume "found cid k S"
  then have S: "at_conn cid k S" and u: "usable (conns S cid)" by (simp_all add: found_def)
  let ?c = "conns S cid"
  let ?q = "retransmission ?c"
  have ok: "conn_ok ?c" by (rule inv_conn [OF S])
  have q: "rtq_wf ?q" "rtq_live ?q" "queue_ok ?q" using inv_queue [OF S] ok by (simp_all add: conn_ok_def)
  have una: "\<not> rtq_closed ?q \<or> sndUna ?q = sndNxt ?q" using u by (auto simp: usable_def can_track_def)
  obtain r where r: "fst (acknowledge a ?q) = Inr r" using acknowledge_returns [OF q(1) una] by blast
  let ?q' = "snd (acknowledge a ?q)"
  note same = acknowledge_same [OF q(1) una, of a]
  let ?S' = "upd_conn cid (\<lambda>c. c\<lparr>retransmission := ?q'\<rparr>) S"
  have "at_conn cid k ?S'"
  proof (rule inv_change [OF S tables_simps(1) conns_simps(3)])
    show "conn_ok (?c\<lparr>retransmission := ?q'\<rparr>)"
      by (rule conn_ok_queue [OF ok acknowledge_queue_ok [OF q(3,2)] same(1-3)])
    show "key_of (?c\<lparr>retransmission := ?q'\<rparr>) = snd k cid" using S by (simp add: inv_at_def)
    show "rtq_live (retransmission (?c\<lparr>retransmission := ?q'\<rparr>))" using acknowledge_inv [OF q(1,2)] by simp
    show "usable (?c\<lparr>retransmission := ?q'\<rparr>)" if "usable ?c"
      using that same by (auto simp: usable_def can_track_def is_forward_def)
    show "advances [] ?c (?c\<lparr>retransmission := ?q'\<rparr>)"
    proof (cases "rtq_closed ?q")
      case True
      then show ?thesis using same(2) by (intro advances_closed) simp_all
    next
      case False
      note ack = acknowledge_spec [OF q(1) False, of a]
      have n: "ack_advance a ?q \<le> length (unacked ?q)"
        using outstanding_le [OF q(1) False] by (auto simp: ack_advance_def ack_class_def Let_def split: if_splits)
      then show ?thesis
        using ack(2,3,7) False
        by (intro advancesI [where n = "ack_advance a ?q" and m = 0])
          (auto simp: stream_items_def ack_advance_def sequenceDistance_def)
    qed
  qed
  then show "\<exists>x S'. acknowledge_conn cid a S = (Inr x, S') \<and> at_conn cid k S'"
    using r by (simp add: acknowledge_conn_def case_prod_unfold)
qed

lemma safe_update_window: "safe (at_conn cid k) (update_window_conn cid h)"
proof (rule returnsI)
  fix S assume S: "at_conn cid k S"
  have "at_conn cid k (upd_conn cid (\<lambda>_. snd (updateTCPWindow (th_seq h) (th_ack h) (int (th_window h)) (conns S cid))) S)"
    by (rule inv_calm [OF S tables_simps(1) conns_simps(3)]) (rule calm_window)
  then show "\<exists>a S'. update_window_conn cid h S = (Inr a, S') \<and> at_conn cid k S'"
    by (simp add: update_window_conn_def case_prod_unfold)
qed

lemma safe_ack_advanced: "config_ok cfg \<Longrightarrow> safe (at_conn cid k) (ack_advanced cfg cid h n)"
  unfolding ack_advanced_def
  by (intro safe_intros safe_set_calm safe_with_quiet quiet_congestion_ack) (simp add: calm_def)

lemma safe_count_duplicate: "config_ok cfg \<Longrightarrow> safe (at_conn cid k) (count_duplicate cfg cid h)"
  unfolding count_duplicate_def
  by (intro safe_intros safe_set_calm safe_fast_retransmit) (simp_all add: calm_def)

text \<open>A branch that depends on the connection and finishes it when it is done.\<close>

lemma safe_conn_state:
  "(\<And>S. P S \<Longrightarrow> \<exists>a S'. m (conns S cid) S = (Inr a, S') \<and> P S') \<Longrightarrow> safe P (conn_at cid m)"
  by (rule returnsI) (simp add: conn_at_def reads_def)

lemma finish_key:
  assumes "at_conn cid k S"
  shows "snd k cid = Reverse p \<Longrightarrow> finishReverseConnection p cid S = finish_conn cid S"
    and "snd k cid = Forward t \<Longrightarrow> finishTCPConnection t cid S = finish_conn cid S"
  using assms by (simp_all add: finish_conn_def inv_at_def)

lemma calm_peer_fin: "calm c (peer_fin c)" "calm c (peer_fin (c\<lparr>vmSeq := s\<rparr>))" "calm c (c\<lparr>vmSeq := s\<rparr>)"
  by (simp_all add: peer_fin_def end_sink_def calm_def)

section \<open>Packets of reverse connections\<close>

lemma safe_finish_reverse:
  assumes "snd k cid = Reverse p" "\<And>c. done_c c \<Longrightarrow> finSent c \<and> \<not> hasOutstanding (retransmission c)"
    and "\<And>c. safe (at_conn cid k) (other c)"
  shows "safe (at_conn cid k) (conn_at cid (\<lambda>c. if done_c c
    then andthen (modify (finishReverseConnection p cid)) (\<lambda>_. ret b) else other c))"
proof (rule safe_conn_state)
  fix S assume S: "at_conn cid k S"
  have "at_conn cid k (finishReverseConnection p cid S)" if "done_c (conns S cid)"
    using inv_finish [OF S] assms(2) [OF that] finish_key(1) [OF S assms(1)] by simp
  moreover obtain a S' where "other (conns S cid) S = (Inr a, S')" "at_conn cid k S'"
    by (rule returnsE [OF assms(3) S])
  ultimately show "\<exists>a S'. (if done_c (conns S cid) then andthen (modify (finishReverseConnection p cid)) (\<lambda>_. ret b)
      else other (conns S cid)) S = (Inr a, S') \<and> at_conn cid k S'"
    by (auto simp: andthen_def modify_def ret_def)
qed

lemma safe_reverse_ack:
  assumes "config_ok cfg" "snd k cid = Reverse p"
  shows "returns (found cid k) (reverse_ack cfg p cid h) (at_conn cid k)"
proof (cases "ACK h")
  case False
  then show ?thesis by (auto simp: reverse_ack_def returns_def ret_def found_def)
next
  case True
  show ?thesis
    unfolding reverse_ack_def using True
    apply simp
    apply (rule returns_andthen [OF returns_acknowledge])
    apply (intro safe_finish_reverse [OF assms(2)] safe_intros safe_update_window safe_ack_advanced assms
        safe_count_duplicate safe_trySendReverse safe_set_calm)
    by (simp_all add: closing_done_def calm_def)
qed

lemma found_returns: "returns (at_conn cid k) m Q \<Longrightarrow> returns (found cid k) m Q"
  by (erule returns_weaken) (simp_all add: found_def)

lemma safe_abort_key:
  assumes "config_ok cfg"
  shows "snd k cid = Reverse p \<Longrightarrow> safe (at_conn cid k) (abortReverseConnection cfg p cid e b)"
    and "snd k cid = Forward t \<Longrightarrow> safe (at_conn cid k) (abortTCPConnection cfg t cid e b)"
proof -
  have a: "returns (at_conn cid k) (abort_conn cfg cid e b) (at_conn cid k)"
    by (rule returns_abort [OF assms]) simp
  show "safe (at_conn cid k) (abortReverseConnection cfg p cid e b)" if "snd k cid = Reverse p"
    using a that by (auto simp: returns_def abort_conn_def reads_def inv_at_def)
  show "safe (at_conn cid k) (abortTCPConnection cfg t cid e b)" if "snd k cid = Forward t"
    using a that by (auto simp: returns_def abort_conn_def reads_def inv_at_def)
qed

lemma safe_reverse_handshake:
  assumes "config_ok cfg" "snd k cid = Reverse p"
  shows "returns (found cid k) (reverse_handshake cfg p cid h) (at_conn cid k)"
  unfolding reverse_handshake_def
  by (rule returns_andthen [OF returns_acknowledge],
      intro safe_intros safe_set_calm safe_with_quiet quiet_intros safe_trySendReverse assms)
    (simp_all add: reverse_established_def calm_def settle_promise_def)

lemma safe_payload:
  assumes "config_ok cfg"
  shows "safe (at_conn cid k) (reverse_payload cfg cid h)" "safe (at_conn cid k) (forward_payload cfg cid h)"
  unfolding reverse_payload_def forward_payload_def
  by (intro safe_intros safe_with_quiet quiet_take_payload assms calm_accept_reverse calm_accept_forward)+

lemma safe_finish_whenever:
  assumes "snd k cid = Reverse p \<and> fin_m = finishReverseConnection p cid
    \<or> (\<exists>t. snd k cid = Forward t \<and> fin_m = finishTCPConnection t cid)"
  shows "safe (at_conn cid k) (conn_at cid (\<lambda>conn. whenever (finSent conn \<and> \<not> hasOutstanding (retransmission conn))
    (modify fin_m)))"
proof (rule safe_conn_state)
  fix S assume S: "at_conn cid k S"
  have "fin_m S = finish_conn cid S" using assms finish_key [OF S] by auto
  then show "\<exists>a S'. whenever (finSent (conns S cid) \<and> \<not> hasOutstanding (retransmission (conns S cid))) (modify fin_m) S
      = (Inr a, S') \<and> at_conn cid k S'"
    using inv_finish [OF S] S by (auto simp: whenever_def modify_def ret_def)
qed

lemma safe_reverse_fin:
  assumes "config_ok cfg" "snd k cid = Reverse p"
  shows "safe (at_conn cid k) (reverse_fin cfg p cid h)"
  unfolding reverse_fin_def
  by (rule safe_conn_at, rule safe_if,
      intro safe_with_quiet quiet_intros assms,
      intro safe_block safe_list safe_set_calm safe_with_quiet quiet_intros assms calm_peer_fin safe_finish_whenever)
    (use assms(2) in simp)

lemma safe_reverse_data:
  assumes "config_ok cfg" "snd k cid = Reverse p"
  shows "returns (found cid k) (reverse_data cfg p cid h) (at_conn cid k)"
  unfolding reverse_data_def
  by (rule returns_andthen [OF safe_reverse_ack [OF assms]])
    (intro safe_intros safe_payload safe_reverse_fin assms)

text \<open>A reset for an unknown connection goes to the parsed addresses.\<close>

lemma parsed_addresses:
  assumes "parseIPv4Packet raw = Some parsed"
  shows "\<exists>b. ipv4Bytes (AddrString (ip_srcIP parsed)) = Inr b"
    and "\<exists>b. ipv4Bytes (AddrString (ip_dstIP parsed)) = Inr b"
proof -
  have "ip_srcIP parsed = formatIPv4 raw 12 \<and> ip_dstIP parsed = formatIPv4 raw 16 \<and> 20 \<le> length raw"
    using assms by (auto simp: parseIPv4Packet_def Let_def split: if_splits)
  then show "\<exists>b. ipv4Bytes (AddrString (ip_srcIP parsed)) = Inr b"
    "\<exists>b. ipv4Bytes (AddrString (ip_dstIP parsed)) = Inr b"
    using ipv4Bytes_formatIPv4 [of 12 raw] ipv4Bytes_formatIPv4 [of 16 raw] by auto
qed

lemma parse_tcp_ports:
  "parse_tcp p = Some h \<Longrightarrow> th_srcPort h < 65536 \<and> th_dstPort h < 65536 \<and> th_window h < 65536"
  by (auto simp: parse_tcp_def Let_def u16be_lt split: if_splits)

lemma send_rst_returns:
  assumes "sp < 65536" "dp < 65536" "ipv4Bytes src = Inr sb" "ipv4Bytes dst = Inr db"
  shows "\<exists>l'. sendRSTForReverse cfg sp dp src dst s l = (Inr (), l')"
proof -
  obtain tcp where tcp: "rst_segment sp dp s = Inr tcp" "length tcp = 20"
    using assms(1,2) by (simp add: rst_segment_def writeUInt16BE_def)
  let ?i = "idents l (drawn l) mod 65535"
  have "?i \<le> 65535" by (simp add: less_imp_le)
  then obtain p where p: "buildIPv4Packet tcp src dst 6 ?i = Inr p"
    using build_succeeds [OF assms(3,4), of tcp ?i 6] tcp(2) by auto
  obtain k where "transportChecksum p 6 16 = Inr k" "k < 65536"
    using built_checksum [OF p, of 16] tcp(2) by auto
  then show ?thesis
    using tcp p by (simp add: sendRSTForReverse_def buildIP_def draw_ident_def andthen_def lift_result_def
        with_checksum_def tcpChecksum_def writeUInt16BE_def sendIPToVM_def act_simps sendToVM_def)
qed

section \<open>Events on a sound session\<close>

text \<open>
  What an event does to the streams: those of the connections that were there advance, and a
  connection it opens has its SYN to get through under the sequence number \<open>isn\<close>.
\<close>

definition newborn :: "u32 \<Rightarrow> tcp_conn \<Rightarrow> bool" where
  "newborn isn c \<longleftrightarrow> stream_items c = [SYN_item] \<and> sndUna (retransmission c) = isn \<and> \<not> finSent c"

definition evolves :: "(nat \<Rightarrow> bytes) \<Rightarrow> u32 \<Rightarrow> session \<Rightarrow> session \<Rightarrow> bool" where
  "evolves new isn S S' \<longleftrightarrow> sound S'
     \<and> (\<forall>i < next_conn S. advances (new i) (conns S i) (conns S' i))
     \<and> (next_conn S' = next_conn S
        \<or> next_conn S' = Suc (next_conn S) \<and> newborn isn (conns S' (next_conn S)))"

definition evolving :: "u32 \<Rightarrow> (session, 'a) act \<Rightarrow> bool" where
  "evolving isn m \<longleftrightarrow> (\<forall>S. sound S \<longrightarrow> (\<exists>a S'. m S = (Inr a, S') \<and> evolves (\<lambda>_. []) isn S S'))"

lemma evolvingI:
  "(\<And>S. sound S \<Longrightarrow> \<exists>a S'. m S = (Inr a, S') \<and> evolves (\<lambda>_. []) isn S S') \<Longrightarrow> evolving isn m"
  by (simp add: evolving_def)

lemma at_evolves: "at_conn i (origin_of S) S' \<Longrightarrow> evolves (\<lambda>_. []) isn S S'"
  by (simp add: evolves_def inv_at_def)

lemma same_evolves:
  assumes "sound S" "tables S' = tables S" "conns S' = conns S"
  shows "evolves (\<lambda>_. []) isn S S'"
  using inv_same [OF assms] assms(2,3) by (simp add: evolves_def tables_def)

lemma evolving_ret: "evolving isn (ret a)"
  by (rule evolvingI) (auto simp: ret_def intro: same_evolves)

lemma evolving_if: "evolving isn m \<Longrightarrow> evolving isn n \<Longrightarrow> evolving isn (if b then m else n)"
  by simp

lemma sound_at:
  assumes "sound S"
  defines "k \<equiv> origin_of S"
  shows "i < next_conn S \<Longrightarrow> at_conn i k S"
    and "lookup_key key S = Some cid \<Longrightarrow> found cid k S \<and> snd k cid = key"
proof -
  show "at_conn i k S" if "i < next_conn S" for i using assms that by (simp add: inv_at_def k_def)
  show "found cid k S \<and> snd k cid = key" if "lookup_key key S = Some cid"
    using assms(1) that by (auto simp: found_def inv_at_def session_inv_def k_def)
qed

lemma at_sound: "at_conn i k S \<Longrightarrow> sound S"
  by (simp add: inv_at_def)

lemma found_evolving:
  assumes "\<And>k cid. snd k cid = key \<Longrightarrow> returns (found cid k) (m cid) (at_conn cid k)"
    and "evolving isn none"
  shows "evolving isn (reads (lookup_key key) (\<lambda>f. case f of None \<Rightarrow> none | Some cid \<Rightarrow> m cid))"
proof (rule evolvingI)
  fix S assume S: "sound S"
  show "\<exists>a S'. reads (lookup_key key) (\<lambda>f. case f of None \<Rightarrow> none | Some cid \<Rightarrow> m cid) S = (Inr a, S')
      \<and> evolves (\<lambda>_. []) isn S S'"
  proof (cases "lookup_key key S")
    case None
    then show ?thesis using assms(2) S by (auto simp: evolving_def reads_def)
  next
    case (Some cid)
    note f = sound_at(2) [OF S Some]
    obtain a S' where "m cid S = (Inr a, S')" "at_conn cid (origin_of S) S'"
      by (rule returnsE [OF assms(1) [OF conjunct2 [OF f]] conjunct1 [OF f]])
    then show ?thesis using Some at_evolves by (auto simp: reads_def)
  qed
qed

lemma sound_same: "sound S \<Longrightarrow> tables S' = tables S \<Longrightarrow> conns S' = conns S \<Longrightarrow> sound S'"
  by (rule inv_same)

lemma evolving_reverse_unknown:
  assumes "parseIPv4Packet raw = Some parsed" "parse_tcp (ip_packet parsed) = Some h"
  shows "evolving isn (reverse_unknown cfg parsed h)"
proof (rule evolvingI)
  fix S assume S: "sound S"
  obtain sb db where a: "ipv4Bytes (AddrString (ip_srcIP parsed)) = Inr sb" "ipv4Bytes (AddrString (ip_dstIP parsed)) = Inr db"
    using parsed_addresses [OF assms(1)] by blast
  obtain l' where l: "sendRSTForReverse cfg (th_dstPort h) (th_srcPort h) (AddrString (ip_dstIP parsed))
      (AddrString (ip_srcIP parsed)) (th_ack h) (s_link S) = (Inr (), l')"
    using send_rst_returns [OF _ _ a(2,1)] parse_tcp_ports [OF assms(2)] by blast
  have "evolves (\<lambda>_. []) isn S (S\<lparr>s_link := l'\<rparr>)" by (rule same_evolves [OF S]) (simp_all add: tables_def)
  then show "\<exists>x S'. reverse_unknown cfg parsed h S = (Inr x, S') \<and> evolves (\<lambda>_. []) isn S S'"
    using same_evolves [OF S refl refl] l by (auto simp: reverse_unknown_def reads_def whenever_def ret_def Let_def getReverseFlow_def
        on_session_link_def inside_def)
qed

lemma found_bump: "returns (found cid k) (modify (bumpReverseConnActivity p)) (found cid k)"
proof (rule returns_modify)
  fix S assume S: "found cid k S"
  obtain a S' where "modify (bumpReverseConnActivity p) S = (Inr a, S')" "at_conn cid k S'"
    by (rule returnsE [OF safe_bump found_at [OF S]])
  moreover have "usable (conns (bumpReverseConnActivity p S) cid)"
    using S by (auto simp: found_def bumpReverseConnActivity_def usable_def is_forward_def split: option.split)
  ultimately show "found cid k (bumpReverseConnActivity p S)" by (auto simp: found_def modify_def)
qed

lemma returns_conn_at: "(\<And>c. returns P (m c) Q) \<Longrightarrow> returns P (conn_at cid m) Q"
  by (simp add: returns_def conn_at_def reads_def)

lemma returns_if: "returns P m Q \<Longrightarrow> returns P n Q \<Longrightarrow> returns P (if b then m else n) Q"
  by simp

lemma evolving_handleReverseTCP:
  assumes "config_ok cfg" "parseIPv4Packet raw = Some parsed"
  shows "evolving isn (handleReverseTCP cfg parsed)"
proof (cases "parse_tcp (ip_packet parsed)")
  case None
  then show ?thesis by (simp add: handleReverseTCP_def evolving_ret)
next
  case (Some h)
  let ?p = "th_dstPort h"
  have e: "handleReverseTCP cfg parsed = reads (lookup_key (Reverse ?p)) (\<lambda>f. case f of
      None \<Rightarrow> reverse_unknown cfg parsed h
    | Some cid \<Rightarrow> seq_act (modify (bumpReverseConnActivity ?p)) (conn_at cid (\<lambda>conn.
        if RST h then abortReverseConnection cfg ?p cid (GenericError ''VM reset reverse TCP connection'') False
        else if conn_state conn = SYN_SENT \<and> SYN h \<and> ACK h then reverse_handshake cfg ?p cid h
        else if conn_state conn = SYN_SENT then ret ()
        else if SYN h \<and> ACK h then with_conn cid (sendTCPAck cfg)
        else if conn_state conn \<noteq> ESTABLISHED \<and> conn_state conn \<noteq> FIN_WAIT \<and> conn_state conn \<noteq> CLOSING then ret ()
        else reverse_data cfg ?p cid h)))"
    by (rule ext) (simp add: handleReverseTCP_def Some Let_def reads_def lookup_key_def)
  show ?thesis
    unfolding e
    by (intro found_evolving evolving_reverse_unknown [OF assms(2) Some] returns_seq [OF found_bump] returns_conn_at returns_if
        safe_reverse_handshake safe_reverse_data found_returns [OF safe_abort_key(1)] found_returns [OF safe_ret]
        found_returns [OF safe_with_quiet] quiet_intros assms(1))
qed

section \<open>Packets of forward connections\<close>

lemma safe_forward_ack:
  assumes "config_ok cfg"
  shows "returns (found cid k) (forward_ack cfg cid h) (at_conn cid k)"
  unfolding forward_ack_def
  by (rule returns_if, rule found_returns, rule safe_ret, rule returns_andthen [OF returns_acknowledge])
    (intro safe_intros safe_update_window safe_ack_advanced safe_count_duplicate assms)

lemma safe_forward_establish: "config_ok cfg \<Longrightarrow> safe (at_conn cid k) (forward_establish cfg cid h status)"
  unfolding forward_establish_def
  by (intro safe_intros safe_set_calm safe_with_quiet quiet_intros) (simp_all add: calm_def)

lemma safe_finish_forward:
  assumes "snd k cid = Forward t" "\<And>c. safe (at_conn cid k) (other c)"
  shows "safe (at_conn cid k) (conn_at cid (\<lambda>c. if closing_done c
    then andthen (modify (finishTCPConnection t cid)) (\<lambda>_. ret b) else other c))"
proof (rule safe_conn_state)
  fix S assume S: "at_conn cid k S"
  have "at_conn cid k (finishTCPConnection t cid S)" if "closing_done (conns S cid)"
    using inv_finish [OF S] that finish_key(2) [OF S assms(1)] by (simp add: closing_done_def)
  moreover obtain a S' where "other (conns S cid) S = (Inr a, S')" "at_conn cid k S'"
    by (rule returnsE [OF assms(2) S])
  ultimately show "\<exists>a S'. (if closing_done (conns S cid) then andthen (modify (finishTCPConnection t cid)) (\<lambda>_. ret b)
      else other (conns S cid)) S = (Inr a, S') \<and> at_conn cid k S'"
    by (auto simp: andthen_def modify_def ret_def)
qed

lemma safe_forward_progress:
  assumes "config_ok cfg" "snd k cid = Forward t"
  shows "safe (at_conn cid k) (forward_progress cfg t cid status w)"
proof -
  let ?m = "\<lambda>conn. if closing_done conn
        then andthen (modify (finishTCPConnection t cid)) (\<lambda>_. ret False)
        else andthen (whenever w (set_conn cid (\<lambda>c. c\<lparr>dupAckCount := 0\<rparr>))) (\<lambda>_.
             andthen (trySendToVM cfg t) (\<lambda>_. ret True))"
  have m: "safe (at_conn cid k) (conn_at cid ?m)"
    by (intro safe_finish_forward [OF assms(2)] safe_intros safe_set_calm safe_trySend [OF assms(1)])
      (simp add: calm_def)
  have e: "forward_progress cfg t cid status w = conn_at cid (\<lambda>conn.
      if conn_state conn \<noteq> ESTABLISHED \<and> conn_state conn \<noteq> FIN_WAIT \<and> conn_state conn \<noteq> CLOSING
      then ret False else if status = Some Advanced \<or> w then conn_at cid ?m else ret True)"
    by (rule ext) (simp add: forward_progress_def conn_at_def reads_def)
  show ?thesis unfolding e by (intro safe_conn_at safe_if safe_ret m)
qed

lemma safe_forward_fin:
  assumes "config_ok cfg" "snd k cid = Forward t"
  shows "safe (at_conn cid k) (forward_fin cfg t cid h)"
  unfolding forward_fin_def
  by (rule safe_conn_at, rule safe_if,
      intro safe_with_quiet quiet_intros assms,
      intro safe_block safe_list safe_set_calm safe_with_quiet quiet_intros assms calm_peer_fin safe_finish_whenever)
    (use assms(2) in simp)

lemma safe_forward_data:
  assumes "config_ok cfg" "snd k cid = Forward t"
  shows "returns (found cid k) (forward_data cfg t cid h) (at_conn cid k)"
  unfolding forward_data_def
  by (rule returns_andthen [OF safe_forward_ack [OF assms(1)]])
    (intro safe_intros safe_payload safe_forward_establish safe_forward_progress safe_forward_fin assms)

section \<open>Opening connections\<close>

text \<open>The settings beyond \<open>config_ok\<close> that opening a connection needs and nothing checks.\<close>

definition net_ok :: "config \<Rightarrow> bool" where
  "net_ok cfg \<longleftrightarrow> config_ok cfg \<and> 0 \<le> TCP_WINDOW_SIZE cfg \<and> TCP_WINDOW_SIZE cfg \<le> 0xffff
     \<and> 0 < TCP_RTO_INITIAL_MS cfg \<and> TCP_RTO_INITIAL_MS cfg \<le> TCP_RTO_MAX_MS cfg
     \<and> 1 \<le> TCP_RTO_MAX_RETRANSMISSIONS cfg"

definition fresh_rtq :: "config \<Rightarrow> u32 \<Rightarrow> rtq \<Rightarrow> bool" where
  "fresh_rtq cfg isn q \<longleftrightarrow> queue_ok q \<and> can_track q \<and> rtq_live q \<and> sndNxt q = isn \<and> sndUna q = isn
     \<and> unacked q = []"

lemma initialize_returns:
  assumes "net_ok cfg" "ipv4Bytes (AddrString (tx_srcIP (tx c))) = Inr sb" "ipv4Bytes (AddrString (tx_dstIP (tx c))) = Inr db"
    and "tx_srcPort (tx c) \<le> 0xffff" "tx_dstPort (tx c) \<le> 0xffff"
  shows "\<exists>c'. initializeRetransmission cfg isn c = Inr c' \<and> addressed c' \<and> fresh_rtq cfg isn (retransmission c')
    \<and> key_of c' = key_of c \<and> relaySeq c' = relaySeq c \<and> sendQueue c' = sendQueue c \<and> sendQueueBytes c' = 0
    \<and> pendingFin c' = pendingFin c \<and> finSent c' = finSent c \<and> conn_state c' = conn_state c"
proof -
  obtain p where p: "new_tcp_pacer cfg = Inr p" using config_pacer assms(1) by (auto simp: net_ok_def)
  obtain q where q: "new_rtq (uint isn) True True (TCP_RTO_INITIAL_MS cfg) (TCP_RTO_MAX_MS cfg)
      (TCP_RTO_MAX_RETRANSMISSIONS cfg) = Inr q"
    using assms(1) by (simp add: new_rtq_def net_ok_def)
  have "fresh_rtq cfg isn q"
    using new_rtq_wf [OF q] q
    by (auto simp: fresh_rtq_def queue_ok_def can_track_def new_rtq_def unacked_def split: if_splits)
  moreover have "length sb = 4" "length db = 4" using assms(2,3) ipv4Bytes_length by blast+
  ultimately show ?thesis
    using assms p q by (simp add: initializeRetransmission_def addressed_def)
qed

lemma sound_store:
  assumes "sound S" "lookup_key (key_of c) S = None"
    and "conn_ok c" "rtq_live (retransmission c)" "usable c"
  shows "sound (store_conn (next_conn S) c S)"
proof -
  let ?S = "store_conn (next_conn S) c S"
  have n: "next_conn ?S = next_conn S + 1" "conns ?S = (conns S)(next_conn S := c)"
    by (simp_all add: store_conn_def Let_def split: conn_key.split)
  have l: "lookup_key k ?S = (if k = key_of c then Some (next_conn S) else lookup_key k S)" for k
    by (auto simp: store_conn_def Let_def lookup_key_def split: conn_key.split)
  show ?thesis
    unfolding session_inv_def n l
    using assms unfolding session_inv_def
    by (auto simp: less_Suc_eq split: if_splits)
qed

text \<open>The final state of an opening, whose SYN is sent after the connection is in the table.\<close>

lemma put_stored:
  "key_of c' = key_of c \<Longrightarrow>
   put_endpoint (next_conn S) (c', l') (store_conn (next_conn S) c S) =
   (store_conn (next_conn S) c' S)\<lparr>s_link := l'\<rparr>"
  by (auto simp: store_conn_def put_endpoint_def Let_def split: conn_key.split)

lemma conn_ok_fresh:
  assumes "addressed c" "queue_ok q" "can_track q" "relaySeq c = sndNxt q" "sendQueue c = []" "sendQueueBytes c = 0"
    and "\<not> finSent c" "conn_state c \<noteq> CLOSED"
  shows "conn_ok (c\<lparr>retransmission := q\<rparr>)"
  using assms by (simp add: conn_ok_def addressed_def)

lemma open_sound:
  assumes "config_ok cfg" "sound S" "lookup_key (key_of c) S = None" "addressed c"
    and q: "fresh_rtq cfg isn (retransmission c)" and seq: "(case sequence of Some s \<Rightarrow> s | None \<Rightarrow> relaySeq c) = isn"
    and rel: "relaySeq c = (if advance then isn else isn + 1)"
    and c: "sendQueue c = []" "sendQueueBytes c = 0" "\<not> finSent c" "conn_state c \<noteq> CLOSED"
    and f: "sendable [] flags" "\<not> rst flags" "sequence_length [] flags = 1" "seq_items [] flags = [SYN_item]"
  shows "\<exists>S'. with_conn (next_conn S) (sendTrackedTCP cfg [] flags sequence advance) (store_conn (next_conn S) c S)
      = (Inr (), S') \<and> evolves (\<lambda>_. []) isn S S' \<and> next_conn S' = next_conn S + 1
      \<and> lookup_key (key_of c) S' = Some (next_conn S) \<and> conn_state (conns S' (next_conn S)) = conn_state c"
proof -
  have r: "queue_ok (retransmission c)" "can_track (retransmission c)" "rtq_live (retransmission c)"
    "sndNxt (retransmission c) = isn" "unacked (retransmission c) = []" "sndUna (retransmission c) = isn"
    using q by (simp_all add: fresh_rtq_def)
  obtain q' l' where s: "sendTrackedTCP cfg [] flags sequence advance (c, s_link S) =
      (Inr (), (moved advance (sndNxt q') (c\<lparr>retransmission := q'\<rparr>), l'))"
    and q': "queue_ok q'" "can_track q'" "rtq_live q'" "sndNxt q' = isn + 1" "unacked q' = [SYN_item]" "sndUna q' = isn"
    using sendTrackedTCP_runs [OF assms(1,4) r(1,2) f(1,2), of sequence advance "s_link S"] seq r(3-6) f(3,4) by auto
  let ?c = "moved advance (sndNxt q') (c\<lparr>retransmission := q'\<rparr>)"
  have "?c = (if advance then c\<lparr>relaySeq := isn + 1\<rparr> else c)\<lparr>retransmission := q'\<rparr>"
    using q'(4) by (auto simp: moved_def)
  moreover have "conn_ok ((if advance then c\<lparr>relaySeq := isn + 1\<rparr> else c)\<lparr>retransmission := q'\<rparr>)"
    using assms(4) rel c q' by (intro conn_ok_fresh) (simp_all add: addressed_def)
  ultimately have ok: "conn_ok ?c" by simp
  have k: "key_of ?c = key_of c" "retransmission ?c = q'" by (simp_all add: moved_def)
  have "sound (store_conn (next_conn S) ?c S)"
    using assms(2,3) ok q' k by (intro sound_store) (simp_all add: usable_def)
  then have "sound ((store_conn (next_conn S) ?c S)\<lparr>s_link := l'\<rparr>)"
    by (rule sound_same) (simp_all add: tables_def)
  moreover have "newborn isn ?c" using q'(5,6) c by (simp add: newborn_def stream_items_def k(2) moved_def)
  then have "newborn isn (conns (store_conn (next_conn S) ?c S) (next_conn S))"
    "next_conn (store_conn (next_conn S) ?c S) = Suc (next_conn S)"
    "\<forall>i < next_conn S. conns (store_conn (next_conn S) ?c S) i = conns S i"
    by (simp_all add: store_conn_def Let_def split: conn_key.split)
  ultimately have "evolves (\<lambda>_. []) isn S ((store_conn (next_conn S) ?c S)\<lparr>s_link := l'\<rparr>)"
    by (simp add: evolves_def)
  moreover have "conn_state (conns ((store_conn (next_conn S) ?c S)\<lparr>s_link := l'\<rparr>) (next_conn S)) = conn_state c"
    by (simp add: store_conn_def Let_def moved_def split: conn_key.split)
  moreover have "next_conn (store_conn (next_conn S) ?c S) = next_conn S + 1"
    "lookup_key (key_of c) ((store_conn (next_conn S) ?c S)\<lparr>s_link := l'\<rparr>) = Some (next_conn S)"
    using k(1) by (simp_all add: store_conn_def Let_def lookup_key_def split: conn_key.split)
  moreover have "conns (store_conn (next_conn S) c S) (next_conn S) = c" "s_link (store_conn (next_conn S) c S) = s_link S"
    by (simp_all add: store_conn_def Let_def split: conn_key.split)
  ultimately show ?thesis
    using s k(1) by (simp add: with_conn_def inside_run put_stored)
qed

lemma evolving_forward_open:
  assumes "net_ok cfg" "parseIPv4Packet raw = Some parsed" "parse_tcp (ip_packet parsed) = Some h"
  shows "evolving isn (forward_open cfg parsed h isn)"
proof -
  have ok: "config_ok cfg" using assms(1) by (simp add: net_ok_def)
  let ?key = "conn_key_text (th_srcPort h) (ip_dstIP parsed) (th_dstPort h)"
  let ?f = "no_flags\<lparr>syn := True, ack := True, windowSize := Some (TCP_WINDOW_SIZE cfg)\<rparr>"
  let ?new = "reads id (\<lambda>S. andthen (lift_result (initializeRetransmission cfg isn
       (forward_conn cfg (next_conn S) parsed h isn)))
     (\<lambda>conn. seq_act (modify (store_conn (next_conn S) conn))
       (with_conn (next_conn S) (sendTrackedTCP cfg [] ?f (Some isn) False))))"
  have e: "forward_open cfg parsed h isn S = (case lookup_key (Forward ?key) S of
      None \<Rightarrow> ?new S
    | Some cid \<Rightarrow> conn_at cid (\<lambda>c. whenever (conn_state c = SYN_SENT) (fast_retransmit_conn cfg cid)) S)" for S
    by (simp add: forward_open_def Let_def reads_def conn_at_def split: option.split)
  have new: "\<exists>a S'. ?new S = (Inr a, S') \<and> evolves (\<lambda>_. []) isn S S'"
    if S: "sound S" and n: "lookup_key (Forward ?key) S = None" for S
  proof -
    let ?c = "forward_conn cfg (next_conn S) parsed h isn"
    obtain sb db where a: "ipv4Bytes (AddrString (ip_srcIP parsed)) = Inr sb" "ipv4Bytes (AddrString (ip_dstIP parsed)) = Inr db"
      using parsed_addresses [OF assms(2)] by blast
    have ad: "ipv4Bytes (AddrString (tx_srcIP (tx ?c))) = Inr db" "ipv4Bytes (AddrString (tx_dstIP (tx ?c))) = Inr sb"
      "tx_srcPort (tx ?c) \<le> 0xffff" "tx_dstPort (tx ?c) \<le> 0xffff"
      using a parse_tcp_ports [OF assms(3)] by (simp_all add: forward_conn_def new_conn_def)
    obtain c where i: "initializeRetransmission cfg isn ?c = Inr c"
      and c: "addressed c" "fresh_rtq cfg isn (retransmission c)" "key_of c = key_of ?c" "relaySeq c = relaySeq ?c"
        "sendQueue c = sendQueue ?c" "sendQueueBytes c = 0" "pendingFin c = pendingFin ?c" "finSent c = finSent ?c"
        "conn_state c = conn_state ?c"
      using initialize_returns [OF assms(1) ad, of isn] by blast
    have f: "sendable [] ?f" "\<not> rst ?f" "sequence_length [] ?f = 1" "seq_items [] ?f = [SYN_item]"
      using assms(1) by (auto simp: sendable_def writable_window_def no_flags_def net_ok_def sequence_length_def
          seq_items_def)
    have "\<exists>S'. with_conn (next_conn S) (sendTrackedTCP cfg [] ?f (Some isn) False) (store_conn (next_conn S) c S)
        = (Inr (), S') \<and> evolves (\<lambda>_. []) isn S S' \<and> next_conn S' = next_conn S + 1 \<and> lookup_key (key_of c) S' = Some (next_conn S)
        \<and> conn_state (conns S' (next_conn S)) = conn_state c"
      using c n by (intro open_sound [OF ok S _ c(1,2) _ _ _ _ _ _ f]) (simp_all add: forward_conn_def new_conn_def)
    then show ?thesis
      using i by (auto simp: reads_def andthen_def lift_result_def seq_act_def modify_def)
  qed
  have again: "\<exists>a S'. conn_at cid (\<lambda>c. whenever (conn_state c = SYN_SENT) (fast_retransmit_conn cfg cid)) S = (Inr a, S')
      \<and> evolves (\<lambda>_. []) isn S S'" if S: "sound S" and l: "lookup_key (Forward ?key) S = Some cid" for S cid
  proof -
    let ?k = "origin_of S"
    have "safe (at_conn cid ?k) (conn_at cid (\<lambda>c. whenever (conn_state c = SYN_SENT) (fast_retransmit_conn cfg cid)))"
      by (intro safe_intros safe_fast_retransmit ok)
    moreover have "at_conn cid ?k S" using sound_at(2) [OF S l] by (simp add: found_def)
    ultimately show ?thesis using at_evolves unfolding returns_def by blast
  qed
  show ?thesis
  proof (rule evolvingI)
    fix S assume S: "sound S"
    show "\<exists>a S'. forward_open cfg parsed h isn S = (Inr a, S') \<and> evolves (\<lambda>_. []) isn S S'"
    proof (cases "lookup_key (Forward ?key) S")
      case None
      then show ?thesis using new [OF S None] unfolding e by simp
    next
      case (Some cid)
      then show ?thesis using again [OF S Some] unfolding e by simp
    qed
  qed
qed

lemma evolving_handleTCP:
  assumes "net_ok cfg" "parseIPv4Packet raw = Some parsed"
  shows "evolving isn (handleTCP cfg parsed isn)"
proof (cases "parse_tcp (ip_packet parsed)")
  case None
  then show ?thesis by (simp add: handleTCP_def evolving_ret)
next
  case (Some h)
  have ok: "config_ok cfg" using assms(1) by (simp add: net_ok_def)
  let ?t = "conn_key_text (th_srcPort h) (ip_dstIP parsed) (th_dstPort h)"
  have e: "handleTCP cfg parsed isn = (if SYN h \<and> \<not> ACK h then forward_open cfg parsed h isn
      else reads (lookup_key (Forward ?t)) (\<lambda>f. case f of None \<Rightarrow> ret ()
        | Some cid \<Rightarrow> if RST h
            then abortTCPConnection cfg ?t cid (GenericError ''VM reset TCP connection'') False
            else forward_data cfg ?t cid h))"
    by (rule ext) (simp add: handleTCP_def Some Let_def reads_def lookup_key_def)
  show ?thesis
    unfolding e
    by (intro evolving_if evolving_forward_open [OF assms Some] found_evolving evolving_ret returns_if
        found_returns [OF safe_abort_key(2)] safe_forward_data ok)
qed

text \<open>
  A reverse connection opens when the gateway's address is one and the rule's port fits; the
  session stays sound whether or not it opens.
\<close>

lemma pick_port_free:
  "pick_port n taken next = (Some p, next') \<Longrightarrow> next \<le> 65535 \<Longrightarrow> \<not> taken p \<and> p \<le> 65535"
proof (induction n arbitrary: "next")
  case (Suc n)
  then show ?case by (auto simp: Let_def split: if_splits)
qed simp

lemma bump_stored:
  assumes "key_of c = Reverse p"
  shows "bumpReverseConnActivity p (store_conn (next_conn S) c S) = store_conn (next_conn S) (c\<lparr>idleTimer := True\<rparr>) S"
  using assms by (simp add: bumpReverseConnActivity_def store_conn_def Let_def upd_conn_def)

text \<open>With a free port and an address of the VM the connection opens under that port.\<close>

lemma opened:
  assumes "net_ok cfg" "ipv4Bytes (AddrString (GATEWAY_IP cfg)) = Inr gb" "port \<le> 0xffff" "nxt \<le> 65535" "sound S"
    and pp: "pick_port 1000 (port_taken S) nxt = (Some sp, nxt')"
    and db: "ipv4Bytes (AddrString (case vmIP S of Some ip \<Rightarrow> ip | None \<Rightarrow> ''null'')) = Inr db"
  shows "\<exists>S'. createTCPConnection cfg port isn nxt S = (nxt', Inr (next_conn S), S') \<and> evolves (\<lambda>_. []) isn S S'
    \<and> next_conn S' = next_conn S + 1 \<and> lookup_key (Reverse sp) S' = Some (next_conn S)
    \<and> conn_state (conns S' (next_conn S)) = SYN_SENT"
proof -
  have ok: "config_ok cfg" using assms(1) by (simp add: net_ok_def)
  have sp: "\<not> port_taken S sp" "sp \<le> 0xffff" using pick_port_free [OF pp] assms(4) by simp_all
  let ?c = "reverse_conn cfg (next_conn S) sp port (case vmIP S of Some ip \<Rightarrow> ip | None \<Rightarrow> ''null'') isn"
  have ad: "ipv4Bytes (AddrString (tx_srcIP (tx ?c))) = Inr gb" "ipv4Bytes (AddrString (tx_dstIP (tx ?c))) = Inr db"
    "tx_srcPort (tx ?c) \<le> 0xffff" "tx_dstPort (tx ?c) \<le> 0xffff"
    using assms(2,3) db sp(2) by (simp_all add: reverse_conn_def new_conn_def)
  obtain c0 where init: "initializeRetransmission cfg isn ?c = Inr c0"
    and c: "addressed c0" "fresh_rtq cfg isn (retransmission c0)" "key_of c0 = Reverse sp" "relaySeq c0 = isn"
      "sendQueue c0 = []" "sendQueueBytes c0 = 0" "\<not> finSent c0" "conn_state c0 = SYN_SENT"
  proof -
    obtain c0 where i: "initializeRetransmission cfg isn ?c = Inr c0"
      and c: "addressed c0" "fresh_rtq cfg isn (retransmission c0)" "key_of c0 = key_of ?c" "relaySeq c0 = relaySeq ?c"
        "sendQueue c0 = sendQueue ?c" "sendQueueBytes c0 = 0" "pendingFin c0 = pendingFin ?c" "finSent c0 = finSent ?c"
        "conn_state c0 = conn_state ?c"
      using initialize_returns [OF assms(1) ad, of isn] by blast
    show thesis by (rule that [OF i c(1,2)]) (use c(3-) in \<open>simp_all add: reverse_conn_def new_conn_def\<close>)
  qed
  let ?c1 = "c0\<lparr>idleTimer := True\<rparr>"
  have f: "sendable [] (no_flags\<lparr>syn := True\<rparr>)" "\<not> rst (no_flags\<lparr>syn := True\<rparr>)"
    "sequence_length [] (no_flags\<lparr>syn := True\<rparr>) = 1" "seq_items [] (no_flags\<lparr>syn := True\<rparr>) = [SYN_item]"
    by (simp_all add: sendable_def writable_window_def no_flags_def sequence_length_def seq_items_def)
  have free: "lookup_key (Reverse sp) S = None" using sp(1) by (simp add: port_taken_def map_has_def)
  obtain S' where "with_conn (next_conn S) (sendTrackedTCP cfg [] (no_flags\<lparr>syn := True\<rparr>) None True)
      (store_conn (next_conn S) ?c1 S) = (Inr (), S')"
    "evolves (\<lambda>_. []) isn S S'" "next_conn S' = next_conn S + 1" "lookup_key (Reverse sp) S' = Some (next_conn S)"
    "conn_state (conns S' (next_conn S)) = SYN_SENT"
    using open_sound [OF ok assms(5), of ?c1 isn None True "no_flags\<lparr>syn := True\<rparr>"] c f free
    by (auto simp: addressed_def)
  then show ?thesis
    using pp init c(3) by (simp add: createTCPConnection_def Let_def bump_stored)
qed

lemma evolves_createTCPConnection:
  assumes "net_ok cfg" "ipv4Bytes (AddrString (GATEWAY_IP cfg)) = Inr gb" "port \<le> 0xffff" "nxt \<le> 65535" "sound S"
  shows "evolves (\<lambda>_. []) isn S (snd (snd (createTCPConnection cfg port isn nxt S)))"
proof -
  obtain r nxt' where pp: "pick_port 1000 (port_taken S) nxt = (r, nxt')" by fastforce
  have same: "evolves (\<lambda>_. []) isn S S" by (rule same_evolves [OF assms(5)]) simp_all
  let ?dst = "case vmIP S of Some ip \<Rightarrow> ip | None \<Rightarrow> ''null''"
  show ?thesis
  proof (cases r)
    case None
    then show ?thesis using pp same by (simp add: createTCPConnection_def)
  next
    case (Some sp)
    show ?thesis
    proof (cases "ipv4Bytes (AddrString ?dst)")
      case (Inl e)
      have "initializeRetransmission cfg isn (reverse_conn cfg (next_conn S) sp port ?dst isn) = Inl e"
        using assms(2) Inl by (simp add: initializeRetransmission_def bind_result_def reverse_conn_def new_conn_def)
      then show ?thesis using pp Some same by (simp add: createTCPConnection_def Let_def)
    next
      case (Inr db)
      have "pick_port 1000 (port_taken S) nxt = (Some sp, nxt')" using pp Some by simp
      from opened [OF assms this Inr, of isn] show ?thesis by auto
    qed
  qed
qed

end
