(* ===== verification/Session_Run.thy ===== *)
theory Session_Run
  imports Session_Steps
begin

text \<open>
  Everything that can happen to the TCP connections of a session, as a datatype of events with the
  handler that each one runs, and the machine that processes a list of them. No handler of any
  admissible run throws, and every state of a run keeps the accounts of its connections.
\<close>

section \<open>Events\<close>

datatype session_event =
    From_VM bytes u32
  | Socket_Data string bytes
  | Socket_End string
  | Socket_Failed string js_error
  | Upstream_Data nat nat bytes
  | Upstream_Close nat nat
  | Local_Closed nat
  | Local_Failed nat js_error
  | Sink_Drained nat
  | Ack_Timer nat
  | Pacer_Timer nat
  | Rtq_Timer nat nat
  | Idle_Timeout nat
  | Task session_task rat
  | Resume conn_key
  | Open_Reverse nat u32 nat
  | Transport nat bool rat
  | Adopt_IP string
  | Learn_MAC bytes
  | Close_Session

text \<open>
  A TCP packet of the VM goes to the handler handleIPv4 chooses. \<open>Transport\<close> is the world moving
  on: the bytes buffered in the WebSocket, whether it is open, and the clock.
\<close>

definition tcp_from_vm :: "config \<Rightarrow> bytes \<Rightarrow> u32 \<Rightarrow> (session, unit) act" where
  "tcp_from_vm cfg raw isn =
     (case parseIPv4Packet raw of
        None \<Rightarrow> ret ()
      | Some parsed \<Rightarrow>
          if ip_dstIP parsed = GATEWAY_IP cfg then handleReverseTCP cfg parsed
          else handleTCP cfg parsed isn)"

fun session_step :: "config \<Rightarrow> session_event \<Rightarrow> (session, unit) act" where
  "session_step cfg (From_VM raw isn) = tcp_from_vm cfg raw isn"
| "session_step cfg (Socket_Data key data) = socket_data cfg key data"
| "session_step cfg (Socket_End key) = socket_end cfg key"
| "session_step cfg (Socket_Failed key err) = socket_failed cfg key err"
| "session_step cfg (Upstream_Data p cid data) = upstream_data cfg p cid data"
| "session_step cfg (Upstream_Close p cid) = upstream_close cfg p cid"
| "session_step cfg (Local_Closed p) = local_closed cfg p"
| "session_step cfg (Local_Failed p err) = local_failed cfg p err"
| "session_step cfg (Sink_Drained cid) = sink_drained cfg cid"
| "session_step cfg (Ack_Timer cid) = with_conn cid (ack_timer_fired cfg)"
| "session_step cfg (Pacer_Timer cid) = pacer_timer_fired cfg cid"
| "session_step cfg (Rtq_Timer cid g) = modify (rtq_timer_fired cfg cid g)"
| "session_step cfg (Idle_Timeout p) = idle_timeout cfg p"
| "session_step cfg (Task t now) = modify (run_task t now)"
| "session_step cfg (Resume key) = try_send cfg key"
| "session_step cfg (Open_Reverse port isn nextPort) =
     modify (\<lambda>S. snd (snd (createTCPConnection cfg port isn nextPort S)))"
| "session_step cfg (Transport n is_open now) =
     modify (set_link (\<lambda>l. l\<lparr>bufferedAmount := n, ws_open := is_open, now_ms := now\<rparr>))"
| "session_step cfg (Adopt_IP ip) = modify (\<lambda>S. S\<lparr>vmIP := Some ip\<rparr>)"
| "session_step cfg (Learn_MAC mac) = modify (learn_mac mac)"
| "session_step cfg Close_Session = modify close_session"

text \<open>
  What the runtime guarantees of its events. A timer or stream event belongs to a connection that
  was made, whose key the closure captured; a socket emits no \<open>data\<close> and no second \<open>end\<close> after its
  \<open>end\<close>; and the ports of a forward are the ones a TCP header can hold.
\<close>

definition still_reading :: "string \<Rightarrow> session \<Rightarrow> bool" where
  "still_reading key S =
     (case map_get (tcpConnections S) key of
        None \<Rightarrow> True | Some cid \<Rightarrow> \<not> pendingFin (conns S cid) \<and> \<not> finSent (conns S cid))"

fun event_ok :: "session \<Rightarrow> session_event \<Rightarrow> bool" where
  "event_ok S (Socket_Data key data) = still_reading key S"
| "event_ok S (Socket_End key) = still_reading key S"
| "event_ok S (Upstream_Data p cid data) = (cid < next_conn S \<and> key_of (conns S cid) = Reverse p)"
| "event_ok S (Sink_Drained cid) = (cid < next_conn S)"
| "event_ok S (Ack_Timer cid) = (cid < next_conn S)"
| "event_ok S (Pacer_Timer cid) = (cid < next_conn S)"
| "event_ok S (Rtq_Timer cid g) = (cid < next_conn S)"
| "event_ok S (Open_Reverse port isn nextPort) = (port \<le> 65535 \<and> nextPort \<le> 65535)"
| "event_ok S _ = True"

definition after_event :: "config \<Rightarrow> session \<Rightarrow> session_event \<Rightarrow> session" where
  "after_event cfg S e = exec (session_step cfg e) S"

abbreviation session_run :: "config \<Rightarrow> session \<Rightarrow> session_event list \<Rightarrow> session" where
  "session_run cfg \<equiv> run (after_event cfg)"

abbreviation session_may :: "config \<Rightarrow> session \<Rightarrow> session_event list \<Rightarrow> bool" where
  "session_may cfg \<equiv> admissible event_ok (after_event cfg)"

section \<open>Stream events\<close>

lemma conn_ok_enqueue:
  assumes "conn_ok c" "is_forward c \<Longrightarrow> \<not> finSent c"
  shows "conn_ok (enqueueTCPData cfg data c)"
  using assms by (auto simp: enqueueTCPData_def Let_def conn_ok_def addressed_def is_forward_def)

lemma conn_ok_pending_fin:
  assumes "conn_ok c" "is_forward c \<Longrightarrow> \<not> finSent c"
  shows "conn_ok (c\<lparr>pendingFin := True\<rparr>)"
  using assms by (auto simp: conn_ok_def addressed_def is_forward_def)

lemma enqueue_fields:
  "retransmission (enqueueTCPData cfg data c) = retransmission c" "key_of (enqueueTCPData cfg data c) = key_of c"
  "finSent (enqueueTCPData cfg data c) = finSent c" "sendQueue (enqueueTCPData cfg data c) = sendQueue c @ [data]"
  by (simp_all add: enqueueTCPData_def Let_def)

lemma enqueue_advances: "advances data c (enqueueTCPData cfg data c)"
  by (rule advancesI [where n = 0 and m = 0]) (simp_all add: enqueue_fields stream_items_def)

text \<open>The bytes an event hands to connection \<open>i\<close>, and the sequence number it may open one with.\<close>

fun given :: "session \<Rightarrow> session_event \<Rightarrow> nat \<Rightarrow> bytes" where
  "given S (Socket_Data key data) = (\<lambda>i. if map_get (tcpConnections S) key = Some i then data else [])"
| "given S (Upstream_Data p cid data) = (\<lambda>i. if i = cid then data else [])"
| "given S _ = (\<lambda>_. [])"

fun event_isn :: "session_event \<Rightarrow> u32" where
  "event_isn (From_VM raw isn) = isn"
| "event_isn (Open_Reverse port isn nextPort) = isn"
| "event_isn _ = 0"

text \<open>How a handler that is safe at some connection is a step of the session.\<close>

definition fine :: "(nat \<Rightarrow> bytes) \<Rightarrow> u32 \<Rightarrow> (session, unit) act \<Rightarrow> session \<Rightarrow> bool" where
  "fine new isn m S \<longleftrightarrow> (\<exists>S'. m S = (Inr (), S') \<and> evolves new isn S S')"

abbreviation nothing :: "nat \<Rightarrow> bytes" where
  "nothing \<equiv> \<lambda>_. []"

lemma fine_at:
  assumes "at_conn i (origin_of S) S" "safe (at_conn i (origin_of S)) m"
  shows "fine nothing isn m S"
proof -
  obtain a S' where "m S = (Inr a, S')" "at_conn i (origin_of S) S'" by (rule returnsE [OF assms(2,1)])
  then show ?thesis using at_evolves by (auto simp: fine_def)
qed

lemma fine_evolving: "sound S \<Longrightarrow> evolving isn m \<Longrightarrow> fine nothing isn m S"
  by (auto simp: fine_def evolving_def)

lemma fine_modify: "evolves new isn S (f S) \<Longrightarrow> fine new isn (modify f) S"
  by (simp add: fine_def modify_def)

lemma fine_same: "sound S \<Longrightarrow> tables (f S) = tables S \<Longrightarrow> conns (f S) = conns S \<Longrightarrow> fine nothing isn (modify f) S"
  by (intro fine_modify same_evolves)

lemma fine_nothing: "sound S \<Longrightarrow> m S = (Inr (), S) \<Longrightarrow> fine nothing isn m S"
  by (simp add: fine_def same_evolves)

lemma evolves_then:
  assumes "evolves new isn S S1" "next_conn S1 = next_conn S" "evolves nothing isn S1 S2"
  shows "evolves new isn S S2"
proof -
  have "advances (new i) (conns S i) (conns S2 i)" if "i < next_conn S" for i
    using assms that unfolding evolves_def by (auto intro: advances_trans [of "new i" _ "conns S1 i"])
  then show ?thesis using assms(2,3) by (simp add: evolves_def)
qed

text \<open>An update that keeps the accounts and touches neither the queue nor the key.\<close>

lemma next_upd [simp]: "next_conn (upd_conn cid f S) = next_conn S"
  by (simp add: upd_conn_def)

lemma evolves_update:
  assumes "sound S" "cid < next_conn S" "conn_ok (f (conns S cid))"
    and "retransmission (f (conns S cid)) = retransmission (conns S cid)" "key_of (f (conns S cid)) = key_of (conns S cid)"
    and "finSent (f (conns S cid)) = finSent (conns S cid)"
    and "advances (new cid) (conns S cid) (f (conns S cid))" "\<And>i. i \<noteq> cid \<Longrightarrow> new i = []"
  shows "evolves new isn S (upd_conn cid f S)"
proof -
  let ?S = "upd_conn cid f S"
  have l: "lookup_key k ?S = lookup_key k S" for k by (rule tables_lookup) simp
  have u: "usable (f (conns S cid)) = usable (conns S cid)"
    using assms(4-6) by (simp add: usable_def is_forward_def)
  have "sound ?S"
    using assms(1,3-5) u unfolding session_inv_def next_upd l by auto
  then show ?thesis using assms(7,8) by (simp add: evolves_def)
qed

lemma fine_update:
  assumes "evolves new isn S (upd_conn cid f S)" "evolving isn m"
  shows "fine new isn (seq_act (set_conn cid f) m) S"
proof -
  have "sound (upd_conn cid f S)" using assms(1) by (simp add: evolves_def)
  then obtain S2 where "m (upd_conn cid f S) = (Inr (), S2)" "evolves nothing isn (upd_conn cid f S) S2"
    using assms(2) by (auto simp: evolving_def)
  then show ?thesis
    using evolves_then [OF assms(1) next_upd] by (auto simp: fine_def set_conn_def seq_act_modify)
qed

text \<open>With no connection at all there is nothing to look up.\<close>

lemma no_entries: "sound S \<Longrightarrow> next_conn S = 0 \<Longrightarrow> lookup_key k S = None"
  unfolding session_inv_def by (cases "lookup_key k S") auto

lemma evolving_try_send:
  assumes "config_ok cfg"
  shows "evolving isn (try_send cfg key)"
proof (rule evolvingI)
  fix S assume S: "sound S"
  have "fine nothing isn (try_send cfg key) S"
  proof (cases "next_conn S = 0")
    case True
    then have "lookup_key key S = None" by (rule no_entries [OF S])
    then show ?thesis
      by (intro fine_nothing S)
        (cases key; simp add: try_send_def trySendToVM_def trySendReverseToVM_def reads_def ret_def)
  next
    case False
    then show ?thesis by (intro fine_at [OF sound_at(1) [OF S]] safe_try_send assms) simp
  qed
  then show "\<exists>a S'. try_send cfg key S = (Inr a, S') \<and> evolves nothing isn S S'" by (auto simp: fine_def)
qed

lemmas evolving_trySend = evolving_try_send [where key = "Forward k" for k, unfolded try_send_def conn_key.case]
  evolving_try_send [where key = "Reverse k" for k, unfolded try_send_def conn_key.case]

lemma fine_enqueue:
  assumes "sound S" "cid < next_conn S" "is_forward (conns S cid) \<Longrightarrow> \<not> finSent (conns S cid)" "evolving isn m"
    and "new = (\<lambda>i. if i = cid then data else [])"
  shows "fine new isn (seq_act (set_conn cid (enqueueTCPData cfg data)) m) S"
proof -
  have ok: "conn_ok (conns S cid)" using assms(1,2) by (simp add: session_inv_def)
  have "evolves new isn S (upd_conn cid (enqueueTCPData cfg data) S)"
    by (rule evolves_update [where f = "enqueueTCPData cfg data", OF assms(1,2) conn_ok_enqueue [OF ok assms(3)]];
        simp add: enqueue_fields enqueue_advances assms(5))
  then show ?thesis by (rule fine_update [OF _ assms(4)])
qed

lemma fine_socket_data:
  assumes "config_ok cfg" "sound S" "still_reading key S"
  shows "fine (given S (Socket_Data key data)) isn (socket_data cfg key data) S"
proof (cases "map_get (tcpConnections S) key")
  case None
  then have "given S (Socket_Data key data) = nothing" by (simp add: fun_eq_iff)
  then show ?thesis using None assms(2) by (simp add: fine_nothing socket_data_def reads_def ret_def)
next
  case (Some cid)
  then have S: "at_conn cid (origin_of S) S" "cid < next_conn S" and f: "\<not> finSent (conns S cid)"
    using sound_at(2) [OF assms(2), of "Forward key" cid] assms(3)
    by (simp_all add: found_def still_reading_def inv_at_def)
  have "fine (given S (Socket_Data key data)) isn
      (seq_act (set_conn cid (enqueueTCPData cfg data)) (trySendToVM cfg key)) S"
    using Some f by (intro fine_enqueue assms(2) S(2) evolving_trySend assms(1)) (auto simp: fun_eq_iff)
  then show ?thesis using Some by (simp add: fine_def socket_data_def reads_def)
qed

text \<open>Asking for the FIN; a reverse connection may be asked again and again.\<close>

lemma fine_pending_fin:
  assumes "sound S" "cid < next_conn S" "is_forward (conns S cid) \<Longrightarrow> \<not> finSent (conns S cid)" "evolving isn m"
  shows "fine nothing isn (seq_act (set_conn cid (\<lambda>c. c\<lparr>pendingFin := True\<rparr>)) m) S"
proof -
  have ok: "conn_ok (conns S cid)" using assms(1,2) by (simp add: session_inv_def)
  have adv: "advances [] c (c\<lparr>pendingFin := True\<rparr>)" for c by (rule advances_same) simp_all
  have "evolves nothing isn S (upd_conn cid (\<lambda>c. c\<lparr>pendingFin := True\<rparr>) S)"
    by (rule evolves_update [where f = "\<lambda>c. c\<lparr>pendingFin := True\<rparr>", OF assms(1,2) conn_ok_pending_fin [OF ok assms(3)]]; simp add: adv)
  then show ?thesis by (rule fine_update [OF _ assms(4)])
qed

lemma fine_socket_end:
  assumes "config_ok cfg" "sound S" "still_reading key S"
  shows "fine nothing isn (socket_end cfg key) S"
proof (cases "map_get (tcpConnections S) key")
  case None
  then show ?thesis using assms(2) by (simp add: fine_nothing socket_end_def reads_def ret_def)
next
  case (Some cid)
  then have "cid < next_conn S" "\<not> finSent (conns S cid)"
    using sound_at(2) [OF assms(2), of "Forward key" cid] assms(3)
    by (simp_all add: found_def still_reading_def inv_at_def)
  then have "fine nothing isn (seq_act (set_conn cid (\<lambda>c. c\<lparr>pendingFin := True\<rparr>)) (trySendToVM cfg key)) S"
    by (intro fine_pending_fin assms(2) evolving_trySend assms(1)) simp_all
  then show ?thesis
    using Some fine_nothing [OF assms(2)]
    by (auto simp: fine_def socket_end_def reads_def conn_at_def whenever_def ret_def)
qed

text \<open>The idle timer of a reverse connection is restarted first.\<close>

lemma bump_facts:
  assumes "sound S" "cid < next_conn S"
  shows "evolves nothing isn S (bumpReverseConnActivity p S)"
    and "next_conn (bumpReverseConnActivity p S) = next_conn S"
    and "key_of (conns (bumpReverseConnActivity p S) i) = key_of (conns S i)"
proof -
  have b: "at_conn cid (origin_of S) (bumpReverseConnActivity p S)"
    using safe_bump [of "{}" "{}" cid "origin_of S" p] sound_at(1) [OF assms] by (simp add: returns_def modify_def)
  then show "evolves nothing isn S (bumpReverseConnActivity p S)" by (rule at_evolves)
  show "next_conn (bumpReverseConnActivity p S) = next_conn S"
    "key_of (conns (bumpReverseConnActivity p S) i) = key_of (conns S i)"
    using b by (simp_all add: inv_at_def)
qed

lemma fine_after_bump:
  assumes "sound S" "cid < next_conn S" "fine nothing isn (seq_act m n) (bumpReverseConnActivity p S)"
  shows "fine nothing isn (block [modify (bumpReverseConnActivity p), m, n]) S"
proof -
  obtain S' where "seq_act m n (bumpReverseConnActivity p S) = (Inr (), S')"
    "evolves nothing isn (bumpReverseConnActivity p S) S'"
    using assms(3) by (auto simp: fine_def)
  then have "evolves nothing isn S S'" "block [modify (bumpReverseConnActivity p), m, n] S = (Inr (), S')"
    using evolves_then [OF bump_facts(1,2) [OF assms(1,2)]]
    by (auto simp: seq_act_def andthen_def modify_def ret_def split: prod.splits sum.splits)
  then show ?thesis by (simp add: fine_def)
qed

lemma fine_reverse_fin:
  assumes "config_ok cfg" "sound S" "cid < next_conn S" "key_of (conns S cid) = Reverse p"
  shows "fine nothing isn (seq_act (set_conn cid (\<lambda>c. c\<lparr>pendingFin := True\<rparr>)) (trySendReverseToVM cfg p)) S"
  using assms by (intro fine_pending_fin evolving_trySend) (simp_all add: is_forward_def)

lemma fine_upstream_data:
  assumes "config_ok cfg" "sound S" "cid < next_conn S" "key_of (conns S cid) = Reverse p"
  shows "fine (given S (Upstream_Data p cid data)) isn (upstream_data cfg p cid data) S"
proof -
  let ?S = "bumpReverseConnActivity p S" and ?new = "\<lambda>i. if i = cid then data else []"
  note b = bump_facts [OF assms(2,3), where p = p]
  have S: "sound ?S" "cid < next_conn ?S" using b(1,2) assms(3) by (simp_all add: evolves_def)
  have "\<not> is_forward (conns ?S cid)" using b(3) assms(4) by (simp add: is_forward_def)
  then have "fine ?new isn (seq_act (set_conn cid (enqueueTCPData cfg data)) (trySendReverseToVM cfg p)) ?S"
    by (intro fine_enqueue S evolving_trySend assms(1)) simp_all
  then obtain S' where S': "seq_act (set_conn cid (enqueueTCPData cfg data)) (trySendReverseToVM cfg p) ?S = (Inr (), S')"
    "evolves ?new isn ?S S'" by (auto simp: fine_def)
  have "advances (?new i) (conns S i) (conns S' i)" if "i < next_conn S" for i
  proof -
    have "retransmission (conns ?S i) = retransmission (conns S i) \<and> sendQueue (conns ?S i) = sendQueue (conns S i)
        \<and> finSent (conns ?S i) = finSent (conns S i) \<and> is_forward (conns ?S i) = is_forward (conns S i)"
      by (auto simp: bumpReverseConnActivity_def is_forward_def split: option.split)
    moreover have "advances (?new i) (conns ?S i) (conns S' i)" using S'(2) that b(2) by (simp add: evolves_def)
    ultimately show ?thesis using b(3) [of i] by (simp add: advances_def stream_items_def)
  qed
  then have "evolves ?new isn S S'" using S'(2) b(2) by (simp add: evolves_def)
  moreover have "upstream_data cfg p cid data S = (Inr (), S')"
    using S'(1) by (auto simp: upstream_data_def seq_act_def andthen_def modify_def ret_def split: prod.splits sum.splits)
  ultimately show ?thesis by (simp add: fine_def)
qed

lemma fine_upstream_close:
  assumes "config_ok cfg" "sound S"
  shows "fine nothing isn (upstream_close cfg p cid) S"
proof (cases "map_get (reverseTcpConnections S) p = Some cid \<and> conn_state (conns S cid) \<noteq> CLOSED")
  case False
  then show ?thesis using assms(2) by (intro fine_nothing) (auto simp: upstream_close_def reads_def ret_def)
next
  case True
  then have k: "cid < next_conn S" "key_of (conns S cid) = Reverse p"
    using sound_at(2) [OF assms(2), of "Reverse p" cid] by (simp_all add: found_def inv_at_def)
  note b = bump_facts [OF assms(2) k(1), where p = p]
  have "fine nothing isn (block [modify (bumpReverseConnActivity p), set_conn cid (\<lambda>c. c\<lparr>pendingFin := True\<rparr>),
      trySendReverseToVM cfg p]) S"
    using b k assms by (intro fine_after_bump fine_reverse_fin) (simp_all add: evolves_def)
  then show ?thesis using True by (simp add: upstream_close_def fine_def reads_def)
qed

lemma fine_local_closed:
  assumes "config_ok cfg" "sound S"
  shows "fine nothing isn (local_closed cfg p) S"
proof (cases "map_get (reverseTcpConnections S) p")
  case None
  then show ?thesis using assms(2) by (simp add: fine_nothing local_closed_def reads_def ret_def)
next
  case (Some cid)
  then have k: "cid < next_conn S" "key_of (conns S cid) = Reverse p"
    using sound_at(2) [OF assms(2), of "Reverse p" cid] by (simp_all add: found_def inv_at_def)
  have "fine nothing isn (seq_act (set_conn cid (\<lambda>c. c\<lparr>pendingFin := True\<rparr>)) (trySendReverseToVM cfg p)) S"
    by (rule fine_reverse_fin [OF assms k])
  then show ?thesis using Some by (simp add: local_closed_def fine_def reads_def)
qed

text \<open>Failures abort whatever the table holds.\<close>

lemma evolving_aborts:
  assumes "config_ok cfg"
  shows "evolving isn (socket_failed cfg key e)" "evolving isn (local_failed cfg p e)" "evolving isn (idle_timeout cfg p)"
  unfolding socket_failed_def local_failed_def idle_timeout_def lookup_key_simps [symmetric]
  by (intro found_evolving found_returns safe_abort_key assms evolving_ret; assumption)+

section \<open>Timers and tasks\<close>

lemma fine_pacer_timer:
  assumes "config_ok cfg" "sound S" "cid < next_conn S"
  shows "fine nothing isn (pacer_timer_fired cfg cid) S"
  unfolding pacer_timer_fired_def
  by (intro fine_at [OF sound_at(1) [OF assms(2,3)]] safe_intros safe_set_calm safe_try_send assms(1))
    (simp add: calm_def)

lemma evolves_run_task: "sound S \<Longrightarrow> evolves nothing isn S (run_task t now S)"
proof (cases t)
  case (Forget_Finished key cid)
  assume "sound S"
  then have "sound (run_task t now S)"
    unfolding run_task_def Forget_Finished session_inv_def
    by (auto simp: lookup_key_def split: conn_key.splits if_splits)
  then show ?thesis by (simp add: evolves_def run_task_def Forget_Finished)
qed (auto simp: run_task_def tables_def split: option.split intro!: same_evolves)

section \<open>Closing the session\<close>

definition all_ok :: "session \<Rightarrow> session \<Rightarrow> bool" where
  "all_ok S0 S \<longleftrightarrow> next_conn S = next_conn S0 \<and> (\<forall>i < next_conn S. conn_ok (conns S i)
     \<and> rtq_live (retransmission (conns S i)) \<and> advances [] (conns S0 i) (conns S i))"

lemma close_conns_ok:
  "conn_ok c \<Longrightarrow> conn_ok (close_forward c)" "conn_ok c \<Longrightarrow> conn_ok (close_reverse c)"
  "rtq_live (retransmission (close_forward c))" "rtq_live (retransmission (close_reverse c))"
  "advances [] c (close_forward c)" "advances [] c (close_reverse c)"
proof -
  have "conn_ok (stop_timers c)" if "conn_ok c" for c
    using that by (auto simp: conn_ok_def stop_timers_def clearDelayedTCPAck_def close_rtq_facts addressed_def is_forward_def)
  then show "conn_ok c \<Longrightarrow> conn_ok (close_forward c)" "conn_ok c \<Longrightarrow> conn_ok (close_reverse c)"
    unfolding close_forward_def close_reverse_def
    by (auto simp: conn_ok_def destroy_sink_def destroy_source_def settle_promise_def addressed_def is_forward_def)
  have r: "retransmission (close_forward c) = close_rtq (retransmission c)"
    "retransmission (close_reverse c) = close_rtq (retransmission c)"
    by (simp_all add: close_forward_def close_reverse_def destroy_sink_def destroy_source_def settle_promise_def
        stop_timers_fields)
  then show "rtq_live (retransmission (close_forward c))" "rtq_live (retransmission (close_reverse c))"
    by (simp_all add: close_live)
  show "advances [] c (close_forward c)" "advances [] c (close_reverse c)"
    using r by (intro advances_closed;
        simp add: close_rtq_facts close_forward_def close_reverse_def destroy_sink_def destroy_source_def
          settle_promise_def stop_timers_fields)+
qed

lemma all_ok_fold:
  assumes "\<And>c. conn_ok c \<Longrightarrow> conn_ok (f c)" "\<And>c. rtq_live (retransmission (f c))" "\<And>c. advances [] c (f c)"
  shows "all_ok S0 S \<Longrightarrow> all_ok S0 (fold (\<lambda>(key, cid). upd_conn cid f) es S)"
proof (induction es arbitrary: S)
  case (Cons e es)
  have "all_ok S0 (upd_conn (snd e) f S)"
    using Cons.prems assms advances_trans by (auto simp: all_ok_def upd_conn_def)
  then show ?case using Cons.IH by (simp add: case_prod_unfold)
qed simp

lemma fold_reverse_table:
  "reverseTcpConnections (fold (\<lambda>(key, cid). upd_conn cid f) es S) = reverseTcpConnections S"
  "tcpConnections (fold (\<lambda>(key, cid). upd_conn cid f) es S) = tcpConnections S"
  by (induction es arbitrary: S) (simp_all add: case_prod_unfold upd_conn_def)

lemma all_ok_empty:
  "all_ok S0 S \<Longrightarrow> tcpConnections S = [] \<Longrightarrow> reverseTcpConnections S = [] \<Longrightarrow> evolves nothing isn S0 S"
  by (auto simp: all_ok_def evolves_def session_inv_def lookup_key_def split: conn_key.splits)

lemma all_ok_same: "all_ok S0 S \<Longrightarrow> conns S' = conns S \<Longrightarrow> next_conn S' = next_conn S \<Longrightarrow> all_ok S0 S'"
  by (simp add: all_ok_def)

lemma evolves_close_session:
  assumes "sound S"
  shows "evolves nothing isn S (close_session S)"
proof -
  let ?S1 = "fold (\<lambda>(key, cid). upd_conn cid close_forward) (tcpConnections S) (S\<lparr>udpFlows := close_manager (udpFlows S)\<rparr>)"
  let ?S2 = "set_link (\<lambda>l. l\<lparr>tcpTransportWaiters := []\<rparr>) (?S1\<lparr>tcpConnections := []\<rparr>)"
  let ?S3 = "fold (\<lambda>(key, cid). upd_conn cid close_reverse) (reverseTcpConnections ?S2) ?S2"
  have "all_ok S (S\<lparr>udpFlows := close_manager (udpFlows S)\<rparr>)"
    using assms by (simp add: all_ok_def session_inv_def)
  then have "all_ok S ?S1" by (intro all_ok_fold close_conns_ok)
  then have "all_ok S ?S2" by (rule all_ok_same) (simp_all add: set_link_def)
  then have "all_ok S ?S3" by (intro all_ok_fold close_conns_ok)
  then have "all_ok S (?S3\<lparr>reverseTcpConnections := []\<rparr>)" by (rule all_ok_same) simp_all
  then have "evolves nothing isn S (?S3\<lparr>reverseTcpConnections := []\<rparr>)"
    by (rule all_ok_empty) (simp_all add: fold_reverse_table set_link_def)
  then show ?thesis by (simp add: close_session_def Let_def)
qed

section \<open>Runs\<close>

lemma evolving_from_vm:
  assumes "net_ok cfg"
  shows "evolving isn (tcp_from_vm cfg raw isn)"
proof (cases "parseIPv4Packet raw")
  case None
  then show ?thesis by (simp add: tcp_from_vm_def evolving_ret)
next
  case (Some parsed)
  have "config_ok cfg" using assms by (simp add: net_ok_def)
  then show ?thesis
    using evolving_handleTCP [OF assms Some] evolving_handleReverseTCP [OF _ Some] Some by (simp add: tcp_from_vm_def)
qed

lemma step_fine:
  assumes net: "net_ok cfg" and gw: "ipv4Bytes (AddrString (GATEWAY_IP cfg)) = Inr gb" and S: "sound S"
    and ok: "event_ok S e"
  shows "fine (given S e) (event_isn e) (session_step cfg e) S"
proof -
  have cfg: "config_ok cfg" using net by (simp add: net_ok_def)
  note at = sound_at(1) [OF S]
  show ?thesis
  proof (cases e)
    case (Socket_Data key data)
    then show ?thesis using ok fine_socket_data [OF cfg S] by (simp del: given.simps)
  next
    case (Upstream_Data p cid data)
    then show ?thesis using ok fine_upstream_data [OF cfg S] by (simp del: given.simps)
  next
    case (Rtq_Timer cid g)
    then show ?thesis using ok at_evolves [OF inv_timer [OF cfg at]] by (simp add: fine_modify)
  next
    case (Open_Reverse port isn nextPort)
    then show ?thesis using ok evolves_createTCPConnection [OF net gw _ _ S] by (simp add: fine_modify)
  next
    case (Transport n b now)
    then show ?thesis by (simp add: fine_same S)
  next
    case (Adopt_IP ip)
    then show ?thesis by (simp add: fine_same S tables_def)
  next
    case (Learn_MAC mac)
    then show ?thesis by (simp add: fine_same S tables_def learn_mac_def set_link_def)
  next
    case (Sink_Drained cid)
    have "safe (at_conn cid (origin_of S)) (sink_drained cfg cid)"
      unfolding sink_drained_def by (intro safe_intros safe_with_quiet quiet_receive_drain cfg)
    then show ?thesis using Sink_Drained ok fine_at [OF at] by simp
  next
    case (Ack_Timer cid)
    have "safe (at_conn cid (origin_of S)) (with_conn cid (ack_timer_fired cfg))"
      by (intro safe_with_quiet quiet_ack_timer cfg)
    then show ?thesis using Ack_Timer ok fine_at [OF at] by simp
  qed (use ok in \<open>auto intro: fine_evolving [OF S] evolving_from_vm net evolving_aborts cfg evolving_try_send S
        fine_socket_end fine_upstream_close fine_local_closed fine_pacer_timer fine_modify evolves_run_task
        evolves_close_session\<close>)
qed

lemma new_session_sound:
  assumes "new_session cfg lib ip = Inr S"
  shows "sound S" "next_conn S = 0"
  using assms by (auto simp: new_session_def bind_result_def session_inv_def lookup_key_def
      split: sum.splits conn_key.splits)

definition gateway_ok :: "config \<Rightarrow> bool" where
  "gateway_ok cfg \<longleftrightarrow> net_ok cfg \<and> (\<exists>b. ipv4Bytes (AddrString (GATEWAY_IP cfg)) = Inr b)"

lemma step_evolves:
  assumes "gateway_ok cfg" "sound S" "event_ok S e"
  shows "outcome (session_step cfg e) S = Inr ()"
    and "evolves (given S e) (event_isn e) S (after_event cfg S e)" "sound (after_event cfg S e)"
proof -
  obtain gb where "net_ok cfg" "ipv4Bytes (AddrString (GATEWAY_IP cfg)) = Inr gb"
    using assms(1) by (auto simp: gateway_ok_def)
  then have "fine (given S e) (event_isn e) (session_step cfg e) S" by (rule step_fine [OF _ _ assms(2,3)])
  then show "outcome (session_step cfg e) S = Inr ()" "evolves (given S e) (event_isn e) S (after_event cfg S e)"
    "sound (after_event cfg S e)"
    by (auto simp: fine_def after_event_def evolves_def)
qed

interpretation tcp_session: machine event_ok "after_event cfg" "\<lambda>S. gateway_ok cfg \<and> sound S" for cfg
  by unfold_locales (simp add: step_evolves(3))

lemma run_sound:
  assumes "gateway_ok cfg" "new_session cfg lib ip = Inr S0" "session_may cfg S0 (es @ rest)"
  shows "sound (session_run cfg S0 es)"
  using tcp_session.every_state_inv [of cfg S0 es rest] assms new_session_sound(1) by blast

section \<open>Properties\<close>

text \<open>
  No handler of a TCP connection throws. From a new session, under the settings the relay needs
  to open connections at all, whatever packets the VM sends (any bytes, valid TCP or not), whatever
  the sockets, timers and the transport do within the guarantees of the runtime, in any order, the
  handler of the next event returns normally: no RangeError of a header field, no error of the
  retransmission queue about sequence numbers that do not continue, no failed write.
\<close>

theorem handlers_never_throw:
  assumes "gateway_ok cfg" "new_session cfg lib ip = Inr S" "session_may cfg S (es @ [e])"
  shows "outcome (session_step cfg e) (session_run cfg S es) = Inr ()"
proof -
  have "sound (session_run cfg S es)" "event_ok (session_run cfg S es) e"
    using run_sound [OF assms] assms(3) by simp_all
  then show ?thesis by (rule step_evolves(1) [OF assms(1)])
qed

text \<open>A run that opens a connection to the VM and hands it data.\<close>

definition example_lib :: ws_lib where
  "example_lib = \<lparr>lib_buffering = (\<lambda>n b. n + length b), lib_accepts = (\<lambda>_ _. True), lib_idents = (\<lambda>n. n)\<rparr>"

lemma default_gateway: "gateway_ok default_config" "ipv4Bytes (AddrString ''10.0.2.15'') = Inr [10, 0, 2, 15]"
    "ipv4Bytes (AddrString (GATEWAY_IP default_config)) = Inr [10, 0, 2, 2]"
proof -
  show "ipv4Bytes (AddrString ''10.0.2.15'') = Inr [10, 0, 2, 15]"
    "ipv4Bytes (AddrString (GATEWAY_IP default_config)) = Inr [10, 0, 2, 2]"
    by code_simp+
  then show "gateway_ok default_config"
    using default_config_ok by (simp add: gateway_ok_def net_ok_def) (simp add: default_config_def)
qed

lemma pick_port_first: "\<not> taken p \<Longrightarrow> 0 < n \<Longrightarrow> p < 65535 \<Longrightarrow> pick_port n taken p = (Some p, p + 1)"
  by (cases n) (simp_all add: Let_def)

abbreviation example_events :: "session_event list" where
  "example_events \<equiv> [Adopt_IP ''10.0.2.15'', Open_Reverse 80 7 30000]"

lemma example_opens:
  obtains S where "new_session default_config example_lib ''1.2.3.4'' = Inr S"
    and "next_conn (session_run default_config S example_events) = 1"
    and "map_get (reverseTcpConnections (session_run default_config S example_events)) 30000 = Some 0"
    and "conn_state (conns (session_run default_config S example_events) 0) = SYN_SENT"
    and "newborn 7 (conns (session_run default_config S example_events) 0)"
    and "sound (session_run default_config S example_events)"
proof -
  have "\<exists>S. new_session default_config example_lib ''1.2.3.4'' = Inr S"
    by (simp add: new_session_def bind_result_def new_udp_manager_def new_rate_limiter_def default_config_def
        RATE_LIMIT_BPS_def isInteger_def)
  then obtain S where S: "new_session default_config example_lib ''1.2.3.4'' = Inr S" by blast
  then have f: "next_conn S = 0" "reverseTcpConnections S = []" "recentlyClosed S = {}"
    by (auto simp: new_session_def bind_result_def split: sum.splits)
  let ?S = "S\<lparr>vmIP := Some ''10.0.2.15''\<rparr>"
  have s: "sound ?S" using new_session_sound(1) [OF S] by (rule sound_same) (simp_all add: tables_def)
  have "\<not> port_taken ?S 30000" using f by (simp add: port_taken_def map_has_def)
  then have pp: "pick_port 1000 (port_taken ?S) 30000 = (Some 30000, 30001)"
    by (simp add: pick_port_first)
  have db: "ipv4Bytes (AddrString (case vmIP ?S of Some ip \<Rightarrow> ip | None \<Rightarrow> ''null'')) = Inr [10, 0, 2, 15]"
    using default_gateway(2) by simp
  obtain S' where S': "createTCPConnection default_config 80 7 30000 ?S = (30001, Inr (next_conn ?S), S')"
    "evolves nothing 7 ?S S'"
    "next_conn S' = next_conn ?S + 1" "lookup_key (Reverse 30000) S' = Some (next_conn ?S)"
    "conn_state (conns S' (next_conn ?S)) = SYN_SENT"
    using opened [OF _ default_gateway(3) _ _ s pp db, where port = 80 and isn = 7] default_gateway(1)
    by (auto simp: gateway_ok_def)
  then have "session_run default_config S example_events = S'"
    by (simp add: after_event_def modify_def)
  then show ?thesis using that [OF S] S'(2-5) f by (simp add: evolves_def)
qed

lemma example_run:
  obtains S where "new_session default_config example_lib ''1.2.3.4'' = Inr S"
    and "session_may default_config S (example_events @ [Upstream_Data 30000 0 [1, 2, 3]])"
    and "next_conn (session_run default_config S example_events) = 1"
proof (rule example_opens)
  fix S
  let ?S = "session_run default_config S example_events"
  assume S: "new_session default_config example_lib ''1.2.3.4'' = Inr S" "next_conn ?S = 1"
    "map_get (reverseTcpConnections ?S) 30000 = Some 0" "sound ?S"
  have "key_of (conns ?S 0) = Reverse 30000"
    using sound_at(2) [OF S(4), of "Reverse 30000" 0] S(3) by simp
  then have "event_ok ?S (Upstream_Data 30000 0 [1, 2, 3])" using S(2) by simp
  moreover have "session_may default_config S example_events" by simp
  ultimately have "session_may default_config S (example_events @ [Upstream_Data 30000 0 [1, 2, 3]])"
    unfolding admissible_append by simp
  then show thesis using that S(1,2) by blast
qed

theorem handlers_never_throw_witness:
  "\<exists>S. new_session default_config example_lib ''1.2.3.4'' = Inr S \<and>
     outcome (session_step default_config (Upstream_Data 30000 0 [1, 2, 3]))
       (session_run default_config S [Adopt_IP ''10.0.2.15'', Open_Reverse 80 7 30000]) = Inr ()"
  by (rule example_run) (use handlers_never_throw [OF default_gateway(1)] in blast)

text \<open>
  C3: the accounts of every connection a session ever made stay exact, whatever happens in whatever
  order: \<open>sendQueueBytes\<close> is the number of bytes queued, \<open>payloadBytesInFlight\<close> the number of
  unacknowledged bytes, \<open>relaySeq\<close> the end of the retransmission queue as long as it can be used; the
  retransmission timer runs exactly while something is outstanding or a zero window is probed; a
  connection whose state is CLOSED has its queue and timer shut down.
\<close>

theorem connection_accounts:
  assumes "gateway_ok cfg" "new_session cfg lib ip = Inr S" "session_may cfg S es"
    and "cid < next_conn (session_run cfg S es)"
  shows "let c = conns (session_run cfg S es) cid; q = retransmission c;
            usable_queue = (\<not> rtq_closed q \<and> \<not> exhausted q) in
     sendQueueBytes c = int (length (concat (sendQueue c)))
     \<and> payloadBytesInFlight q = int (data_bytes (unacked q))
     \<and> (if usable_queue
        then relaySeq c = sndNxt q \<and> (rtq_timer q \<noteq> None) = (hasOutstanding q \<or> persist q)
          \<and> conn_state c \<noteq> CLOSED
        else rtq_timer q = None)"
proof -
  have "sound (session_run cfg S es)" using run_sound [of cfg lib ip S es "[]"] assms(1-3) by simp
  then have c: "conn_ok (conns (session_run cfg S es) cid)" "rtq_live (retransmission (conns (session_run cfg S es) cid))"
    using assms(4) by (simp_all add: session_inv_def)
  then have "rtq_wf (retransmission (conns (session_run cfg S es) cid))" by (simp add: conn_ok_def queue_ok_def)
  then show ?thesis
    using c unfolding rtq_wf_def rtq_live_def conn_ok_def can_track_def Let_def
    by (cases "rtq_timer (retransmission (conns (session_run cfg S es) cid))") (auto split: if_splits)
qed

theorem connection_accounts_witness:
  "\<exists>S. new_session default_config example_lib ''1.2.3.4'' = Inr S \<and>
     (let c = conns (session_run default_config S [Adopt_IP ''10.0.2.15'', Open_Reverse 80 7 30000]) 0
      in sendQueueBytes c = int (length (concat (sendQueue c))))"
proof (rule example_run)
  fix S
  let ?es = "[Adopt_IP ''10.0.2.15'', Open_Reverse 80 7 30000]"
  assume S: "new_session default_config example_lib ''1.2.3.4'' = Inr S"
    and m: "session_may default_config S (?es @ [Upstream_Data 30000 0 [1, 2, 3]])"
    and n: "next_conn (session_run default_config S ?es) = 1"
  have "session_may default_config S ?es" "0 < next_conn (session_run default_config S ?es)"
    using m n unfolding admissible_append by simp_all
  from connection_accounts [OF default_gateway(1) S this]
  show ?thesis using S by (auto simp: Let_def)
qed

end
