(* ===== verification/Session_Stream.thy ===== *)
theory Session_Stream
  imports Session_Run
begin

text \<open>
  The outgoing byte stream of a connection, end to end. A run is observed with two histories that
  the program does not keep: the bytes every connection was handed and the initial sequence number
  it was opened with. What a connection still has to get through to the VM is at every moment
  exactly a tail of SYN, those bytes, and the FIN, under the sequence numbers that this implies.
\<close>

section \<open>Observed runs\<close>

type_synonym observed = "session \<times> (nat \<Rightarrow> bytes) \<times> (nat \<Rightarrow> u32)"

definition observe :: "config \<Rightarrow> observed \<Rightarrow> session_event \<Rightarrow> observed" where
  "observe cfg st e =
     (case st of (S, handed, isn) \<Rightarrow>
        let S' = after_event cfg S e
        in (S', \<lambda>i. handed i @ given S e i,
            if next_conn S' = next_conn S then isn else isn(next_conn S := event_isn e)))"

abbreviation observed_run :: "config \<Rightarrow> session \<Rightarrow> session_event list \<Rightarrow> observed" where
  "observed_run cfg S es \<equiv> run (observe cfg) (S, \<lambda>_. [], \<lambda>_. 0) es"

lemma observe_state [simp]: "fst (observe cfg st e) = after_event cfg (fst st) e"
  by (cases st) (simp add: observe_def Let_def)

lemma observed_state: "fst (run (observe cfg) st es) = session_run cfg (fst st) es"
  by (induction es arbitrary: st) simp_all

lemma observed_may:
  "admissible (\<lambda>st. event_ok (fst st)) (observe cfg) st es = session_may cfg (fst st) es"
  by (induction es arbitrary: st) simp_all

section \<open>The invariant\<close>

text \<open>
  \<open>stream_after_syn data c rest\<close>: what follows the SYN in the sequence space of \<open>c\<close>. FINs aside it is
  the data; a forward connection, and any connection that has not sent its FIN, has no FIN in the
  middle of it.
\<close>

definition stream_after_syn :: "bytes \<Rightarrow> tcp_conn \<Rightarrow> seq_item list \<Rightarrow> bool" where
  "stream_after_syn data c rest \<longleftrightarrow>
     SYN_item \<notin> set rest \<and> filter is_byte rest = map Byte_item data
     \<and> (is_forward c \<or> \<not> finSent c \<longrightarrow> rest = map Byte_item data @ (if finSent c then [FIN_item] else []))"

definition carries :: "u32 \<Rightarrow> bytes \<Rightarrow> tcp_conn \<Rightarrow> bool" where
  "carries isn data c \<longleftrightarrow> rtq_closed (retransmission c)
     \<or> (\<exists>rest n. stream_after_syn data c rest \<and> n \<le> length (SYN_item # rest)
          \<and> stream_items c = drop n (SYN_item # rest)
          \<and> sndUna (retransmission c) = isn + word_of_nat n)"

lemma newborn_carries: "newborn isn c \<Longrightarrow> carries isn [] c"
  unfolding carries_def newborn_def stream_after_syn_def
  by (intro disjI2 exI [of _ "[]"] exI [of _ 0]) simp

lemma filter_byte_items [simp]: "filter is_byte (map Byte_item bs) = map Byte_item bs"
  by (induction bs) simp_all

lemma stream_grows:
  assumes "stream_after_syn data c rest" "is_forward c' = is_forward c" "finSent c' \<longleftrightarrow> finSent c \<or> 0 < m"
    and "is_forward c \<Longrightarrow> m \<le> 1 \<and> (finSent c \<longrightarrow> m = 0)" "is_forward c \<Longrightarrow> new \<noteq> [] \<Longrightarrow> \<not> finSent c"
  shows "stream_after_syn (data @ new) c' (rest @ map Byte_item new @ replicate m FIN_item)"
proof -
  have "rest @ map Byte_item new @ replicate m FIN_item = map Byte_item (data @ new) @ (if finSent c' then [FIN_item] else [])"
    if "is_forward c' \<or> \<not> finSent c'"
  proof (cases "finSent c")
    case True
    then have "is_forward c" "m = 0" "new = []" using that assms(2-5) by auto
    then show ?thesis using assms(1,3) True by (simp add: stream_after_syn_def)
  next
    case False
    then have "m = (if finSent c' then 1 else 0)" using that assms(2-4) by auto
    then show ?thesis using assms(1) False by (simp add: stream_after_syn_def)
  qed
  then show ?thesis using assms(1) by (auto simp: stream_after_syn_def)
qed

lemma advances_carries:
  assumes "carries isn data c" "advances new c c'" "is_forward c \<Longrightarrow> new \<noteq> [] \<Longrightarrow> \<not> finSent c"
  shows "carries isn (data @ new) c'"
proof (cases "rtq_closed (retransmission c')")
  case True
  then show ?thesis by (simp add: carries_def)
next
  case False
  then have "\<not> rtq_closed (retransmission c)" using assms(2) by (auto simp: advances_def)
  then obtain rest n where r: "stream_after_syn data c rest" "n \<le> length (SYN_item # rest)"
    "stream_items c = drop n (SYN_item # rest)" "sndUna (retransmission c) = isn + word_of_nat n"
    using assms(1) by (auto simp: carries_def)
  obtain k m where a: "k \<le> length (stream_items c @ map Byte_item new @ replicate m FIN_item)"
    "stream_items c' = drop k (stream_items c @ map Byte_item new @ replicate m FIN_item)"
    "sndUna (retransmission c') = sndUna (retransmission c) + word_of_nat k"
    "finSent c' \<longleftrightarrow> finSent c \<or> 0 < m" "is_forward c \<Longrightarrow> m \<le> 1 \<and> (finSent c \<longrightarrow> m = 0)"
    using assms(2) False unfolding advances_def by blast
  let ?more = "map Byte_item new @ replicate m FIN_item"
  have f: "is_forward c' = is_forward c" using assms(2) by (simp add: advances_def is_forward_def)
  have more: "stream_items c @ ?more = drop n (SYN_item # rest @ ?more)" using r(2,3) by (cases n) simp_all
  have "n + k \<le> length (SYN_item # rest @ ?more)" using a(1) r(2) unfolding more by simp
  moreover have "stream_items c' = drop (n + k) (SYN_item # rest @ ?more)"
    unfolding a(2) more drop_drop by (simp only: add.commute)
  moreover have "sndUna (retransmission c') = isn + word_of_nat (n + k)" by (simp add: a(3) r(4))
  ultimately show ?thesis
    using stream_grows [OF r(1) f a(4,5) assms(3)] unfolding carries_def by blast
qed

definition streams_ok :: "config \<Rightarrow> observed \<Rightarrow> bool" where
  "streams_ok cfg st \<longleftrightarrow> (case st of (S, handed, isn) \<Rightarrow>
     gateway_ok cfg \<and> sound S \<and> (\<forall>i < next_conn S. carries (isn i) (handed i) (conns S i))
     \<and> (\<forall>i \<ge> next_conn S. handed i = []))"

text \<open>Only connections that exist are handed data, and a forward connection only before its FIN.\<close>

lemma given_facts:
  assumes "sound S" "event_ok S e"
  shows "next_conn S \<le> i \<Longrightarrow> given S e i = []"
    and "is_forward (conns S i) \<Longrightarrow> given S e i \<noteq> [] \<Longrightarrow> \<not> finSent (conns S i)"
proof -
  have l: "j < next_conn S" if "map_get (tcpConnections S) key = Some j" for key j
    using assms(1) that unfolding session_inv_def by (metis lookup_key_simps(1))
  show "next_conn S \<le> i \<Longrightarrow> given S e i = []"
    using assms(2) l by (cases e) (fastforce split: if_splits)+
  show "is_forward (conns S i) \<Longrightarrow> given S e i \<noteq> [] \<Longrightarrow> \<not> finSent (conns S i)"
    using assms(2) by (cases e) (auto simp: still_reading_def is_forward_def split: if_splits option.splits)
qed

lemma observe_streams:
  assumes "streams_ok cfg st" "event_ok (fst st) e"
  shows "streams_ok cfg (observe cfg st e)"
proof -
  obtain S handed isn where st: "st = (S, handed, isn)" by (cases st)
  have S: "gateway_ok cfg" "sound S" "\<forall>i < next_conn S. carries (isn i) (handed i) (conns S i)"
    "\<forall>i \<ge> next_conn S. handed i = []" and e: "event_ok S e"
    using assms by (simp_all add: st streams_ok_def)
  let ?S = "after_event cfg S e"
  have ev: "evolves (given S e) (event_isn e) S ?S" by (rule step_evolves(2) [OF S(1,2) e])
  have old: "carries (isn i) (handed i @ given S e i) (conns ?S i)" if "i < next_conn S" for i
    using S(3) ev that given_facts(2) [OF S(2) e] by (intro advances_carries [of "isn i" "handed i" "conns S i"]) (auto simp: evolves_def)
  have rest: "handed i @ given S e i = []" if "next_conn S \<le> i" for i
    using S(4) that given_facts(1) [OF S(2) e] by simp
  consider "next_conn ?S = next_conn S"
    | "next_conn ?S = Suc (next_conn S)" "newborn (event_isn e) (conns ?S (next_conn S))"
    using ev unfolding evolves_def by blast
  then show ?thesis
  proof cases
    case 1
    then show ?thesis using S(1) ev old rest by (simp add: st streams_ok_def observe_def Let_def evolves_def)
  next
    case 2
    then show ?thesis
      using S(1) ev old rest newborn_carries [OF 2(2)]
      by (auto simp: st streams_ok_def observe_def Let_def evolves_def less_Suc_eq)
  qed
qed

interpretation streams: machine "\<lambda>st. event_ok (fst st)" "observe cfg" "streams_ok cfg" for cfg
  by unfold_locales (rule observe_streams)

lemma observed_streams:
  assumes "gateway_ok cfg" "new_session cfg lib ip = Inr S" "session_may cfg S es"
  shows "streams_ok cfg (observed_run cfg S es)"
proof (rule streams.run_inv)
  show "streams_ok cfg (S, \<lambda>_. [], \<lambda>_. 0)"
    using assms(1) new_session_sound [OF assms(2)] by (simp add: streams_ok_def)
  show "admissible (\<lambda>st. event_ok (fst st)) (observe cfg) (S, \<lambda>_. [], \<lambda>_. 0) es"
    using assms(3) by (simp add: observed_may)
qed

section \<open>The property\<close>

text \<open>
  C2: the stream to the VM loses, repeats and reorders nothing. Run a session on any events and
  take a connection whose queue is not closed: its unacknowledged segments followed by its queued
  bytes are exactly what is left, after the acknowledged part, of SYN, all the bytes its source
  was ever given, in order, and its FIN; and the first unacknowledged sequence number is the
  connection's initial one plus the length of the acknowledged part. So the byte at offset \<open>k\<close> of
  the source always travels under sequence number \<open>isn + 1 + k\<close>. A forward connection sends at most
  one FIN, after everything else. (A reverse connection may repeat its FIN or send data after it,
  when its source and its local socket end at different times.)
\<close>

theorem outgoing_stream_preserved:
  assumes "gateway_ok cfg" "new_session cfg lib ip = Inr S" "session_may cfg S es"
    and "observed_run cfg S es = (S', handed, isn)" "cid < next_conn S'"
    and "\<not> rtq_closed (retransmission (conns S' cid))"
  shows "S' = session_run cfg S es \<and> (\<exists>rest n. let c = conns S' cid in
    SYN_item \<notin> set rest \<and> filter is_byte rest = map Byte_item (handed cid)
    \<and> (is_forward c \<or> \<not> finSent c \<longrightarrow>
         rest = map Byte_item (handed cid) @ (if finSent c then [FIN_item] else []))
    \<and> n \<le> length (SYN_item # rest)
    \<and> unacked (retransmission c) @ map Byte_item (concat (sendQueue c)) = drop n (SYN_item # rest)
    \<and> sndUna (retransmission c) = isn cid + word_of_nat n)"
proof -
  have "carries (isn cid) (handed cid) (conns S' cid)"
    using observed_streams [OF assms(1-3)] assms(4,5) by (simp add: streams_ok_def)
  moreover have "S' = session_run cfg S es"
    using observed_state [of cfg "(S, \<lambda>_. [], \<lambda>_. 0)" es] assms(4) by simp
  ultimately show ?thesis
    using assms(6) unfolding carries_def stream_after_syn_def stream_items_def Let_def by blast
qed

text \<open>Three bytes handed to a connection whose SYN is not acknowledged yet.\<close>

theorem outgoing_stream_preserved_witness:
  "\<exists>S S' handed isn. new_session default_config example_lib ''1.2.3.4'' = Inr S \<and>
     observed_run default_config S (example_events @ [Upstream_Data 30000 0 [1, 2, 3]]) = (S', handed, isn) \<and>
     handed 0 = [1, 2, 3] \<and> isn 0 = 7 \<and>
     (\<exists>rest n. filter is_byte rest = [Byte_item 1, Byte_item 2, Byte_item 3] \<and>
        unacked (retransmission (conns S' 0)) @ map Byte_item (concat (sendQueue (conns S' 0))) = drop n (SYN_item # rest))"
proof (rule example_opens)
  fix S
  let ?S = "session_run default_config S example_events" and ?e = "Upstream_Data 30000 0 [1, 2, 3]"
  assume S: "new_session default_config example_lib ''1.2.3.4'' = Inr S" "next_conn ?S = 1"
    "map_get (reverseTcpConnections ?S) 30000 = Some 0" "conn_state (conns ?S 0) = SYN_SENT"
    "newborn 7 (conns ?S 0)" "sound ?S"
  have k: "key_of (conns ?S 0) = Reverse 30000"
    using sound_at(2) [OF S(6), of "Reverse 30000" 0] S(3) by simp
  have may: "session_may default_config S (example_events @ [?e])"
    unfolding admissible_append using S(2) k by simp
  have n: "next_conn S = 0" "next_conn (after_event default_config S (Adopt_IP ''10.0.2.15'')) = 0"
    using new_session_sound(2) [OF S(1)] by (simp_all add: after_event_def modify_def)
  define isn where "isn = (\<lambda>i :: nat. if i = 0 then 7 else 0 :: u32)"
  have "observed_run default_config S example_events = (?S, \<lambda>_. [], isn)"
    using n S(2) by (simp add: observe_def Let_def isn_def fun_eq_iff)
  moreover define S' where "S' = after_event default_config ?S ?e"
  moreover define handed where "handed = (\<lambda>i :: nat. if i = 0 then [1, 2, 3] else [] :: bytes)"
  ultimately have snoc: "observed_run default_config S (example_events @ [?e]) =
      (S', handed, if next_conn S' = next_conn ?S then isn else isn(next_conn ?S := 0))"
    by (simp only: run_append) (simp add: observe_def Let_def handed_def fun_eq_iff)
  have "map_get (reverseTcpConnections (bumpReverseConnActivity 30000 ?S)) 30000 = Some 0"
    "conns (bumpReverseConnActivity 30000 ?S) 0 = (conns ?S 0)\<lparr>idleTimer := True\<rparr>"
    "next_conn (bumpReverseConnActivity 30000 ?S) = 1"
    using S(2,3) by (simp_all add: bumpReverseConnActivity_def upd_conn_def)
  then have s: "next_conn S' = 1" "retransmission (conns S' 0) = retransmission (conns ?S 0)"
    using S(4) unfolding S'_def after_event_def
    by (simp_all add: upstream_data_def seq_act_def andthen_def modify_def set_conn_def
        trySendReverseToVM_def reads_def enqueueTCPData_def Let_def ret_def upd_conn_def)
  then have o: "observed_run default_config S (example_events @ [?e]) = (S', handed, isn)"
    and h: "handed 0 = [1, 2, 3]" "isn 0 = 7"
    using snoc S(2) by (simp_all add: handed_def isn_def)
  have "rtq_wf (retransmission (conns ?S 0))" using S(2,6) by (simp add: session_inv_def conn_ok_def queue_ok_def)
  then have "\<not> rtq_closed (retransmission (conns S' 0))"
    using S(5) s(2) by (auto simp: newborn_def stream_items_def rtq_wf_def unacked_def)
  from outgoing_stream_preserved [OF default_gateway(1) S(1) may o _ this] s(1)
  obtain rest n where r: "filter is_byte rest = map Byte_item (handed 0)"
    "unacked (retransmission (conns S' 0)) @ map Byte_item (concat (sendQueue (conns S' 0))) = drop n (SYN_item # rest)"
    by (auto simp: Let_def)
  have "filter is_byte rest = [Byte_item 1, Byte_item 2, Byte_item 3]" using r(1) h(1) by simp
  with r(2) show ?thesis using S(1) o h by blast
qed

end
