(* ===== verification/Session_Drain.thy ===== *)
theory Session_Drain
  imports Session_Run
begin

text \<open>
  The loop that drains a connection's send queue: it ends, the fuel of the model does not cut it
  short, and it never puts more bytes in flight than the VM's window and the congestion window
  allow.
\<close>

section \<open>The loop\<close>

text \<open>Every iteration that goes on shortens the queue, so any sufficient fuel gives one result.\<close>

lemma send_pending_runs:
  assumes "config_ok cfg" "inv_at {} {} cid k S" "queued cid S < fuel" "queued cid S < fuel'"
  shows "\<exists>S'. send_pending cfg cid rl fuel m S = (Inr (), S') \<and> send_pending cfg cid rl fuel' m S = (Inr (), S')
    \<and> inv_at {} {} cid k S' \<and> obeys cfg cid S S'"
  using assms(2-)
proof (induction "queued cid S" arbitrary: S fuel fuel' m rule: less_induct)
  case less
  obtain n n' where n: "fuel = Suc n" "fuel' = Suc n'"
    using less.prems(2,3) by (metis not_less_zero old.nat.exhaust)
  obtain b S1 where s: "drain_step cfg cid rl m S = (Inr b, S1)" "inv_at {} {} cid k S1"
    "b \<longrightarrow> queued cid S1 < queued cid S" "obeys cfg cid S S1"
    using drain_step_inv [OF assms(1) less.prems(1)] by blast
  show ?case
  proof (cases b)
    case False
    then show ?thesis using s by (simp add: n andthen_def ret_def)
  next
    case True
    then obtain S' where "send_pending cfg cid rl n (m + 1) S1 = (Inr (), S')"
      "send_pending cfg cid rl n' (m + 1) S1 = (Inr (), S')" "inv_at {} {} cid k S'" "obeys cfg cid S1 S'"
      using less.hyps [of S1 n n' "m + 1"] less.prems(2,3) s by (auto simp: n)
    then show ?thesis using s(1,4) True obeys_trans by (auto simp: n andthen_def)
  qed
qed

section \<open>Properties\<close>

text \<open>
  C7: the drain loop terminates. On every state of a session between two steps, the loop that
  sends what is queued returns normally, and giving the model more fuel than one step per queued
  byte changes neither its outcome nor the state it leaves: the bound in the model never stops it.
\<close>

theorem drain_loop_terminates:
  assumes "config_ok cfg" "sound S" "cid < next_conn S"
    and "length (concat (sendQueue (conns S cid))) < fuel"
  shows "send_pending cfg cid rateLimited fuel cooperativeSegments S =
      send_pending cfg cid rateLimited (Suc (length (concat (sendQueue (conns S cid))))) cooperativeSegments S
    \<and> outcome (send_pending cfg cid rateLimited fuel cooperativeSegments) S = Inr ()"
  using send_pending_runs [OF assms(1) sound_at(1) [OF assms(2,3)], of fuel "Suc (queued cid S)" rateLimited
      cooperativeSegments] assms(4)
  by (auto simp: queued_def)

theorem drain_loop_terminates_witness:
  "\<exists>S. sound S \<and> 0 < next_conn S
    \<and> outcome (send_pending default_config 0 False (length (concat (sendQueue (conns S 0))) + 5) 0) S = Inr ()"
proof (rule example_opens)
  fix S
  let ?S = "session_run default_config S example_events"
  assume S: "next_conn ?S = 1" "sound ?S"
  then have "outcome (send_pending default_config 0 False (length (concat (sendQueue (conns ?S 0))) + 5) 0) ?S = Inr ()"
    by (intro conjunct2 [OF drain_loop_terminates [OF default_config_ok]]) simp_all
  then show ?thesis using S by (intro exI [of _ ?S]) simp
qed

text \<open>
  C8: flow control. Whatever the drain loop sends, the payload bytes in flight afterwards are at
  most the smaller of the window the VM announced and the congestion window (the initial one while
  none is set), or no more than before when they already exceeded it; and it leaves both windows
  as they were.
\<close>

theorem drain_respects_windows:
  assumes "config_ok cfg" "sound S" "cid < next_conn S"
  shows "let S' = exec (send_pending cfg cid rateLimited (Suc (length (concat (sendQueue (conns S cid))))) m) S;
             allowed = max 0 (min (vmWindow (conns S cid))
               (if congestionWindow (conns S cid) = 0 then TCP_INITIAL_CWND_BYTES cfg else congestionWindow (conns S cid)))
         in payloadBytesInFlight (retransmission (conns S' cid))
              \<le> max (payloadBytesInFlight (retransmission (conns S cid))) allowed
            \<and> tcpSendLimit cfg (conns S' cid) = allowed"
proof -
  obtain S' where "send_pending cfg cid rateLimited (Suc (queued cid S)) m S = (Inr (), S')" "obeys cfg cid S S'"
    using send_pending_runs [OF assms(1) sound_at(1) [OF assms(2,3)]] by blast
  then show ?thesis
    unfolding tcpSendLimit_def [symmetric]
    by (simp add: queued_def obeys_def in_flight_def send_limit_def)
qed

theorem drain_respects_windows_witness:
  "\<exists>S. sound S \<and> 0 < next_conn S
    \<and> tcpSendLimit default_config (conns (exec (send_pending default_config 0 False
        (Suc (length (concat (sendQueue (conns S 0))))) 0) S) 0) = tcpSendLimit default_config (conns S 0)"
proof (rule example_opens)
  fix S
  let ?S = "session_run default_config S example_events"
  assume S: "next_conn ?S = 1" "sound ?S"
  then show ?thesis
    using drain_respects_windows [OF default_config_ok S(2), of 0 False 0]
    by (intro exI [of _ ?S]) (simp add: Let_def tcpSendLimit_def)
qed

end
