(* ===== verification/Proxy_Forwards.thy ===== *)
theory Proxy_Forwards
  imports Proxy_Rules
begin

text \<open>
  The life of the port forwards: rules are added and deleted through the admin interface while the
  sockets that serve them open, fail and close. As long as no rule is deleted before its sockets
  have opened, the open sockets are exactly those the rules ask for; the other case and the error
  of an open UDP socket are shown as they are.
\<close>

section \<open>Runs\<close>

datatype forward_event = Post rule | Delete "int option" | Listening nat | Socket_Error nat

definition listening :: "nat \<Rightarrow> proxy_state \<Rightarrow> proxy_state" where
  "listening i P = (if srv_protocol (servers P i) = Tcp then tcp_listening i P else udp_listening i P)"

fun forward_step :: "proxy_state \<Rightarrow> forward_event \<Rightarrow> proxy_state" where
  "forward_step P (Post r) = exec (add_rule r) P"
| "forward_step P (Delete n) = exec (delete_rule n) P"
| "forward_step P (Listening i) = listening i P"
| "forward_step P (Socket_Error i) = exec (udp_socket_error i) P"

text \<open>
  A socket reports once that it listens, and only while it is open. A rule is deleted when its
  sockets have opened or failed, and a UDP socket fails only while it is being opened.
\<close>

definition starting :: "nat \<Rightarrow> proxy_state \<Rightarrow> bool" where
  "starting i P \<longleftrightarrow> i < next_server P \<and> \<not> srv_listening (servers P i) \<and> \<not> srv_closed (servers P i)"

fun forward_ok :: "proxy_state \<Rightarrow> forward_event \<Rightarrow> bool" where
  "forward_ok P (Post r) = True"
| "forward_ok P (Delete n) = (\<forall>i < next_server P. starting i P \<longrightarrow> Some (int (srv_rule (servers P i))) \<noteq> n)"
| "forward_ok P (Listening i) = starting i P"
| "forward_ok P (Socket_Error i) = (starting i P \<and> srv_protocol (servers P i) = Udp)"

definition new_proxy :: proxy_state where
  "new_proxy = \<lparr>nextRuleId = 1, proxyRules = [],
     servers = (\<lambda>_. \<lparr>srv_protocol = Tcp, srv_rule = 0, srv_listening = False, srv_closed = True\<rparr>),
     next_server = 0, runningTcpProxies = [], runningUdpProxies = [], udpProxySockets = []\<rparr>"

section \<open>The invariant\<close>

definition protocol_name :: "protocol \<Rightarrow> string" where
  "protocol_name p = (case p of Tcp \<Rightarrow> ''tcp'' | Udp \<Rightarrow> ''udp'')"

definition wants :: "rule \<Rightarrow> protocol \<Rightarrow> bool" where
  "wants r p \<longleftrightarrow> rule_type r = ''port'' \<and> lists_protocol (protocol_name p) r = Inr True"

definition running :: "protocol \<Rightarrow> proxy_state \<Rightarrow> (nat, nat) jsmap" where
  "running p P = (case p of Tcp \<Rightarrow> runningTcpProxies P | Udp \<Rightarrow> runningUdpProxies P)"

text \<open>What is open under a rule and protocol; at most one server ever is.\<close>

definition serves :: "nat \<Rightarrow> protocol \<Rightarrow> nat \<Rightarrow> proxy_state \<Rightarrow> bool" where
  "serves i p n P \<longleftrightarrow> i < next_server P \<and> srv_protocol (servers P i) = p \<and> srv_rule (servers P i) = n"

definition rules_ok :: "proxy_state \<Rightarrow> bool" where
  "rules_ok P \<longleftrightarrow> distinct (map rule_id (proxyRules P)) \<and> (\<forall>r \<in> set (proxyRules P). rule_id r < nextRuleId P)"

definition servers_ok :: "proxy_state \<Rightarrow> bool" where
  "servers_ok P \<longleftrightarrow>
     (\<forall>i < next_server P. srv_rule (servers P i) < nextRuleId P)
     \<and> (\<forall>i j p n. serves i p n P \<longrightarrow> serves j p n P \<longrightarrow> i = j)
     \<and> (\<forall>p n i. map_get (running p P) n = Some i \<longleftrightarrow>
          serves i p n P \<and> srv_listening (servers P i) \<and> \<not> srv_closed (servers P i))"

definition owned :: "nat set \<Rightarrow> proxy_state \<Rightarrow> bool" where
  "owned N P \<longleftrightarrow> (\<forall>i p n. serves i p n P \<longrightarrow> \<not> srv_closed (servers P i) \<longrightarrow> n \<notin> N \<longrightarrow>
     (\<exists>r \<in> set (proxyRules P). rule_id r = n \<and> wants r p))"

definition forwards_ok :: "proxy_state \<Rightarrow> bool" where
  "forwards_ok P \<longleftrightarrow> rules_ok P \<and> servers_ok P \<and> owned {} P \<and> udpProxySockets P = runningUdpProxies P"


text \<open>Stopping a forward closes the server that runs, and nothing else changes.\<close>

definition stop_forward :: "protocol \<Rightarrow> nat \<Rightarrow> (proxy_state, unit) act" where
  "stop_forward p n = (case p of Tcp \<Rightarrow> modify (stopTcpForward n) | Udp \<Rightarrow> stopUdpForward n)"

definition closes :: "(nat \<Rightarrow> bool) \<Rightarrow> proxy_state \<Rightarrow> proxy_state \<Rightarrow> bool" where
  "closes C P P' \<longleftrightarrow> proxyRules P' = proxyRules P \<and> nextRuleId P' = nextRuleId P \<and> next_server P' = next_server P
     \<and> (udpProxySockets P = runningUdpProxies P \<longrightarrow> udpProxySockets P' = runningUdpProxies P')
     \<and> (\<forall>i. servers P' i = (if C i then (servers P i)\<lparr>srv_closed := True\<rparr> else servers P i))"

lemma serves_unique: "serves i p n P \<Longrightarrow> serves i q m P \<Longrightarrow> p = q \<and> n = m"
  by (simp add: serves_def)

lemma closes_serves: "closes C P P' \<Longrightarrow> serves i p n P' = serves i p n P"
  by (simp add: closes_def serves_def)

lemma closes_refl: "closes (\<lambda>_. False) P P"
  by (simp add: closes_def)

lemma closes_trans: "closes C P P1 \<Longrightarrow> closes D P1 P2 \<Longrightarrow> closes (\<lambda>i. C i \<or> D i) P P2"
  by (auto simp: closes_def)

lemma servers_okD:
  assumes "servers_ok P"
  shows "map_get (running p P) n = Some i \<Longrightarrow> serves i p n P \<and> srv_listening (servers P i) \<and> \<not> srv_closed (servers P i)"
    and "serves i p n P \<Longrightarrow> srv_listening (servers P i) \<Longrightarrow> \<not> srv_closed (servers P i) \<Longrightarrow> map_get (running p P) n = Some i"
    and "serves i p n P \<Longrightarrow> serves j p n P \<Longrightarrow> i = j"
    and "serves i p n P \<Longrightarrow> n < nextRuleId P"
  using assms unfolding servers_ok_def by (blast, blast, blast) (use assms in \<open>auto simp: servers_ok_def serves_def\<close>)

text \<open>Servers are closed and their entries deleted, or only unopened ones are closed.\<close>

lemma servers_ok_closes:
  assumes "servers_ok P" "closes C P P'"
    and run: "\<And>p n. map_get (running p P') n =
      (case map_get (running p P) n of Some i \<Rightarrow> if C i then None else Some i | None \<Rightarrow> None)"
  shows "servers_ok P'"
proof -
  note s = servers_okD [OF assms(1)]
  have r: "srv_rule (servers P' i) = srv_rule (servers P i)" for i
    using assms(2) by (simp add: closes_def)
  have "map_get (running p P') n = Some i \<longleftrightarrow>
      serves i p n P' \<and> srv_listening (servers P' i) \<and> \<not> srv_closed (servers P' i)" for p n i
  proof -
    have "map_get (running p P') n = Some i \<longleftrightarrow> map_get (running p P) n = Some i \<and> \<not> C i"
      unfolding run by (auto split: option.split)
    also have "\<dots> \<longleftrightarrow> serves i p n P \<and> srv_listening (servers P i) \<and> \<not> srv_closed (servers P i) \<and> \<not> C i"
      using s(1) [of p n i] s(2) [of i p n] by blast
    also have "\<dots> \<longleftrightarrow> serves i p n P' \<and> srv_listening (servers P' i) \<and> \<not> srv_closed (servers P' i)"
      unfolding closes_serves [OF assms(2)] using assms(2) by (auto simp: closes_def)
    finally show ?thesis .
  qed
  moreover have "\<forall>i < next_server P'. srv_rule (servers P' i) < nextRuleId P'"
    using assms(1,2) unfolding servers_ok_def r by (simp add: closes_def)
  ultimately show ?thesis
    unfolding servers_ok_def [of P'] closes_serves [OF assms(2)] using s(3) by blast
qed

lemma owned_closes: "owned N P \<Longrightarrow> closes C P P' \<Longrightarrow> owned N P'"
  unfolding owned_def closes_serves by (auto simp: closes_def split: if_splits)

lemma stop_forward_runs:
  assumes "servers_ok P"
  shows "\<exists>P'. stop_forward p n P = (Inr (), P') \<and> servers_ok P'
    \<and> closes (\<lambda>i. map_get (running p P) n = Some i) P P'"
proof (cases "map_get (running p P) n")
  case None
  then have "stop_forward p n P = (Inr (), P)"
    by (cases p) (simp_all add: stop_forward_def running_def stopTcpForward_def stopUdpForward_def modify_def reads_def ret_def)
  then show ?thesis using assms closes_refl None by simp
next
  case (Some i)
  let ?P = "case p of
      Tcp \<Rightarrow> (close_server i P)\<lparr>runningTcpProxies := map_delete n (runningTcpProxies P)\<rparr>
    | Udp \<Rightarrow> (close_server i P)\<lparr>runningUdpProxies := map_delete n (runningUdpProxies P),
               udpProxySockets := map_delete n (udpProxySockets P)\<rparr>"
  note i = servers_okD(1) [OF assms Some]
  have "stop_forward p n P = (Inr (), ?P)"
    using Some i by (cases p) (simp_all add: stop_forward_def running_def stopTcpForward_def stopUdpForward_def
      close_socket_def close_server_def upd_server_def modify_def reads_def seq_act_def andthen_def)
  moreover have c: "closes (\<lambda>j. map_get (running p P) n = Some j) P ?P"
    using Some by (auto simp: closes_def close_server_def upd_server_def split: protocol.split)
  moreover have run: "running q ?P = (if q = p then map_delete n (running q P) else running q P)" for q
    by (cases p; cases q) (simp_all add: running_def close_server_def upd_server_def)
  have "map_get (running q ?P) m =
      (case map_get (running q P) m of Some j \<Rightarrow> if map_get (running p P) n = Some j then None else Some j | None \<Rightarrow> None)" for q m
  proof (cases "q = p \<and> m = n")
    case True
    then show ?thesis using Some unfolding run by simp
  next
    case False
    have "map_get (running q ?P) m = map_get (running q P) m"
      using False unfolding run by auto
    moreover have "map_get (running q P) m \<noteq> Some i"
      using servers_okD(1) [OF assms, of q m i] serves_unique [of i q m P p n] i False by blast
    then have "(case map_get (running q P) m of Some j \<Rightarrow> if map_get (running p P) n = Some j then None else Some j | None \<Rightarrow> None)
        = map_get (running q P) m"
      unfolding Some by (cases "map_get (running q P) m") simp_all
    ultimately show ?thesis by (rule trans [OF _ sym])
  qed
  then have "servers_ok ?P" by (rule servers_ok_closes [OF assms c])
  ultimately show ?thesis using Some by auto
qed


section \<open>Opening\<close>

definition start_forward :: "protocol \<Rightarrow> rule \<Rightarrow> proxy_state \<Rightarrow> proxy_state" where
  "start_forward p r P = (case p of Tcp \<Rightarrow> startTcpForward r P | Udp \<Rightarrow> startUdpForward r P)"

lemma new_server_views:
  "serves i p n (new_server q m P) \<longleftrightarrow> serves i p n P \<or> i = next_server P \<and> p = q \<and> n = m"
  "running p (new_server q m P) = running p P"
  "proxyRules (new_server q m P) = proxyRules P" "nextRuleId (new_server q m P) = nextRuleId P"
  "i \<noteq> next_server P \<Longrightarrow> servers (new_server q m P) i = servers P i"
  "\<not> srv_listening (servers (new_server q m P) (next_server P))"
  by (auto simp: new_server_def serves_def running_def split: protocol.split)

lemma next_not_serving: "\<not> serves (next_server P) p n P"
  by (simp add: serves_def)

lemma new_server_ok:
  assumes "servers_ok P" "\<And>i. \<not> serves i q m P" "m < nextRuleId P"
  shows "servers_ok (new_server q m P)"
proof -
  let ?P = "new_server q m P"
  note s = servers_okD [OF assms(1)]
  have "map_get (running p ?P) n = Some i \<longleftrightarrow>
      serves i p n ?P \<and> srv_listening (servers ?P i) \<and> \<not> srv_closed (servers ?P i)" for p n i
  proof (cases "i = next_server P")
    case True
    have "map_get (running p P) n \<noteq> Some (next_server P)" using s(1) next_not_serving by blast
    then show ?thesis unfolding True new_server_views by (simp add: new_server_views(6))
  next
    case False
    then show ?thesis
      using s(1) [of p n i] s(2) [of i p n] unfolding new_server_views(1,2) new_server_views(5) [OF False] by blast
  qed
  moreover have "i = j" if "serves i p n ?P" "serves j p n ?P" for i j p n
    using that assms(2) s(3) unfolding new_server_views by blast
  moreover have "\<forall>i < next_server ?P. srv_rule (servers ?P i) < nextRuleId ?P"
    using assms(1,3) by (auto simp: new_server_def servers_ok_def less_Suc_eq)
  ultimately show ?thesis unfolding servers_ok_def by blast
qed

lemma new_server_owned:
  assumes "owned {} P" "r \<in> set (proxyRules P)" "rule_id r = m" "wants r q"
  shows "owned {} (new_server q m P)"
  unfolding owned_def
proof (intro allI impI)
  fix i p n
  assume s: "serves i p n (new_server q m P)" "\<not> srv_closed (servers (new_server q m P) i)"
  show "\<exists>r \<in> set (proxyRules (new_server q m P)). rule_id r = n \<and> wants r p"
  proof (cases "i = next_server P")
    case True
    then have "p = q" "n = m" using s(1) next_not_serving unfolding new_server_views by blast+
    then show ?thesis using assms(2-4) unfolding new_server_views by blast
  next
    case False
    then have "serves i p n P" "\<not> srv_closed (servers P i)"
      using s unfolding new_server_views(1) new_server_views(5) [OF False] by simp_all
    then show ?thesis using assms(1) unfolding new_server_views owned_def by blast
  qed
qed

lemma start_forward_ok:
  assumes "forwards_ok P" "\<And>i. \<not> serves i p (rule_id r) P" "r \<in> set (proxyRules P)" "wants r p"
  shows "start_forward p r P = new_server p (rule_id r) P" "forwards_ok (new_server p (rule_id r) P)"
proof -
  have ok: "servers_ok P" "rules_ok P" "owned {} P" "udpProxySockets P = runningUdpProxies P"
    using assms(1) by (simp_all add: forwards_ok_def)
  have "map_get (running p P) (rule_id r) = None"
    using servers_okD(1) [OF ok(1)] assms(2) by (cases "map_get (running p P) (rule_id r)") blast+
  then show "start_forward p r P = new_server p (rule_id r) P"
    by (cases p) (simp_all add: start_forward_def startTcpForward_def startUdpForward_def running_def map_has_def)
  have "rule_id r < nextRuleId P" using ok(2) assms(3) by (simp add: rules_ok_def)
  then have "servers_ok (new_server p (rule_id r) P)" by (intro new_server_ok ok(1) assms(2))
  moreover have "owned {} (new_server p (rule_id r) P)" by (rule new_server_owned [OF ok(3) assms(3) refl assms(4)])
  moreover have "udpProxySockets (new_server p (rule_id r) P) = runningUdpProxies (new_server p (rule_id r) P)"
    using ok(4) by (simp add: new_server_def)
  ultimately show "forwards_ok (new_server p (rule_id r) P)"
    using ok(2) by (simp add: forwards_ok_def rules_ok_def new_server_views)
qed


lemma add_rule_ok:
  assumes "forwards_ok P"
  shows "forwards_ok (exec (add_rule r) P)"
proof -
  let ?r = "r\<lparr>rule_id := nextRuleId P\<rparr>"
  let ?P = "P\<lparr>nextRuleId := nextRuleId P + 1, proxyRules := proxyRules P @ [?r]\<rparr>"
  have ok: "servers_ok P" "rules_ok P" "owned {} P" "udpProxySockets P = runningUdpProxies P"
    using assms by (simp_all add: forwards_ok_def)
  have v: "serves i p n ?P = serves i p n P" "running p ?P = running p P" for i p n
    by (simp_all add: serves_def running_def split: protocol.split)
  have "servers_ok ?P" using ok(1) unfolding servers_ok_def v by (auto intro: less_SucI)
  moreover have "rules_ok ?P" using ok(2) by (fastforce simp: rules_ok_def)
  moreover have "owned {} ?P" using ok(3) unfolding owned_def v by auto
  ultimately have P: "forwards_ok ?P" using ok(4) by (simp add: forwards_ok_def)
  have fresh: "\<not> serves i p (rule_id ?r) ?P" for i p
    using servers_okD(4) [OF ok(1), of i p] unfolding v by fastforce
  have mem: "?r \<in> set (proxyRules ?P)" by simp
  show ?thesis
  proof (cases "rule_type r = ''port'' \<and> protocols r \<noteq> None")
    case False
    then have "exec (add_rule r) P = ?P"
      by (auto simp: add_rule_def startPortForward_def lists_protocol_def Let_def reads_def seq_act_def andthen_def
          modify_def whenever_def ret_def lift_result_def)
    then show ?thesis using P by simp
  next
    case True
    then obtain ps where ps: "protocols r = Some ps" by blast
    let ?P1 = "if ''tcp'' \<in> set ps then start_forward Tcp ?r ?P else ?P"
    let ?P2 = "if ''udp'' \<in> set ps then start_forward Udp ?r ?P1 else ?P1"
    have "exec (add_rule r) P = ?P2"
      using True ps by (simp add: add_rule_def startPortForward_def start_forward_def lists_protocol_def Let_def reads_def
          seq_act_def andthen_def modify_def whenever_def ret_def lift_result_def)
    moreover have w: "wants ?r Tcp \<longleftrightarrow> ''tcp'' \<in> set ps" "wants ?r Udp \<longleftrightarrow> ''udp'' \<in> set ps"
      using True ps by (simp_all add: wants_def lists_protocol_def protocol_name_def)
    have "forwards_ok ?P1 \<and> (\<forall>i. \<not> serves i Udp (rule_id ?r) ?P1) \<and> ?r \<in> set (proxyRules ?P1)"
      using P fresh mem start_forward_ok [OF P fresh mem, of Tcp] w by (simp add: new_server_views)
    then have "forwards_ok ?P2" using start_forward_ok [of ?P1 Udp ?r] w by simp
    ultimately show ?thesis by simp
  qed
qed

lemma listening_ok:
  assumes "forwards_ok P" "starting i P"
  shows "forwards_ok (listening i P)"
proof -
  let ?P = "listening i P" let ?p = "srv_protocol (servers P i)" let ?n = "srv_rule (servers P i)"
  have ok: "servers_ok P" "rules_ok P" "owned {} P" "udpProxySockets P = runningUdpProxies P"
    using assms(1) by (simp_all add: forwards_ok_def)
  note s = servers_okD [OF ok(1)]
  have i: "serves i ?p ?n P" "\<not> srv_listening (servers P i)" "\<not> srv_closed (servers P i)"
    using assms(2) by (simp_all add: starting_def serves_def)
  have f: "proxyRules ?P = proxyRules P" "nextRuleId ?P = nextRuleId P" "next_server ?P = next_server P"
    "servers ?P = (servers P)(i := (servers P i)\<lparr>srv_listening := True\<rparr>)"
    by (simp_all add: listening_def tcp_listening_def udp_listening_def upd_server_def Let_def)
  have v: "serves j p n ?P = serves j p n P" for j p n by (simp add: serves_def f)
  have run: "running p ?P = (if p = ?p then map_set ?n i (running p P) else running p P)" for p
    by (cases p; cases ?p)
      (simp_all add: running_def listening_def tcp_listening_def udp_listening_def upd_server_def Let_def)
  have "map_get (running p ?P) n = Some j \<longleftrightarrow>
      serves j p n ?P \<and> srv_listening (servers ?P j) \<and> \<not> srv_closed (servers ?P j)" for p n j
  proof (cases "p = ?p \<and> n = ?n")
    case True
    then have "map_get (running p ?P) n = Some j \<longleftrightarrow> j = i" by (auto simp: run)
    also have "\<dots> \<longleftrightarrow> serves j p n ?P \<and> srv_listening (servers ?P j) \<and> \<not> srv_closed (servers ?P j)"
      using True i s(3) [of i p n j] unfolding v f by (cases "j = i") auto
    finally show ?thesis .
  next
    case False
    have "map_get (running p ?P) n = map_get (running p P) n" using False by (auto simp: run)
    moreover have "\<not> serves i p n P" using serves_unique [OF i(1)] False by blast
    moreover have "j \<noteq> i \<Longrightarrow> servers ?P j = servers P j" by (simp add: f)
    ultimately show ?thesis using s(1) [of p n j] s(2) [of j p n] unfolding v by (cases "j = i") auto
  qed
  moreover have "\<forall>j < next_server ?P. srv_rule (servers ?P j) < nextRuleId ?P"
    using ok(1) by (simp add: f servers_ok_def)
  ultimately have "servers_ok ?P" using s(3) unfolding servers_ok_def v by blast
  moreover have "owned {} ?P" using ok(3) unfolding owned_def v by (simp add: f)
  moreover have "udpProxySockets ?P = runningUdpProxies ?P"
    using ok(4) by (simp add: listening_def tcp_listening_def udp_listening_def upd_server_def Let_def)
  ultimately show ?thesis using ok(2) by (simp add: forwards_ok_def rules_ok_def f)
qed

lemma socket_error_ok:
  assumes "forwards_ok P" "starting i P" "srv_protocol (servers P i) = Udp"
  shows "forwards_ok (exec (udp_socket_error i) P)"
proof -
  let ?n = "srv_rule (servers P i)" let ?P = "close_server i P"
  have ok: "servers_ok P" "rules_ok P" "owned {} P" "udpProxySockets P = runningUdpProxies P"
    using assms(1) by (simp_all add: forwards_ok_def)
  note s = servers_okD [OF ok(1)]
  have i: "serves i Udp ?n P" "\<not> srv_listening (servers P i)" "\<not> srv_closed (servers P i)"
    using assms(2,3) by (simp_all add: starting_def serves_def)
  have none: "map_get (runningUdpProxies P) ?n = None"
    using s(1) [of Udp ?n] s(3) [OF i(1)] i(2) by (cases "map_get (runningUdpProxies P) ?n") (auto simp: running_def)
  have "exec (udp_socket_error i) P = ?P"
    using i(3) none by (simp add: udp_socket_error_def close_socket_def stopUdpForward_def close_server_def upd_server_def
        reads_def seq_act_def andthen_def modify_def ret_def)
  moreover have c: "closes (\<lambda>j. j = i) P ?P"
    by (simp add: closes_def close_server_def upd_server_def)
  have r: "running p ?P = running p P" for p by (cases p) (simp_all add: running_def close_server_def upd_server_def)
  have n: "map_get (running p P) n \<noteq> Some i" for p n using s(1) [of p n i] i(2) by blast
  then have "map_get (running p ?P) n =
      (case map_get (running p P) n of Some j \<Rightarrow> if j = i then None else Some j | None \<Rightarrow> None)" for p n
    unfolding r using n [of p n] by (cases "map_get (running p P) n") simp_all
  then have "servers_ok ?P" by (rule servers_ok_closes [OF ok(1) c])
  moreover have "owned {} ?P" by (rule owned_closes [OF ok(3) c])
  ultimately show ?thesis
    using ok(2,4) c by (simp add: forwards_ok_def rules_ok_def closes_def)
qed


section \<open>Deleting\<close>

lemma find_index_Some: "find_index p xs = Some k \<Longrightarrow> k < length xs \<and> p (xs ! k)"
  by (induction xs arbitrary: k) (auto split: if_splits)

lemma find_index_find: "find p xs = map_option (nth xs) (find_index p xs)"
  by (induction xs) (auto simp: option.map_comp o_def)

lemma remove_found:
  assumes "k < length xs" "distinct (map rule_id xs)" "Some (int (rule_id (xs ! k))) = n"
  shows "take k xs @ drop (k + 1) xs = filter (\<lambda>r. Some (int (rule_id r)) \<noteq> n) xs"
proof -
  have xs: "xs = take k xs @ xs ! k # drop (k + 1) xs" using id_take_nth_drop [OF assms(1)] by simp
  then have "distinct (map rule_id (take k xs @ xs ! k # drop (k + 1) xs))" using assms(2) by simp
  then have "rule_id (xs ! k) \<notin> rule_id ` (set (take k xs) \<union> set (drop (k + 1) xs))"
    unfolding map_append list.map distinct_append distinct.simps by auto
  then have "rule_id x \<noteq> rule_id (xs ! k)" if "x \<in> set (take k xs) \<union> set (drop (k + 1) xs)" for x
    using that by (metis imageI)
  then have keep: "filter (\<lambda>r. Some (int (rule_id r)) \<noteq> n) ys = ys" if "ys \<in> {take k xs, drop (k + 1) xs}" for ys
    unfolding assms(3) [symmetric] using that by (intro filter_True) auto
  have "filter (\<lambda>r. Some (int (rule_id r)) \<noteq> n) (take k xs @ xs ! k # drop (k + 1) xs) = take k xs @ drop (k + 1) xs"
    using keep assms(3) by simp
  then show ?thesis by (metis xs)
qed

lemma stop_both_runs:
  assumes "servers_ok P"
  shows "\<exists>P' C. seq_act (whenever b (stop_forward Tcp n)) (whenever b' (stop_forward Udp n)) P = (Inr (), P')
    \<and> servers_ok P' \<and> closes C P P' \<and> (\<forall>i. C i \<longrightarrow> srv_rule (servers P i) = n)
    \<and> (\<forall>i p. serves i p n P \<longrightarrow> srv_listening (servers P i) \<longrightarrow> (if p = Tcp then b else b') \<longrightarrow> srv_closed (servers P' i))"
proof -
  have one: "\<exists>P' C. whenever b (stop_forward p n) P = (Inr (), P') \<and> servers_ok P' \<and> closes C P P'
      \<and> (\<forall>i. C i \<longrightarrow> srv_rule (servers P i) = n)
      \<and> (\<forall>i. serves i p n P \<longrightarrow> srv_listening (servers P i) \<longrightarrow> b \<longrightarrow> srv_closed (servers P' i))"
    if ok: "servers_ok P" for b p P
  proof (cases b)
    case False
    then show ?thesis using ok closes_refl by (auto simp: whenever_def ret_def)
  next
    case True
    obtain P' where P': "stop_forward p n P = (Inr (), P')" "servers_ok P'"
      "closes (\<lambda>i. map_get (running p P) n = Some i) P P'"
      using stop_forward_runs [OF ok] by blast
    have "srv_rule (servers P i) = n" if "map_get (running p P) n = Some i" for i
      using servers_okD(1) [OF ok that] by (simp add: serves_def)
    moreover have "srv_closed (servers P' i)" if "serves i p n P" "srv_listening (servers P i)" for i
      using servers_okD(2) [OF ok that] P'(3) by (cases "srv_closed (servers P i)") (simp_all add: closes_def)
    ultimately show ?thesis
      using True P' unfolding whenever_def by (intro exI [of _ P'] exI [of _ "\<lambda>i. map_get (running p P) n = Some i"]) simp
  qed
  obtain P1 C where 1: "whenever b (stop_forward Tcp n) P = (Inr (), P1)" "servers_ok P1" "closes C P P1"
    "\<forall>i. C i \<longrightarrow> srv_rule (servers P i) = n"
    "\<forall>i. serves i Tcp n P \<longrightarrow> srv_listening (servers P i) \<longrightarrow> b \<longrightarrow> srv_closed (servers P1 i)"
    using one [OF assms, of b Tcp] by blast
  obtain P2 D where 2: "whenever b' (stop_forward Udp n) P1 = (Inr (), P2)" "servers_ok P2" "closes D P1 P2"
    "\<forall>i. D i \<longrightarrow> srv_rule (servers P1 i) = n"
    "\<forall>i. serves i Udp n P1 \<longrightarrow> srv_listening (servers P1 i) \<longrightarrow> b' \<longrightarrow> srv_closed (servers P2 i)"
    using one [OF 1(2), of b' Udp] by blast
  have k: "srv_rule (servers P1 i) = srv_rule (servers P i)" "srv_listening (servers P1 i) = srv_listening (servers P i)"
    "srv_closed (servers P1 i) \<Longrightarrow> srv_closed (servers P2 i)" for i
    using 1(3) 2(3) by (simp_all add: closes_def)
  have "srv_closed (servers P2 i)"
    if "serves i p n P" "srv_listening (servers P i)" "if p = Tcp then b else b'" for i p
    using that 1(5) 2(5) k closes_serves [OF 1(3)] by (cases p) auto
  then show ?thesis
    using 1 2 closes_trans [OF 1(3) 2(3)] k(1)
    by (intro exI [of _ P2] exI [of _ "\<lambda>i. C i \<or> D i"]) (auto simp: seq_act_Inr)
qed

text \<open>What deleting does when it finds the rule and returns.\<close>

lemma delete_rule_runs:
  assumes "forwards_ok P" "find_index (\<lambda>r. Some (int (rule_id r)) = n) (proxyRules P) = Some k"
    and r: "r = proxyRules P ! k" "rule_type r = ''port'' \<longrightarrow> protocols r \<noteq> None"
    and settled: "\<And>i. starting i P \<Longrightarrow> srv_rule (servers P i) \<noteq> rule_id r"
  shows "\<exists>P' C. delete_rule n P = (Inr True, P'\<lparr>proxyRules := take k (proxyRules P) @ drop (k + 1) (proxyRules P)\<rparr>)
    \<and> servers_ok P' \<and> closes C P P' \<and> (\<forall>i. C i \<longrightarrow> srv_rule (servers P i) = rule_id r)
    \<and> (\<forall>i p. serves i p (rule_id r) P \<longrightarrow> srv_closed (servers P' i))"
proof -
  have ok: "servers_ok P" "rules_ok P" "owned {} P" using assms(1) by (simp_all add: forwards_ok_def)
  have k: "k < length (proxyRules P)" using find_index_Some [OF assms(2)] by simp
  then have mem: "r \<in> set (proxyRules P)" using r(1) by simp
  define b where "b p \<longleftrightarrow> (rule_type r = ''port'' \<longrightarrow> wants r p)" for p
  obtain P' C where P': "seq_act (whenever (b Tcp) (stop_forward Tcp (rule_id r))) (whenever (b Udp) (stop_forward Udp (rule_id r))) P = (Inr (), P')"
    "servers_ok P'" "closes C P P'" "\<forall>i. C i \<longrightarrow> srv_rule (servers P i) = rule_id r"
    "\<forall>i p. serves i p (rule_id r) P \<longrightarrow> srv_listening (servers P i) \<longrightarrow> (if p = Tcp then b Tcp else b Udp) \<longrightarrow> srv_closed (servers P' i)"
    using stop_both_runs [OF ok(1)] by blast
  let ?stop = "if rule_type r = ''port'' then stopPortForward r
    else seq_act (modify (stopTcpForward (rule_id r))) (stopUdpForward (rule_id r))"
  have "?stop = seq_act (whenever (b Tcp) (stop_forward Tcp (rule_id r))) (whenever (b Udp) (stop_forward Udp (rule_id r)))"
  proof (cases "rule_type r = ''port''")
    case True
    then obtain ps where "protocols r = Some ps" using r(2) by blast
    then show ?thesis using True
      by (simp add: b_def wants_def stopPortForward_def lists_protocol_def protocol_name_def stop_forward_def
          andthen_def lift_result_def fun_eq_iff seq_act_def)
  qed (simp add: b_def stop_forward_def whenever_def)
  then have "?stop P = (Inr (), P')" using P'(1) by simp
  moreover have "proxyRules P' = proxyRules P" using P'(3) by (simp add: closes_def)
  ultimately have "delete_rule n P = (Inr True, P'\<lparr>proxyRules := take k (proxyRules P) @ drop (k + 1) (proxyRules P)\<rparr>)"
    using assms(2) unfolding r(1)
    by (simp add: delete_rule_def reads_def Let_def seq_act_Inr andthen_def modify_def ret_def)
  moreover have "srv_closed (servers P' i)" if s: "serves i p (rule_id r) P" for i p
  proof (cases "srv_closed (servers P i)")
    case True
    then show ?thesis using P'(3) by (simp add: closes_def)
  next
    case False
    obtain r' where "r' \<in> set (proxyRules P)" "rule_id r' = rule_id r" "wants r' p"
      using ok(3) s False unfolding owned_def by blast
    moreover have "r' = r"
      using calculation ok(2) mem unfolding rules_ok_def distinct_map inj_on_def by blast
    moreover have "srv_listening (servers P i)"
      using settled [of i] s False by (auto simp: starting_def serves_def)
    ultimately show ?thesis using P'(5) s by (cases p) (auto simp: b_def)
  qed
  ultimately show ?thesis using P'(2-4) by blast
qed

lemma delete_rule_ok:
  assumes "forwards_ok P" "forward_ok P (Delete n)"
  shows "forwards_ok (exec (delete_rule n) P)"
proof (cases "find_index (\<lambda>r. Some (int (rule_id r)) = n) (proxyRules P)")
  case None
  then show ?thesis using assms(1) by (simp add: delete_rule_def reads_def ret_def)
next
  case (Some k)
  define r where r: "r = proxyRules P ! k"
  have k: "k < length (proxyRules P)" "Some (int (rule_id r)) = n" using find_index_Some [OF Some] r by simp_all
  show ?thesis
  proof (cases "rule_type r = ''port'' \<and> protocols r = None")
    case True
    then have "exec (delete_rule n) P = P"
      using Some r by (simp add: delete_rule_def reads_def Let_def stopPortForward_def lists_protocol_def
          lift_result_def seq_act_def andthen_def)
    then show ?thesis using assms(1) by simp
  next
    case False
    have settled: "srv_rule (servers P i) \<noteq> rule_id r" if "starting i P" for i
      using assms(2) that k(2) by (auto simp: starting_def)
    have "rule_type r = ''port'' \<longrightarrow> protocols r \<noteq> None" using False by simp
    from delete_rule_runs [OF assms(1) Some r this settled] obtain P' C where P': "delete_rule n P = (Inr True, P'\<lparr>proxyRules := take k (proxyRules P) @ drop (k + 1) (proxyRules P)\<rparr>)"
      "servers_ok P'" "closes C P P'" "\<forall>i p. serves i p (rule_id r) P \<longrightarrow> srv_closed (servers P' i)"
      by blast
    let ?rules = "take k (proxyRules P) @ drop (k + 1) (proxyRules P)"
    have split: "proxyRules P = take k (proxyRules P) @ r # drop (k + 1) (proxyRules P)"
      using id_take_nth_drop [OF k(1)] r by simp
    have ok: "rules_ok P" "owned {} P" "udpProxySockets P = runningUdpProxies P"
      using assms(1) by (simp_all add: forwards_ok_def)
    have "distinct (map rule_id (take k (proxyRules P) @ r # drop (k + 1) (proxyRules P)))"
      using ok(1) split unfolding rules_ok_def by simp
    moreover have "\<forall>r' \<in> set (take k (proxyRules P) @ r # drop (k + 1) (proxyRules P)). rule_id r' < nextRuleId P"
      using ok(1) split unfolding rules_ok_def by simp
    ultimately have rules: "rules_ok (P'\<lparr>proxyRules := ?rules\<rparr>)"
      using P'(3) by (auto simp: rules_ok_def closes_def)
    have v: "serves i p n (P'\<lparr>proxyRules := ?rules\<rparr>) = serves i p n P" "running p (P'\<lparr>proxyRules := ?rules\<rparr>) = running p P'" for i p n
      using closes_serves [OF P'(3)] by (simp_all add: serves_def running_def split: protocol.split)
    have "servers_ok (P'\<lparr>proxyRules := ?rules\<rparr>)"
      using P'(2) unfolding servers_ok_def v closes_serves [OF P'(3)] by simp
    moreover have "owned {} (P'\<lparr>proxyRules := ?rules\<rparr>)"
      unfolding owned_def v
    proof (intro allI impI)
      fix i p m
      assume s: "serves i p m P" "\<not> srv_closed (servers (P'\<lparr>proxyRules := ?rules\<rparr>) i)"
      have "srv_closed (servers P' i)" if "srv_closed (servers P i)"
        using P'(3) that by (simp add: closes_def)
      then have open_before: "\<not> srv_closed (servers P i)" and m: "m \<noteq> rule_id r"
        using P'(4) s by auto
      then obtain r' where "r' \<in> set (proxyRules P)" "rule_id r' = m" "wants r' p"
        using ok(2) s(1) unfolding owned_def by blast
      moreover from this have "r' \<in> set ?rules" using m split by (metis Un_iff set_ConsD set_append)
      ultimately show "\<exists>r \<in> set (proxyRules (P'\<lparr>proxyRules := ?rules\<rparr>)). rule_id r = m \<and> wants r p" by auto
    qed
    moreover have "udpProxySockets P' = runningUdpProxies P'" using ok(3) P'(3) by (simp add: closes_def)
    ultimately show ?thesis using rules by (simp add: P'(1) forwards_ok_def)
  qed
qed

lemma forward_step_ok: "forwards_ok P \<Longrightarrow> forward_ok P e \<Longrightarrow> forwards_ok (forward_step P e)"
  using add_rule_ok delete_rule_ok listening_ok socket_error_ok by (cases e) auto

lemma new_proxy_ok: "forwards_ok new_proxy"
  by (auto simp: forwards_ok_def rules_ok_def servers_ok_def owned_def serves_def running_def new_proxy_def
      split: protocol.split)

interpretation forwards: machine forward_ok forward_step forwards_ok
  by unfold_locales (rule forward_step_ok)


section \<open>Properties\<close>


definition example_rule :: rule where
  "example_rule = \<lparr>rule_id = 0, rule_type = ''port'', protocols = Some [''tcp'', ''udp''], rule_vm = ''10.0.2.15'',
     rule_port = 22, host_port = 2222, bind_address = [], vhost = [], rule_path = [], targetPath = []\<rparr>"

lemmas forward_run_simps = new_proxy_def example_rule_def add_rule_def startPortForward_def lists_protocol_def
  Let_def startTcpForward_def startUdpForward_def new_server_def map_has_def starting_def listening_def
  tcp_listening_def udp_listening_def upd_server_def delete_rule_def stopPortForward_def stopTcpForward_def
  stopUdpForward_def close_server_def close_socket_def udp_socket_error_def less_Suc_eq
  reads_def seq_act_def andthen_def modify_def whenever_def ret_def lift_result_def throw_def

lemma example_admissible:
  "admissible forward_ok forward_step new_proxy [Post example_rule, Listening 0, Listening 1]"
  by (simp add: forward_run_simps)


text \<open>
  Deleting a rule in such a run removes exactly the rule with that number, keeping the others in
  order, closes every socket that was opened for it and touches no other socket; a number that no
  rule has changes nothing. A port rule that lists no protocols at all cannot be deleted: the
  request throws.
\<close>

theorem delete_is_exact:
  assumes "admissible forward_ok forward_step new_proxy (es @ [Delete n])"
  shows "let P = run forward_step new_proxy es; (res, P') = delete_rule n P in
     case find (\<lambda>r. Some (int (rule_id r)) = n) (proxyRules P) of
       None \<Rightarrow> res = Inr False \<and> P' = P
     | Some r \<Rightarrow>
         if rule_type r = ''port'' \<and> protocols r = None then (\<exists>e. res = Inl e) \<and> P' = P
         else res = Inr True \<and> proxyRules P' = filter (\<lambda>r. Some (int (rule_id r)) \<noteq> n) (proxyRules P)
           \<and> (\<forall>i < next_server P. servers P' i = (servers P i)\<lparr>srv_closed :=
                srv_closed (servers P i) \<or> Some (int (srv_rule (servers P i))) = n\<rparr>)"
proof -
  let ?P = "run forward_step new_proxy es"
  have ok: "forwards_ok ?P" "forward_ok ?P (Delete n)"
    using forwards.every_state_inv [OF new_proxy_ok assms] assms by simp_all
  show ?thesis
  proof (cases "find_index (\<lambda>r. Some (int (rule_id r)) = n) (proxyRules ?P)")
    case None
    then show ?thesis by (simp add: find_index_find delete_rule_def reads_def ret_def)
  next
    case (Some k)
    define r where r: "r = proxyRules ?P ! k"
    have k: "k < length (proxyRules ?P)" "Some (int (rule_id r)) = n" using find_index_Some [OF Some] r by simp_all
    have f: "find (\<lambda>r. Some (int (rule_id r)) = n) (proxyRules ?P) = Some r"
      using Some r by (simp add: find_index_find)
    show ?thesis
    proof (cases "rule_type r = ''port'' \<and> protocols r = None")
      case True
      then have "delete_rule n ?P = (Inl (TypeError ''includes of undefined''), ?P)"
        using Some r by (simp add: delete_rule_def reads_def Let_def stopPortForward_def lists_protocol_def
            lift_result_def seq_act_def andthen_def)
      then show ?thesis using f True by (simp add: Let_def)
    next
      case False
      have settled: "srv_rule (servers ?P i) \<noteq> rule_id r" if "starting i ?P" for i
        using ok(2) that k(2) by (auto simp: starting_def)
      have "rule_type r = ''port'' \<longrightarrow> protocols r \<noteq> None" using False by simp
      from delete_rule_runs [OF ok(1) Some r this settled] obtain P' C where
        P': "delete_rule n ?P = (Inr True, P'\<lparr>proxyRules := take k (proxyRules ?P) @ drop (k + 1) (proxyRules ?P)\<rparr>)"
        "closes C ?P P'" "\<forall>i. C i \<longrightarrow> srv_rule (servers ?P i) = rule_id r"
        "\<forall>i p. serves i p (rule_id r) ?P \<longrightarrow> srv_closed (servers P' i)"
        by blast
      have "servers P' i = (servers ?P i)\<lparr>srv_closed :=
          srv_closed (servers ?P i) \<or> Some (int (srv_rule (servers ?P i))) = n\<rparr>" if "i < next_server ?P" for i
      proof -
        have "srv_closed (servers P' i)" if "srv_rule (servers ?P i) = rule_id r"
          using P'(4) that \<open>i < next_server ?P\<close> by (auto simp: serves_def)
        then show ?thesis
          using P'(2,3) k(2) by (cases "C i") (auto simp: closes_def intro!: server.equality)
      qed
      moreover have "take k (proxyRules ?P) @ drop (k + 1) (proxyRules ?P)
          = filter (\<lambda>r. Some (int (rule_id r)) \<noteq> n) (proxyRules ?P)"
        using ok(1) k r by (intro remove_found) (auto simp: forwards_ok_def rules_ok_def)
      ultimately show ?thesis using f False P'(1) by simp
    qed
  qed
qed

theorem delete_is_exact_witness:
  "proxyRules (exec (delete_rule (Some 1))
     (run forward_step new_proxy [Post example_rule, Listening 0, Listening 1])) = []"
proof -
  have "admissible forward_ok forward_step new_proxy ([Post example_rule, Listening 0, Listening 1] @ [Delete (Some 1)])"
    by (simp add: forward_run_simps)
  from delete_is_exact [OF this] show ?thesis by (simp add: Let_def case_prod_unfold) (simp add: forward_run_simps)
qed

text \<open>
  C39: an error on a UDP socket that is open ends the program: the handler closes the socket, and the
  stop of the forward that follows closes it again, which throws.
\<close>

theorem open_udp_socket_error_throws:
  assumes "admissible forward_ok forward_step new_proxy es"
    and "map_get (runningUdpProxies (run forward_step new_proxy es)) n = Some i"
  shows "outcome (udp_socket_error i) (run forward_step new_proxy es)
      = Inl (GenericError ''ERR_SOCKET_DGRAM_NOT_RUNNING'')"
proof -
  let ?P = "run forward_step new_proxy es"
  have "servers_ok ?P" using forwards.run_inv [OF new_proxy_ok assms(1)] by (simp add: forwards_ok_def)
  then have "serves i Udp n ?P" "\<not> srv_closed (servers ?P i)"
    using servers_okD(1) [of ?P Udp n i] assms(2) by (simp_all add: running_def)
  then have "srv_rule (servers ?P i) = n" "\<not> srv_closed (servers ?P i)" by (simp_all add: serves_def)
  then show ?thesis
    using assms(2) by (simp add: udp_socket_error_def close_socket_def stopUdpForward_def close_server_def
        upd_server_def reads_def seq_act_def andthen_def modify_def throw_def)
qed

theorem open_udp_socket_error_throws_witness:
  "outcome (udp_socket_error 1) (run forward_step new_proxy [Post example_rule, Listening 0, Listening 1])
     = Inl (GenericError ''ERR_SOCKET_DGRAM_NOT_RUNNING'')"
proof (rule open_udp_socket_error_throws [OF example_admissible])
  show "map_get (runningUdpProxies (run forward_step new_proxy [Post example_rule, Listening 0, Listening 1])) 1 = Some 1"
    by (simp add: forward_run_simps)
qed

text \<open>
  Without the condition: a rule that is deleted before its server listens leaves the server open and
  relaying, and no rule leads to it any more.
\<close>

lemma deleted_while_opening_stays_open:
  "let P = run forward_step new_proxy [Post example_rule, Delete (Some 1), Listening 0]
   in proxyRules P = [] \<and> map_get (runningTcpProxies P) 1 = Some 0 \<and> \<not> srv_closed (servers P 0)"
  by (simp add: forward_run_simps)

end
