(* ===== verification/Admin_Http.thy ===== *)
theory Admin_Http
  imports Relay_Core
begin

text \<open>
  The admin interface of relay.js: one handler that routes a request by its URL and method to the
  page, the list of sessions, the nickname of a session, and the rules of the proxy with the port
  forwards they start and stop. The responses keep the values that the handler passes to
  JSON.stringify. JSON.parse is a parameter with what the handlers read from its value.
\<close>

section \<open>Requests and responses\<close>

text \<open>\<open>chunks\<close> are the pieces in which the body arrives; the handlers append them.\<close>

record admin_req =
  rq_method :: string
  rq_url :: string
  rq_chunks :: "string list"

record session_view =
  view_id :: string
  view_clientIP :: string
  view_vmIP :: "string option"
  view_vmMAC :: "string option"
  view_bytesSent :: nat
  view_bytesReceived :: nat
  view_udpFlowCount :: nat
  view_udpDropped :: nat
  view_udpSendErrors :: nat
  view_nickname :: "string option"

datatype content = Empty | Text string | Page bytes | Session_List "session_view list" | Rule_List "rule list"

record admin_res =
  rs_status :: nat
  rs_type :: "string option"
  rs_content :: content

abbreviation plain :: "nat \<Rightarrow> admin_res" where
  "plain code \<equiv> \<lparr>rs_status = code, rs_type = None, rs_content = Empty\<rparr>"

text \<open>
  The file admin.html, if it can be read, and JSON.parse: the rule a text stands for, and the
  property \<open>nickname\<close> of its value; both throw on what is no JSON or is null.
\<close>

record admin_lib =
  page_file :: "bytes option"
  json_rule :: "string \<Rightarrow> rule result"
  json_nickname :: "string \<Rightarrow> string option result"

section \<open>The URL\<close>

text \<open>
  \<open>/\/api\/sessions\/(.+)\/nickname/\<close>: matches anywhere in the URL, at the first place where it can;
  the group is not empty, holds no line break, and is as long as possible.
\<close>

primrec last_index :: "(string \<Rightarrow> bool) \<Rightarrow> string \<Rightarrow> nat option" where
  "last_index p [] = (if p [] then Some 0 else None)"
| "last_index p (c # s) =
     (case last_index p s of Some i \<Rightarrow> Some (Suc i) | None \<Rightarrow> if p (c # s) then Some 0 else None)"

definition line_break :: "char \<Rightarrow> bool" where
  "line_break c \<longleftrightarrow> c = CHR 0x0A \<or> c = CHR 0x0D"

definition greedy_group :: "string \<Rightarrow> string option" where
  "greedy_group s =
     (let s = takeWhile (\<lambda>c. \<not> line_break c) s
      in case s of [] \<Rightarrow> None
         | c # r \<Rightarrow> (case last_index (starts_with ''/nickname'') r of
             None \<Rightarrow> None | Some i \<Rightarrow> Some (take (Suc i) s)))"

fun nickname_target :: "string \<Rightarrow> string option" where
  "nickname_target [] = None"
| "nickname_target (c # s) =
     (case (if starts_with ''/api/sessions/'' (c # s) then greedy_group (drop 14 (c # s)) else None) of
        Some g \<Rightarrow> Some g | None \<Rightarrow> nickname_target s)"

text \<open>\<open>parseInt\<close> without a radix also reads hexadecimal numbers.\<close>

definition parseInt_auto :: "string \<Rightarrow> int option" where
  "parseInt_auto s =
     (let (neg, r) = split_sign (dropWhile is_space s)
      in if take 2 r = ''0x'' \<or> take 2 r = ''0X''
         then (if takeWhile (\<lambda>c. hex_value c < 16) (drop 2 r) = [] then None
               else Some (if neg then - int (parse_hex (drop 2 r)) else int (parse_hex (drop 2 r))))
         else parse_int s)"

definition rule_number :: "string \<Rightarrow> int option" where
  "rule_number url = parseInt_auto (split_on CHR ''/'' url ! 3)"

section \<open>The handler\<close>

definition udp_flow_count :: "udp_manager \<Rightarrow> nat" where
  "udp_flow_count m = length (flows m)"

definition view_of :: "string \<Rightarrow> session \<Rightarrow> session_view" where
  "view_of sessionId S =
     \<lparr>view_id = sessionId, view_clientIP = clientIP S, view_vmIP = vmIP S, view_vmMAC = vmMAC S,
      view_bytesSent = bytesSent (s_link S), view_bytesReceived = bytesReceived S,
      view_udpFlowCount = udp_flow_count (udpFlows S), view_udpDropped = droppedPackets (udpFlows S),
      view_udpSendErrors = sendErrors (udpFlows S), view_nickname = nickname S\<rparr>"

definition list_sessions :: "relay \<Rightarrow> session_view list" where
  "list_sessions R = map (\<lambda>(sessionId, sid). view_of sessionId (session_of R sid)) (activeSessions R)"

definition set_nickname :: "admin_lib \<Rightarrow> string \<Rightarrow> string \<Rightarrow> (relay, admin_res) act" where
  "set_nickname lib sessionId body =
     reads (\<lambda>R. map_get (activeSessions R) sessionId) (\<lambda>found. case found of
       None \<Rightarrow> ret (plain 404)
     | Some sid \<Rightarrow> andthen (lift_result (json_nickname lib body)) (\<lambda>name.
         andthen (modify (upd_session sid (\<lambda>S. S\<lparr>nickname := name\<rparr>))) (\<lambda>_. ret (plain 200))))"

definition on_proxy :: "(proxy_state, 'a) act \<Rightarrow> (relay, 'a) act" where
  "on_proxy m = inside proxy (\<lambda>P R. R\<lparr>proxy := P\<rparr>) m"

definition post_rule :: "admin_lib \<Rightarrow> string \<Rightarrow> (proxy_state, admin_res) act" where
  "post_rule lib body =
     andthen (lift_result (json_rule lib body)) (\<lambda>r. andthen (add_rule r) (\<lambda>_. ret (plain 201)))"

definition drop_rule :: "string \<Rightarrow> (proxy_state, admin_res) act" where
  "drop_rule url = andthen (delete_rule (rule_number url)) (\<lambda>found. ret (plain (if found then 204 else 404)))"

definition admin_request :: "admin_lib \<Rightarrow> admin_req \<Rightarrow> (relay, admin_res) act" where
  "admin_request lib rq =
     (let url = rq_url rq; meth = rq_method rq; body = concat (rq_chunks rq)
      in if url = ''/''
         then ret (case page_file lib of
                None \<Rightarrow> \<lparr>rs_status = 500, rs_type = None, rs_content = Text ''Error loading admin.html''\<rparr>
              | Some data \<Rightarrow> \<lparr>rs_status = 200, rs_type = Some ''text/html'', rs_content = Page data\<rparr>)
         else if url = ''/api/sessions''
         then reads list_sessions (\<lambda>views.
                ret \<lparr>rs_status = 200, rs_type = Some ''application/json'', rs_content = Session_List views\<rparr>)
         else case (if meth = ''POST'' then nickname_target url else None) of
           Some sessionId \<Rightarrow> set_nickname lib sessionId body
         | None \<Rightarrow>
             if url = ''/api/rules'' \<and> meth = ''GET''
             then reads (\<lambda>R. proxyRules (proxy R)) (\<lambda>rules.
                    ret \<lparr>rs_status = 200, rs_type = Some ''application/json'', rs_content = Rule_List rules\<rparr>)
             else if url = ''/api/rules'' \<and> meth = ''POST'' then on_proxy (post_rule lib body)
             else if starts_with ''/api/rules/'' url \<and> meth = ''DELETE'' then on_proxy (drop_rule url)
             else ret (plain 404))"

end
