(* ===== verification/Url_Path.thy ===== *)
theory Url_Path
  imports Proxy_Rules
begin

text \<open>
  The URL a proxied request is forwarded with: \<open>path.join\<close> of the rule's target path and what
  follows the rule's own path, as Node's posix join and normalize define it on strings.
\<close>

section \<open>path.join\<close>

fun intercalate_slash :: "string list \<Rightarrow> string" where
  "intercalate_slash [] = []"
| "intercalate_slash [x] = x"
| "intercalate_slash (x # y # r) = x @ ''/'' @ intercalate_slash (y # r)"

text \<open>
  The loop of normalizeString over the segments; \<open>res\<close> holds the segments kept so far, the last
  one first. Empty segments and dots are dropped; a double dot removes the segment before it, or
  stays when there is none to remove and the path is relative.
\<close>

fun normal_segments :: "bool \<Rightarrow> string list \<Rightarrow> string list \<Rightarrow> string list" where
  "normal_segments up [] res = rev res"
| "normal_segments up (s # ss) res =
     (if s = [] \<or> s = ''.'' then normal_segments up ss res
      else if s = ''..''
      then (case res of
              t # ts \<Rightarrow> if t \<noteq> ''..'' then normal_segments up ss ts
                       else normal_segments up ss (if up then s # res else res)
            | [] \<Rightarrow> normal_segments up ss (if up then s # res else res))
      else normal_segments up ss (s # res))"

definition ends_with_slash :: "string \<Rightarrow> bool" where
  "ends_with_slash s \<longleftrightarrow> s \<noteq> [] \<and> last s = CHR ''/''"

definition path_normalize :: "string \<Rightarrow> string" where
  "path_normalize p =
     (if p = [] then ''.''
      else
        let absolute = starts_with ''/'' p; trailing = ends_with_slash p;
            path = intercalate_slash (normal_segments (\<not> absolute) (split_on CHR ''/'' p) [])
        in if path = [] then (if absolute then ''/'' else if trailing then ''./'' else ''.'')
           else (if absolute then ''/'' else []) @ path @ (if trailing then ''/'' else []))"

definition path_join :: "string \<Rightarrow> string \<Rightarrow> string" where
  "path_join a b =
     (let joined = intercalate_slash (filter (\<lambda>s. s \<noteq> []) [a, b])
      in if joined = [] then ''.'' else path_normalize joined)"

definition forward_url :: "rule \<Rightarrow> string \<Rightarrow> string" where
  "forward_url r url =
     (if targetPath r = [] then url else path_join (targetPath r) (drop (length (rule_path r)) url))"

section \<open>Normal paths\<close>

definition plain_segment :: "string \<Rightarrow> bool" where
  "plain_segment s \<longleftrightarrow> s \<noteq> [] \<and> s \<noteq> ''.'' \<and> s \<noteq> ''..'' \<and> CHR ''/'' \<notin> set s"

lemma split_on_clean: "s \<in> set (split_on c xs) \<Longrightarrow> c \<notin> set s"
  by (induction xs arbitrary: s) (auto split: list.splits if_splits)

lemma normal_segments_plain:
  "list_all (\<lambda>s. CHR ''/'' \<notin> set s) ss \<Longrightarrow> list_all plain_segment res \<Longrightarrow>
   list_all plain_segment (normal_segments False ss res)"
  by (induction False ss res rule: normal_segments.induct) (auto simp: plain_segment_def split: list.splits)

lemma normal_segments_plain_append:
  "list_all plain_segment ss \<Longrightarrow> normal_segments up (ss @ rest) res = normal_segments up rest (rev ss @ res)"
  by (induction ss arbitrary: res) (auto simp: plain_segment_def)

lemma split_on_not_Nil: "split_on c s \<noteq> []"
  by (induction s) (auto split: list.split)

lemma split_on_sep: "split_on c (s @ c # t) = split_on c s @ split_on c t"
  by (induction s) (auto simp: split_on_not_Nil split: list.split)

lemma split_intercalate:
  "list_all plain_segment ss \<Longrightarrow> ss \<noteq> [] \<Longrightarrow> split_on CHR ''/'' (intercalate_slash ss) = ss"
  by (induction ss rule: intercalate_slash.induct)
    (auto simp: plain_segment_def split_on_no_sep split_on_append)

lemma intercalate_last:
  "list_all plain_segment ss \<Longrightarrow> ss \<noteq> [] \<Longrightarrow> intercalate_slash ss \<noteq> [] \<and> last (intercalate_slash ss) \<noteq> CHR ''/''"
  by (induction ss rule: intercalate_slash.induct) (auto simp: plain_segment_def dest: last_in_set)

text \<open>Normal paths are put together as they are.\<close>

lemma path_join_plain:
  assumes "list_all plain_segment ts" "list_all plain_segment ss" "ts \<noteq> []" "ss \<noteq> []"
  shows "path_join (''/'' @ intercalate_slash ts) (''/'' @ intercalate_slash ss) = ''/'' @ intercalate_slash (ts @ ss)"
proof -
  let ?p = "''/'' @ intercalate_slash ts @ ''/'' @ ''/'' @ intercalate_slash ss"
  have "split_on CHR ''/'' ?p = [] # ts @ [] # ss"
    using assms by (simp add: split_on_sep split_intercalate)
  then have "normal_segments False (split_on CHR ''/'' ?p) [] = ts @ ss"
    using normal_segments_plain_append [OF assms(1), of False "[] # ss" "[]"]
      normal_segments_plain_append [OF assms(2), of False "[]" "rev ts"] by simp
  moreover have "\<not> ends_with_slash ?p"
    using intercalate_last [OF assms(2,4)] by (simp add: ends_with_slash_def)
  moreover have "intercalate_slash (ts @ ss) \<noteq> []"
    using intercalate_last [of "ts @ ss"] assms by simp
  ultimately have "path_normalize ?p = ''/'' @ intercalate_slash (ts @ ss)"
    by (simp add: path_normalize_def starts_with_def)
  then show ?thesis by (simp add: path_join_def)
qed

section \<open>Properties\<close>

text \<open>
  C37: a request under a rule with an absolute target path is forwarded with a normal absolute path:
  a slash, segments of which none is empty, a dot or a double dot, and perhaps a final slash; and when
  both the target path and what follows the rule's path are normal, they are put together as they are.
\<close>

theorem forwarded_url_normal:
  assumes "starts_with ''/'' (targetPath r)"
  shows "(\<exists>ss. list_all plain_segment ss
      \<and> (forward_url r url = ''/'' @ intercalate_slash ss \<or> forward_url r url = ''/'' @ intercalate_slash ss @ ''/''))
    \<and> (\<forall>ts us. targetPath r = ''/'' @ intercalate_slash ts \<and> drop (length (rule_path r)) url = ''/'' @ intercalate_slash us
        \<and> ts \<noteq> [] \<and> us \<noteq> [] \<and> list_all plain_segment (ts @ us)
        \<longrightarrow> forward_url r url = ''/'' @ intercalate_slash (ts @ us))"
proof
  obtain t where t: "targetPath r = CHR ''/'' # t"
    using assms by (cases "targetPath r") (auto simp: starts_with_def)
  define p where "p = intercalate_slash (filter (\<lambda>s. s \<noteq> []) [targetPath r, drop (length (rule_path r)) url])"
  have p: "p \<noteq> []" "starts_with ''/'' p"
    by (auto simp: p_def t starts_with_def)
  let ?ss = "normal_segments False (split_on CHR ''/'' p) []"
  have "list_all plain_segment ?ss"
    using split_on_clean by (intro normal_segments_plain) (auto simp: list_all_iff)
  moreover have "forward_url r url = path_normalize p"
    using p(1) by (simp add: forward_url_def path_join_def t p_def)
  then have "forward_url r url = ''/'' @ intercalate_slash ?ss \<or> forward_url r url = ''/'' @ intercalate_slash ?ss @ ''/''"
    using p by (auto simp: path_normalize_def Let_def)
  ultimately show "\<exists>ss. list_all plain_segment ss
      \<and> (forward_url r url = ''/'' @ intercalate_slash ss \<or> forward_url r url = ''/'' @ intercalate_slash ss @ ''/'')"
    by blast
  show "\<forall>ts us. targetPath r = ''/'' @ intercalate_slash ts \<and> drop (length (rule_path r)) url = ''/'' @ intercalate_slash us
        \<and> ts \<noteq> [] \<and> us \<noteq> [] \<and> list_all plain_segment (ts @ us)
        \<longrightarrow> forward_url r url = ''/'' @ intercalate_slash (ts @ us)"
    using path_join_plain by (simp add: forward_url_def)
qed

theorem forwarded_url_normal_witness:
  "forward_url \<lparr>rule_id = 1, rule_type = ''http'', protocols = None, rule_vm = ''10.0.2.15'', rule_port = 80,
     host_port = 0, bind_address = [], vhost = [], rule_path = ''/app'', targetPath = ''/base''\<rparr> ''/app/a/b''
   = ''/base/a/b''"
  using conjunct2 [OF forwarded_url_normal [of "\<lparr>rule_id = 1, rule_type = ''http'', protocols = None,
      rule_vm = ''10.0.2.15'', rule_port = 80, host_port = 0, bind_address = [], vhost = [], rule_path = ''/app'',
      targetPath = ''/base''\<rparr>" "''/app/a/b''"], rule_format, of "[''base'']" "[''a'', ''b'']"]
  by (simp add: starts_with_def plain_segment_def)

text \<open>Two requests that come out otherwise than meant.\<close>

lemma double_dots_leave_the_target:
  "path_join ''/base'' ''/../../secret'' = ''/secret''"
  by (simp add: path_join_def path_normalize_def starts_with_def ends_with_slash_def Let_def)

lemma query_is_normalized:
  "path_join ''/base'' ''/go?next=http://host/../x'' = ''/base/go?next=http:/x''"
  by (simp add: path_join_def path_normalize_def starts_with_def ends_with_slash_def Let_def)

end
