(* ===== verification/Proxy_Exchange.thy ===== *)
theory Proxy_Exchange
  imports Session_Run Url_Path
begin

text \<open>
  One proxied HTTP request (proxyRequest of relay.js) over a connection to a VM: the response
  timer, the two streams of the connection, the client's response object and socket, and the
  cleanup that aborts the connection. The state is the exchange together with the session of the
  VM, whose own events run in between. The upgrade handler is the same with a closed flag only.
\<close>

section \<open>State\<close>

text \<open>What the client is sent: an error response of the proxy itself, raw bytes, or the end.\<close>

datatype client_output = Error_Response nat string | Raw bytes | Client_End

datatype exchange_phase = Connecting | Failed | Writing_Head | Relaying

text \<open>
  \<open>phase\<close> is where the async function stands: at the await of the connection, in its catch block,
  at the await of the drain event, or past it with the handlers registered. \<open>client_open\<close> is
  \<open>clientSocket && !clientSocket.destroyed\<close>; \<open>upstream_writes\<close> is what it writes to upstream itself.
\<close>

record exchange =
  x_key :: nat
  x_conn :: nat
  phase :: exchange_phase
  finished :: bool
  receivedAny :: bool
  responseTimeout :: bool
  headersSent :: bool
  client_open :: bool
  client_log :: "client_output list"
  upstream_writes :: "string list"

type_synonym served = "exchange \<times> session"

abbreviation set_x :: "(exchange \<Rightarrow> exchange) \<Rightarrow> (served, unit) act" where
  "set_x f \<equiv> modify (\<lambda>(x, S). (f x, S))"

definition on_target :: "(session, 'a) act \<Rightarrow> (served, 'a) act" where
  "on_target m = inside snd (\<lambda>S (x, _). (x, S)) m"

definition new_exchange :: "nat \<Rightarrow> nat \<Rightarrow> exchange" where
  "new_exchange key cid =
     \<lparr>x_key = key, x_conn = cid, phase = Connecting, finished = False, receivedAny = False,
      responseTimeout = False, headersSent = False, client_open = True, client_log = [],
      upstream_writes = []\<rparr>"

section \<open>Handlers\<close>

text \<open>\<open>res.writeHead\<close> throws when the head was sent before; then \<open>res.end\<close>.\<close>

definition respond :: "nat \<Rightarrow> string \<Rightarrow> (served, unit) act" where
  "respond code text = reads (headersSent \<circ> fst) (\<lambda>sent.
     if sent then throw (GenericError ''ERR_HTTP_HEADERS_SENT'')
     else set_x (\<lambda>x. x\<lparr>headersSent := True, client_log := client_log x @ [Error_Response code text]\<rparr>))"

definition end_client :: "(served, unit) act" where
  "end_client = reads (client_open \<circ> fst) (\<lambda>is_open.
     whenever is_open (set_x (\<lambda>x. x\<lparr>client_log := client_log x @ [Client_End]\<rparr>)))"

definition cleanup_exchange :: "config \<Rightarrow> (served, unit) act" where
  "cleanup_exchange cfg = reads fst (\<lambda>x.
     if finished x then ret ()
     else seq_act (set_x (\<lambda>x. x\<lparr>finished := True, responseTimeout := False\<rparr>))
       (on_target (proxy_cleanup cfg (x_key x) (x_conn x) (GenericError ''HTTP proxy request completed''))))"

definition resetTimeout :: "(served, unit) act" where
  "resetTimeout = set_x (\<lambda>x. x\<lparr>responseTimeout := True\<rparr>)"

text \<open>The error response when nothing has been sent, otherwise the end of the client's socket.\<close>

definition answer_or_end :: "nat \<Rightarrow> string \<Rightarrow> (served, unit) act" where
  "answer_or_end code text = reads fst (\<lambda>x.
     if \<not> receivedAny x \<and> \<not> headersSent x then respond code text else end_client)"

definition response_timed_out :: "config \<Rightarrow> (served, unit) act" where
  "response_timed_out cfg =
     seq_act (set_x (\<lambda>x. x\<lparr>responseTimeout := False\<rparr>))
       (seq_act (answer_or_end 504 ''Gateway Timeout'') (cleanup_exchange cfg))"

text \<open>The connection is there: the head is written; \<open>accepted\<close> is what \<open>write\<close> returns.\<close>

definition begin_relaying :: "string \<Rightarrow> bool \<Rightarrow> (served, unit) act" where
  "begin_relaying requestData accepted =
     seq_act resetTimeout (set_x (\<lambda>x. x\<lparr>upstream_writes := upstream_writes x @ [requestData],
       phase := (if accepted then Relaying else Writing_Head)\<rparr>))"

definition stream_failed :: "config \<Rightarrow> (served, unit) act" where
  "stream_failed cfg = reads fst (\<lambda>x.
     seq_act (whenever (\<not> finished x \<and> \<not> headersSent x) (respond 502 ''Bad Gateway''))
       (cleanup_exchange cfg))"

definition response_chunk :: "bytes \<Rightarrow> (served, unit) act" where
  "response_chunk chunk =
     seq_act (set_x (\<lambda>x. x\<lparr>receivedAny := True\<rparr>)) (seq_act resetTimeout
       (set_x (\<lambda>x. if client_open x then x\<lparr>client_log := client_log x @ [Raw chunk]\<rparr> else x)))"

definition response_end :: "config \<Rightarrow> (served, unit) act" where
  "response_end cfg =
     seq_act (set_x (\<lambda>x. x\<lparr>responseTimeout := False\<rparr>))
       (seq_act (answer_or_end 502 ''Bad Gateway: No response from VM'') (cleanup_exchange cfg))"

definition connect_failed :: "(served, unit) act" where
  "connect_failed =
     seq_act (set_x (\<lambda>x. x\<lparr>phase := Failed\<rparr>)) (respond 502 ''Bad Gateway: Could not connect to VM'')"

section \<open>Events\<close>

datatype exchange_event =
    Connected string bool
  | Connect_Failed
  | Drained
  | Timed_Out
  | Aborted
  | Res_Closed
  | Upstream_Failed
  | Downstream_Failed
  | Chunk bytes
  | Response_End
  | Client_Gone
  | Session_Event session_event

fun exchange_step :: "config \<Rightarrow> exchange_event \<Rightarrow> (served, unit) act" where
  "exchange_step cfg (Connected requestData accepted) = begin_relaying requestData accepted"
| "exchange_step cfg Connect_Failed = connect_failed"
| "exchange_step cfg Drained = set_x (\<lambda>x. x\<lparr>phase := Relaying\<rparr>)"
| "exchange_step cfg Timed_Out = response_timed_out cfg"
| "exchange_step cfg Aborted = cleanup_exchange cfg"
| "exchange_step cfg Res_Closed = cleanup_exchange cfg"
| "exchange_step cfg Upstream_Failed = stream_failed cfg"
| "exchange_step cfg Downstream_Failed = stream_failed cfg"
| "exchange_step cfg (Chunk chunk) = response_chunk chunk"
| "exchange_step cfg Response_End = response_end cfg"
| "exchange_step cfg Client_Gone = set_x (\<lambda>x. x\<lparr>client_open := False\<rparr>)"
| "exchange_step cfg (Session_Event e) = on_target (session_step cfg e)"

text \<open>
  What the runtime guarantees: the promise of the connection settles once; a cleared timer does not
  fire; the handlers run only once registered; and a destroyed stream gives no more data and no end
  (the cleanup destroys both).
\<close>

fun exchange_ok :: "served \<Rightarrow> exchange_event \<Rightarrow> bool" where
  "exchange_ok (x, S) (Connected requestData accepted) = (phase x = Connecting)"
| "exchange_ok (x, S) Connect_Failed = (phase x = Connecting)"
| "exchange_ok (x, S) Drained = (phase x = Writing_Head \<and> \<not> finished x)"
| "exchange_ok (x, S) Timed_Out = responseTimeout x"
| "exchange_ok (x, S) (Chunk chunk) = (phase x = Relaying \<and> \<not> finished x)"
| "exchange_ok (x, S) Response_End = (phase x = Relaying \<and> \<not> finished x)"
| "exchange_ok (x, S) Client_Gone = True"
| "exchange_ok (x, S) (Session_Event e) = event_ok S e"
| "exchange_ok (x, S) _ = (phase x = Relaying)"

definition after_exchange :: "config \<Rightarrow> served \<Rightarrow> exchange_event \<Rightarrow> served" where
  "after_exchange cfg s e = exec (exchange_step cfg e) s"

section \<open>Upgraded connections\<close>

text \<open>An upgraded request: its closed flag, and whether the client's socket has been destroyed.\<close>

record upgrade =
  up_closed :: bool
  up_socket_destroyed :: bool

definition cleanup_upgrade :: "config \<Rightarrow> nat \<Rightarrow> nat \<Rightarrow> (upgrade \<times> session, unit) act" where
  "cleanup_upgrade cfg key cid = reads fst (\<lambda>u.
     if up_closed u then ret ()
     else seq_act (modify (\<lambda>(u, S). (u\<lparr>up_closed := True\<rparr>, S)))
       (seq_act (inside snd (\<lambda>S (u, _). (u, S))
          (proxy_cleanup cfg key cid (GenericError ''Upgrade proxy connection closed'')))
       (modify (\<lambda>(u, S). (u\<lparr>up_socket_destroyed := True\<rparr>, S)))))"

section \<open>The invariant\<close>

text \<open>The cleanup takes the connection out of the table of the session.\<close>

lemma local_failed_removes:
  assumes "local_failed cfg key err S = (Inr (), S')"
  shows "map_get (reverseTcpConnections S') key = None"
proof (cases "map_get (reverseTcpConnections S) key")
  case None
  then show ?thesis using assms by (simp add: local_failed_def reads_def ret_def)
next
  case (Some cid)
  then have "block [send_reset cfg cid True, modify (shut_conn cid), modify (drop_reverse key),
      modify (upd_conn cid (\<lambda>c. settle_promise (Rejected err) (destroy_sink (destroy_source c)))),
      modify (remember_closed key)] S = (Inr (), S')"
    using assms by (simp add: local_failed_def reads_def abortReverseConnection_def)
  then obtain S1 where "S' = remember_closed key (upd_conn cid (\<lambda>c. settle_promise (Rejected err) (destroy_sink (destroy_source c)))
      (drop_reverse key (shut_conn cid S1)))"
    by (cases "send_reset cfg cid True S") (auto simp: seq_act_def andthen_def modify_def ret_def split: sum.splits)
  then show ?thesis
    by (simp add: remember_closed_def add_task_def upd_conn_def drop_reverse_def)
qed

lemma proxy_cleanup_runs:
  assumes "config_ok cfg" "sound S" "cid < next_conn S"
  shows "\<exists>S'. proxy_cleanup cfg key cid err S = (Inr (), S') \<and> sound S' \<and> next_conn S \<le> next_conn S'
    \<and> map_get (reverseTcpConnections S') key = None"
proof -
  obtain S1 where S1: "local_failed cfg key err S = (Inr (), S1)" "evolves nothing 0 S S1"
    using evolving_aborts(2) [OF assms(1), of 0 key err] assms(2) unfolding evolving_def by auto
  then have n: "sound S1" "next_conn S \<le> next_conn S1" by (auto simp: evolves_def)
  have "safe (at_conn cid (origin_of S1)) (set_conn cid (\<lambda>c. destroy_sink (destroy_source c)))"
    by (intro safe_set_calm) simp
  moreover have "at_conn cid (origin_of S1) S1" using sound_at(1) [OF n(1)] assms(3) n(2) by simp
  ultimately obtain S2 where S2: "set_conn cid (\<lambda>c. destroy_sink (destroy_source c)) S1 = (Inr (), S2)"
    "at_conn cid (origin_of S1) S2"
    by (auto simp: returns_def)
  moreover have "reverseTcpConnections S2 = reverseTcpConnections S1"
    using S2(1) by (auto simp: set_conn_def modify_def upd_conn_def)
  ultimately show ?thesis
    using S1(1) n(2) local_failed_removes [OF S1(1)] by (auto simp: proxy_cleanup_def seq_act_Inr inv_at_def)
qed

definition session_side :: "served \<Rightarrow> bool" where
  "session_side s \<longleftrightarrow> sound (snd s) \<and> x_conn (fst s) < next_conn (snd s)"

text \<open>What the client got, \<open>cs\<close> being the chunks that came from the VM so far.\<close>

definition one_answer :: "exchange \<Rightarrow> bytes list \<Rightarrow> bool" where
  "one_answer x cs \<longleftrightarrow>
     (if headersSent x
      then cs = [] \<and> (finished x \<or> phase x = Failed) \<and> (\<exists>code text. client_log x = [Error_Response code text])
      else (\<exists>k \<le> length cs. (client_open x \<longrightarrow> k = length cs) \<and>
             (client_log x = map Raw (take k cs) \<or> finished x \<and> client_log x = map Raw (take k cs) @ [Client_End])))"

definition guarded :: "exchange \<Rightarrow> bool" where
  "guarded x \<longleftrightarrow>
     (case phase x of
        Connecting \<Rightarrow> \<not> finished x \<and> \<not> responseTimeout x \<and> \<not> headersSent x \<and> \<not> receivedAny x \<and> upstream_writes x = []
      | Failed \<Rightarrow> \<not> finished x \<and> \<not> responseTimeout x \<and> headersSent x \<and> \<not> receivedAny x \<and> upstream_writes x = []
      | _ \<Rightarrow> responseTimeout x = (\<not> finished x) \<and> (\<exists>d. upstream_writes x = [d]))"

definition exchange_inv :: "served \<times> bytes list \<Rightarrow> bool" where
  "exchange_inv w \<longleftrightarrow> session_side (fst w) \<and> guarded (fst (fst w)) \<and> one_answer (fst (fst w)) (snd w)
     \<and> receivedAny (fst (fst w)) = (snd w \<noteq> [])"

fun chunk_of :: "exchange_event \<Rightarrow> bytes list" where
  "chunk_of (Chunk c) = [c]"
| "chunk_of _ = []"

definition watch :: "config \<Rightarrow> served \<times> bytes list \<Rightarrow> exchange_event \<Rightarrow> served \<times> bytes list" where
  "watch cfg w e = (after_exchange cfg (fst w) e, snd w @ chunk_of e)"

definition timely :: "served \<Rightarrow> exchange_event \<Rightarrow> bool" where
  "timely s e \<longleftrightarrow> exchange_ok s e \<and>
     (e = Upstream_Failed \<or> e = Downstream_Failed \<longrightarrow> receivedAny (fst s) \<longrightarrow> finished (fst s))"

definition cleaned :: "exchange \<Rightarrow> exchange" where
  "cleaned x = (if finished x then x else x\<lparr>finished := True, responseTimeout := False\<rparr>)"

text \<open>The step that finishes an exchange leaves no connection under its key.\<close>

definition settled :: "exchange \<Rightarrow> served \<Rightarrow> bool" where
  "settled x s \<longleftrightarrow> x_key (fst s) = x_key x
     \<and> (finished (fst s) \<and> \<not> finished x \<longrightarrow> map_get (reverseTcpConnections (snd s)) (x_key x) = None)"

lemma cleaned_fields [simp]:
  "receivedAny (cleaned x) = receivedAny x" "x_key (cleaned x) = x_key x" "finished (cleaned x)"
  by (simp_all add: cleaned_def)

lemma cleanup_runs:
  assumes "config_ok cfg" "session_side (x, S)"
  shows "\<exists>S'. cleanup_exchange cfg (x, S) = (Inr (), (cleaned x, S')) \<and> session_side (cleaned x, S')
    \<and> settled x (cleaned x, S')"
proof (cases "finished x")
  case True
  then show ?thesis using assms(2) by (simp add: cleanup_exchange_def reads_def ret_def cleaned_def settled_def)
next
  case False
  obtain S' where "proxy_cleanup cfg (x_key x) (x_conn x) (GenericError ''HTTP proxy request completed'') S = (Inr (), S')"
    "sound S'" "next_conn S \<le> next_conn S'" "map_get (reverseTcpConnections S') (x_key x) = None"
    using proxy_cleanup_runs [OF assms(1), of S "x_conn x" "x_key x" "GenericError ''HTTP proxy request completed''"]
      assms(2) by (auto simp: session_side_def)
  then show ?thesis
    using False assms(2)
    by (simp add: cleanup_exchange_def reads_def cleaned_def seq_act_modify on_target_def inside_run session_side_def
        settled_def)
qed

text \<open>A handler that first changes the exchange and then cleans up.\<close>

lemma then_cleanup:
  assumes "config_ok cfg" "session_side (x, S)" "m (x, S) = (Inr (), (x', S))" "x_conn x' = x_conn x"
    and "x_key x' = x_key x" "finished x' = finished x"
    and "guarded (cleaned x')" "one_answer (cleaned x') cs" "receivedAny x' = (cs \<noteq> [])"
  shows "\<exists>s'. seq_act m (cleanup_exchange cfg) (x, S) = (Inr (), s') \<and> exchange_inv (s', cs)
    \<and> finished (fst s') \<and> settled x s'"
proof -
  have "session_side (x', S)" using assms(2,4) by (simp add: session_side_def)
  then obtain S' where "cleanup_exchange cfg (x', S) = (Inr (), (cleaned x', S'))" "session_side (cleaned x', S')"
    "settled x' (cleaned x', S')"
    using cleanup_runs [OF assms(1)] by blast
  then show ?thesis
    using assms(3,5-9) by (simp add: seq_act_Inr exchange_inv_def settled_def)
qed

text \<open>Cleaning up keeps what the client got, and the guard once a timer was armed.\<close>

lemma cleaned_guarded:
  "phase x = Relaying \<or> phase x = Writing_Head \<Longrightarrow> (finished x \<Longrightarrow> \<not> responseTimeout x) \<Longrightarrow>
   \<exists>d. upstream_writes x = [d] \<Longrightarrow> guarded (cleaned x)"
  by (auto simp: guarded_def cleaned_def split: exchange_phase.split)

lemma cleaned_answer: "one_answer x cs \<Longrightarrow> one_answer (cleaned x) cs"
  by (auto simp: one_answer_def cleaned_def split: if_splits)

text \<open>The answers of the timer, the end of the response and a failed stream.\<close>

lemma respond_runs:
  "\<not> headersSent x \<Longrightarrow> respond code text (x, S) =
     (Inr (), (x\<lparr>headersSent := True, client_log := client_log x @ [Error_Response code text]\<rparr>, S))"
  by (simp add: respond_def reads_def modify_def)

lemma end_client_runs:
  "end_client (x, S) = (Inr (), (if client_open x then x\<lparr>client_log := client_log x @ [Client_End]\<rparr> else x, S))"
  by (simp add: end_client_def reads_def modify_def whenever_def ret_def)

lemma fresh_log: "one_answer x [] \<Longrightarrow> \<not> headersSent x \<Longrightarrow> \<not> finished x \<Longrightarrow> client_log x = []"
  by (simp add: one_answer_def)

lemma last_answer:
  assumes "config_ok cfg" "session_side (x, S)" "one_answer x cs" "receivedAny x = (cs \<noteq> [])"
    and "phase x = Relaying \<or> phase x = Writing_Head" "\<not> finished x" "\<exists>d. upstream_writes x = [d]"
  shows "\<exists>s'. seq_act (answer_or_end code text) (cleanup_exchange cfg) (x, S) = (Inr (), s') \<and> exchange_inv (s', cs)
      \<and> finished (fst s') \<and> settled x s'"
proof (cases "receivedAny x \<or> headersSent x")
  case False
  let ?x = "x\<lparr>headersSent := True, client_log := client_log x @ [Error_Response code text]\<rparr>"
  have "client_log x = []" using False fresh_log assms(3,4,6) by simp
  then have "one_answer (cleaned ?x) cs" using False assms(4) by (simp add: one_answer_def cleaned_def)
  moreover have "guarded (cleaned ?x)" using assms(5-7) by (intro cleaned_guarded) simp_all
  ultimately have "\<exists>s'. seq_act (respond code text) (cleanup_exchange cfg) (x, S) = (Inr (), s') \<and> exchange_inv (s', cs)
      \<and> finished (fst s') \<and> settled x s'"
    using False assms(4) by (intro then_cleanup [where x' = ?x, OF assms(1,2)]) (simp_all add: respond_runs)
  then show ?thesis using False by (simp add: answer_or_end_def act_simps)
next
  case True
  let ?x = "if client_open x then x\<lparr>client_log := client_log x @ [Client_End]\<rparr> else x"
  have "\<not> headersSent x" using assms(3,5,6) by (auto simp: one_answer_def)
  then have "one_answer (cleaned ?x) cs" using assms(3,6) by (auto simp: one_answer_def cleaned_def)
  moreover have "guarded (cleaned ?x)" using assms(5-7) by (intro cleaned_guarded) (auto split: if_splits)
  ultimately have "\<exists>s'. seq_act end_client (cleanup_exchange cfg) (x, S) = (Inr (), s') \<and> exchange_inv (s', cs)
      \<and> finished (fst s') \<and> settled x s'"
    using assms(4) by (intro then_cleanup [where x' = ?x, OF assms(1,2)]) (simp_all add: end_client_runs)
  moreover have "answer_or_end code text (x, S) = end_client (x, S)"
    using True by (auto simp: answer_or_end_def act_simps)
  then have "seq_act (answer_or_end code text) (cleanup_exchange cfg) (x, S) = seq_act end_client (cleanup_exchange cfg) (x, S)"
    by (simp add: seq_act_def andthen_def)
  ultimately show ?thesis by simp
qed

lemma exchange_step_runs:
  assumes cfg: "gateway_ok cfg" and inv: "exchange_inv ((x, S), cs)" and ok: "timely (x, S) e"
  shows "\<exists>s'. exchange_step cfg e (x, S) = (Inr (), s') \<and> exchange_inv (s', cs @ chunk_of e)
    \<and> settled x s' \<and> (e = Timed_Out \<longrightarrow> finished (fst s'))"
proof -
  have c: "config_ok cfg" using cfg by (simp add: gateway_ok_def net_ok_def)
  have s: "session_side (x, S)" and g: "guarded x" and o: "one_answer x cs" and r: "receivedAny x = (cs \<noteq> [])"
    using inv by (simp_all add: exchange_inv_def)
  have g': "responseTimeout x = (\<not> finished x)" "\<exists>d. upstream_writes x = [d]" if "phase x = Relaying \<or> phase x = Writing_Head"
    using g that by (auto simp: guarded_def)
  have cl: "\<exists>s'. cleanup_exchange cfg (x, S) = (Inr (), s') \<and> exchange_inv (s', cs) \<and> settled x s'" if "phase x = Relaying"
  proof -
    have "guarded (cleaned x)" using that g' by (intro cleaned_guarded) simp_all
    then show ?thesis
      using cleanup_runs [OF c s] cleaned_answer [OF o] r by (auto simp: exchange_inv_def)
  qed
  have sf: "\<exists>s'. stream_failed cfg (x, S) = (Inr (), s') \<and> exchange_inv (s', cs) \<and> settled x s'"
    if "phase x = Relaying" "receivedAny x \<longrightarrow> finished x"
  proof (cases "finished x \<or> headersSent x")
    case True
    then have "stream_failed cfg (x, S) = cleanup_exchange cfg (x, S)"
      by (auto simp: stream_failed_def reads_def whenever_def seq_act_def andthen_def ret_def)
    then show ?thesis using cl that(1) by simp
  next
    case False
    then have "stream_failed cfg (x, S) = seq_act (answer_or_end 502 ''Bad Gateway'') (cleanup_exchange cfg) (x, S)"
      using that(2) by (simp add: stream_failed_def answer_or_end_def reads_def whenever_def seq_act_def andthen_def)
    moreover have "phase x = Relaying \<or> phase x = Writing_Head" "\<not> finished x" "\<exists>d. upstream_writes x = [d]"
      using that(1) g' False by simp_all
    note last_answer [OF c s o r this, of 502 "''Bad Gateway''"]
    ultimately show ?thesis by metis
  qed
  have timer_off: "session_side (x\<lparr>responseTimeout := False\<rparr>, S)" "one_answer (x\<lparr>responseTimeout := False\<rparr>) cs"
    using s o by (simp_all add: session_side_def one_answer_def)
  show ?thesis
  proof (cases e)
    case (Connected d a)
    then show ?thesis using ok s g o r
      by (auto simp: timely_def begin_relaying_def resetTimeout_def seq_act_modify modify_run exchange_inv_def session_side_def
          guarded_def one_answer_def settled_def)
  next
    case Connect_Failed
    then show ?thesis using ok s g o r
      by (auto simp: timely_def connect_failed_def respond_def seq_act_modify reads_def modify_run exchange_inv_def
          session_side_def guarded_def one_answer_def settled_def)
  next
    case Drained
    then show ?thesis using ok s g o r
      by (auto simp: timely_def modify_run exchange_inv_def session_side_def guarded_def one_answer_def settled_def)
  next
    case Timed_Out
    then have "phase x = Relaying \<or> phase x = Writing_Head" "\<not> finished x"
      using ok g by (auto simp: timely_def guarded_def split: exchange_phase.splits)
    then show ?thesis
      using last_answer [OF c timer_off, of 504 "''Gateway Timeout''"] g'(2) r Timed_Out
      by (auto simp: response_timed_out_def seq_act_modify settled_def)
  next
    case (Chunk d)
    then have p: "phase x = Relaying" "\<not> finished x" using ok by (simp_all add: timely_def)
    let ?x = "x\<lparr>receivedAny := True, responseTimeout := True,
      client_log := (if client_open x then client_log x @ [Raw d] else client_log x)\<rparr>"
    have "\<not> headersSent x" using o p by (auto simp: one_answer_def)
    then obtain k where k: "k \<le> length cs" "client_open x \<longrightarrow> k = length cs" "client_log x = map Raw (take k cs)"
      using o p by (auto simp: one_answer_def)
    let ?k = "if client_open x then length (cs @ [d]) else k"
    have "client_log ?x = map Raw (take ?k (cs @ [d]))" using k by auto
    then have "one_answer ?x (cs @ [d])"
      using \<open>\<not> headersSent x\<close> k(1) unfolding one_answer_def by (intro if_not_P [THEN iffD2] exI [of _ ?k]) auto
    then have "exchange_inv ((?x, S), cs @ [d])"
      using s g p by (simp add: exchange_inv_def session_side_def guarded_def)
    moreover have "exchange_step cfg e (x, S) = (Inr (), (?x, S))"
      by (simp add: Chunk response_chunk_def resetTimeout_def seq_act_modify modify_run)
    ultimately show ?thesis using p by (simp add: Chunk settled_def)
  next
    case Response_End
    then have "phase x = Relaying" "\<not> finished x" using ok by (simp_all add: timely_def)
    then show ?thesis
      using last_answer [OF c timer_off, of 502 "''Bad Gateway: No response from VM''"] g'(2) r Response_End
      by (auto simp: response_end_def seq_act_modify settled_def)
  next
    case Client_Gone
    then show ?thesis using s g o r
      by (auto simp: modify_run exchange_inv_def session_side_def guarded_def one_answer_def settled_def split: exchange_phase.split)
  next
    case (Session_Event e')
    then have ev: "event_ok S e'" using ok by (simp add: timely_def)
    have "sound S" using s by (simp add: session_side_def)
    then have "outcome (session_step cfg e') S = Inr ()" "sound (after_event cfg S e')"
      "next_conn S \<le> next_conn (after_event cfg S e')"
      using step_evolves [OF cfg _ ev] by (auto simp: evolves_def)
    then show ?thesis
      using Session_Event s g o r
      by (simp add: on_target_def inside_run after_event_def exchange_inv_def session_side_def settled_def)
  qed (use ok cl sf in \<open>auto simp: timely_def\<close>)
qed

definition watch_ok :: "served \<times> bytes list \<Rightarrow> exchange_event \<Rightarrow> bool" where
  "watch_ok w e = timely (fst w) e"

lemma watch_inv: "gateway_ok cfg \<Longrightarrow> exchange_inv w \<Longrightarrow> watch_ok w e \<Longrightarrow> exchange_inv (watch cfg w e)"
  using exchange_step_runs [of cfg "fst (fst w)" "snd (fst w)" "snd w" e]
  by (auto simp: watch_def watch_ok_def after_exchange_def)

interpretation exchanges: machine watch_ok "watch cfg" "\<lambda>w. gateway_ok cfg \<and> exchange_inv w" for cfg
  by unfold_locales (simp add: watch_inv)

lemma watch_run:
  "run (watch cfg) (s, cs) es = (run (after_exchange cfg) s es, cs @ concat (map chunk_of es))"
  by (induction es arbitrary: s cs) (simp_all add: watch_def)

lemma watch_admissible:
  "admissible watch_ok (watch cfg) (s, cs) es = admissible timely (after_exchange cfg) s es"
  by (induction es arbitrary: s cs) (simp_all add: watch_def watch_ok_def)

lemma new_exchange_inv:
  assumes "sound S" "cid < next_conn S"
  shows "exchange_inv ((new_exchange key cid, S), [])"
  using assms by (simp add: exchange_inv_def session_side_def guarded_def one_answer_def new_exchange_def)

text \<open>The state of an exchange anywhere in a run, and its next step.\<close>

lemma exchange_run_inv:
  assumes "gateway_ok cfg" "sound S" "cid < next_conn S"
    and "admissible timely (after_exchange cfg) (new_exchange key cid, S) es"
  shows "exchange_inv (run (after_exchange cfg) (new_exchange key cid, S) es, concat (map chunk_of es))"
  using exchanges.run_inv [of cfg "((new_exchange key cid, S), [])" es] assms new_exchange_inv
  by (simp add: watch_run watch_admissible)

lemma exchange_next:
  assumes "gateway_ok cfg" "sound S" "cid < next_conn S"
    and "admissible timely (after_exchange cfg) (new_exchange key cid, S) (es @ [e])"
  shows "exchange_inv (run (after_exchange cfg) (new_exchange key cid, S) es, concat (map chunk_of es))"
    and "outcome (exchange_step cfg e) (run (after_exchange cfg) (new_exchange key cid, S) es) = Inr ()"
    and "settled (fst (run (after_exchange cfg) (new_exchange key cid, S) es))
      (run (after_exchange cfg) (new_exchange key cid, S) (es @ [e]))"
    and "e = Timed_Out \<Longrightarrow> finished (fst (run (after_exchange cfg) (new_exchange key cid, S) (es @ [e])))"
proof -
  let ?s = "run (after_exchange cfg) (new_exchange key cid, S) es"
  show inv: "exchange_inv (?s, concat (map chunk_of es))"
    by (rule exchange_run_inv [OF assms(1-3)]) (use assms(4) in simp)
  then obtain s' where "exchange_step cfg e ?s = (Inr (), s')" "settled (fst ?s) s'" "e = Timed_Out \<longrightarrow> finished (fst s')"
    using exchange_step_runs [OF assms(1), of "fst ?s" "snd ?s" "concat (map chunk_of es)" e] assms(4) by auto
  then show "outcome (exchange_step cfg e) ?s = Inr ()"
    "settled (fst ?s) (run (after_exchange cfg) (new_exchange key cid, S) (es @ [e]))"
    "e = Timed_Out \<Longrightarrow> finished (fst (run (after_exchange cfg) (new_exchange key cid, S) (es @ [e])))"
    by (simp_all add: after_exchange_def)
qed

lemma exchange_key:
  assumes "gateway_ok cfg" "sound S" "cid < next_conn S"
  shows "admissible timely (after_exchange cfg) (new_exchange key cid, S) es \<Longrightarrow>
    x_key (fst (run (after_exchange cfg) (new_exchange key cid, S) es)) = key"
proof (induction es rule: rev_induct)
  case (snoc e es)
  then show ?case using exchange_next(3) [OF assms snoc.prems] by (simp add: settled_def)
qed (simp add: new_exchange_def)

section \<open>Properties\<close>


text \<open>A request of which the head is written, a chunk comes back and the VM ends the response.\<close>

lemma example_exchange:
  assumes "exchange_ok (x, S) (Connected req True)" "\<not> finished x"
  shows "admissible timely (after_exchange cfg) (x, S) ([Connected req True, Chunk d] @ [Response_End])"
  using assms by (simp add: timely_def after_exchange_def begin_relaying_def response_chunk_def resetTimeout_def
      seq_act_modify modify_run)




text \<open>
  A stream that fails after the first byte: its handler, unlike the others, does not ask whether
  something came from the VM, and writes a second head after the raw bytes.
\<close>

lemma late_failure_writes_a_head:
  assumes "config_ok cfg" "session_side (x, S)" "\<not> finished x" "\<not> headersSent x"
  shows "client_log (fst (exec (stream_failed cfg) (x, S))) = client_log x @ [Error_Response 502 ''Bad Gateway'']"
proof -
  let ?x = "x\<lparr>headersSent := True, client_log := client_log x @ [Error_Response 502 ''Bad Gateway'']\<rparr>"
  have "session_side (?x, S)" using assms(2) by (simp add: session_side_def)
  then obtain S' where "cleanup_exchange cfg (?x, S) = (Inr (), (cleaned ?x, S'))"
    using cleanup_runs [OF assms(1)] by blast
  then show ?thesis
    using assms(3,4) by (simp add: stream_failed_def act_simps respond_runs seq_act_def andthen_def cleaned_def)
qed

end
