(* ===== verification/Relay_Run.thy ===== *)
theory Relay_Run
  imports Proxy_Exchange Admin_Http Proxy_Forwards
begin

text \<open>
  The whole relay as one machine: frames of the VMs, the events inside their sessions, the host
  side of the forwards, sessions that open and close, and the admin interface. What a frame can do
  to the relay is stated once, as a locale, and instantiated for each invariant.
\<close>

section \<open>What a frame does\<close>

lemma keeps_inside:
  assumes "\<And>s. P s \<Longrightarrow> P (upd (exec m (view s)) s)"
  shows "keeps P (inside view upd m)"
  using assms by (simp add: keeps_def inside_run)

lemma keeps_or_return [keeps_intros]:
  assumes "keeps P m" "\<And>a. keeps P (k a)"
  shows "keeps P (or_return m k)"
proof (rule keepsI)
  fix R assume "P R"
  then have "P (exec m R)" using assms(1) by (rule keepsD [rotated])
  then show "P (exec (or_return m k) R)"
    using assms(2) by (auto simp: or_return_def keeps_def split: prod.split sum.split)
qed

text \<open>Actions of a session that keep the invariant of its connections.\<close>

lemma evolving_keeps: "evolving isn m \<Longrightarrow> keeps sound m"
  by (auto simp: evolving_def keeps_def evolves_def)

lemma link_keeps: "keeps sound (on_session_link m)"
  unfolding on_session_link_def
  by (rule keeps_inside) (erule inv_same, simp_all add: tables_def)

lemma modify_keeps: "(\<And>S. tables (f S) = tables S \<and> conns (f S) = conns S) \<Longrightarrow> keeps sound (modify f)"
  by (rule keeps_modify) (blast intro: inv_same)

text \<open>
  What the frame handler of session \<open>sid\<close> does by itself: to its own session, to the pool and to the
  host sockets. A predicate that these keep is kept by ARP, DHCP, UDP and everything bound for the
  Internet.
\<close>

locale frame_owner =
  fixes P :: "relay \<Rightarrow> bool" and cfg :: config and sid :: nat
  assumes own: "keeps sound m \<Longrightarrow> keeps P (with_session sid (m :: (session, unit) act))"
    and pooled: "keeps P (allocate cfg mac)"
    and adopted: "keeps P (modify (adopt_ip sid ip))"
    and to_host: "keeps P (modify (\<lambda>R. R\<lparr>hostDatagrams := hostDatagrams R @ ds\<rparr>))"
begin

lemma own_link: "keeps P (with_link sid (m :: (link, unit) act))"
  unfolding with_link_def by (rule own [OF link_keeps])

lemma own_modify:
  "(\<And>S. tables (f S) = tables S \<and> conns (f S) = conns S) \<Longrightarrow> keeps P (modify (upd_session sid f))"
  using own [OF modify_keeps, of f]
  by (simp add: keeps_def with_session_def inside_run modify_run upd_session_def)

lemma arp: "keeps P (handleARP cfg sid p)"
  unfolding handleARP_def arp_assign_def arp_answer_def Let_def
  by (intro keeps_intros pooled adopted own_link)

lemma dhcp: "keeps P (handleDHCP cfg sid udp)"
  unfolding handleDHCP_def
  by (intro keeps_intros pooled adopted own_link)

lemma flow: "keeps P (forward_udp env sid parsed d b)"
  unfolding forward_udp_def by (rule own_modify) (simp add: tables_def)

lemma udp: "keeps P (handleUDP cfg env sid parsed)"
  unfolding handleUDP_def trace_dns_query_def
  by (intro keeps_intros dhcp flow to_host) (auto intro!: keeps_intros split: option.split sum.split)

lemma internet:
  assumes "net_ok cfg" "parseIPv4Packet raw = Some parsed"
  shows "keeps P (internet_bound cfg env sid parsed)"
proof -
  have "config_ok cfg" using assms(1) by (simp add: net_ok_def)
  then have "keeps sound (handleTCP cfg parsed (e_isn env))"
    using evolving_keeps evolving_handleTCP [OF assms] by blast
  then show ?thesis
    unfolding internet_bound_def by (intro keeps_intros own_link udp own)
qed

lemma reverse:
  assumes "net_ok cfg" "parseIPv4Packet raw = Some parsed"
  shows "keeps P (with_session sid (handleReverseTCP cfg parsed))"
proof -
  have "config_ok cfg" using assms(1) by (simp add: net_ok_def)
  then show ?thesis using evolving_keeps evolving_handleReverseTCP [OF _ assms(2)] own by blast
qed

lemma received: "keeps P (modify (upd_session sid (\<lambda>S. S\<lparr>bytesReceived := bytesReceived S + n\<rparr>)))"
  "keeps P (modify (upd_session sid (learn_mac mac)))"
  by (rule own_modify; simp add: tables_def learn_mac_def set_link_def)+

end

text \<open>With the delivery of a packet to another session, if VMs may reach each other: any frame.\<close>

locale frame_invariant = frame_owner +
  assumes delivered: "ENABLE_VM_TO_VM cfg \<Longrightarrow> keeps P (with_link other (sendIPToVM cfg p))"
begin

lemma ipv4:
  assumes "net_ok cfg"
  shows "keeps P (handleIPv4 cfg env sid raw)"
proof (cases "parseIPv4Packet raw")
  case None
  then show ?thesis by (simp add: handleIPv4_def keeps_ret)
next
  case (Some parsed)
  show ?thesis
    unfolding handleIPv4_def Some option.case Let_def broadcast_def
    by (intro keeps_intros reverse [OF assms Some] internet [OF assms Some]) (auto intro!: keeps_intros delivered)
qed

lemma frame:
  assumes "net_ok cfg"
  shows "keeps P (handleEthernetFrame cfg env sid f)"
  unfolding handleEthernetFrame_def
  by (intro keeps_intros received arp ipv4 assms)

end


text \<open>The invariants a frame keeps, each an instance.\<close>

definition all_sound :: "relay \<Rightarrow> bool" where
  "all_sound R \<longleftrightarrow> (\<forall>sid < next_session R. sound (session_of R sid))"

definition pool_sound :: "config \<Rightarrow> relay \<Rightarrow> bool" where
  "pool_sound cfg R \<longleftrightarrow> pool_ok cfg (pool R) \<and> dhcp.exclusive (pool R)"

text \<open>The parts of the relay that only sessions coming and going and the host side change.\<close>

definition registry :: "relay \<Rightarrow> (string, nat) jsmap \<times> (nat \<Rightarrow> string \<times> string) \<times> (string, nat) jsmap \<times> nat \<times> nat" where
  "registry R = (activeSessions R, closure R, connectionsPerIP R, next_session R, nextProxyPort R)"

lemma registry_simps [simp]:
  "registry (upd_session sid f R) = registry R" "registry (R\<lparr>pool := p\<rparr>) = registry R"
  "registry (R\<lparr>hostDatagrams := d\<rparr>) = registry R" "registry (R\<lparr>proxy := q\<rparr>) = registry R"
  by (simp_all add: registry_def upd_session_def)

lemma upd_session_simps [simp]:
  "pool (upd_session sid f R) = pool R" "proxy (upd_session sid f R) = proxy R"
  "next_session (upd_session sid f R) = next_session R"
  "session_of (upd_session sid f R) other = (if other = sid then f (session_of R sid) else session_of R other)"
  by (simp_all add: upd_session_def)

lemma register_pool [simp]:
  "pool_ok cfg (register_session ip sid p) = pool_ok cfg p" "dhcp.exclusive (register_session ip sid p) = dhcp.exclusive p"
  by (simp_all add: register_session_def pool_ok_def leased_octets_def dhcp.exclusive_def)

lemma keeps_with_session:
  assumes "keeps sound m"
  shows "keeps all_sound (with_session sid m)"
  unfolding with_session_def
  using assms by (intro keeps_inside) (auto simp: all_sound_def keeps_def)

interpretation sound_frames: frame_invariant all_sound cfg sid for cfg sid
proof
  fix m :: "(session, unit) act" and mac ip ds other p
  show "keeps sound m \<Longrightarrow> keeps all_sound (with_session sid m)" by (rule keeps_with_session)
  show "keeps all_sound (allocate cfg mac)"
    unfolding allocate_def by (intro keeps_inside) (simp add: all_sound_def)
  show "keeps all_sound (modify (adopt_ip sid ip))"
    by (intro keeps_modify) (auto simp: all_sound_def adopt_ip_def tables_def elim!: inv_same)
  show "keeps all_sound (modify (\<lambda>R. R\<lparr>hostDatagrams := hostDatagrams R @ ds\<rparr>))"
    by (intro keeps_modify) (simp add: all_sound_def)
  show "keeps all_sound (with_link other (sendIPToVM cfg p))"
    unfolding with_link_def by (intro keeps_with_session link_keeps)
qed

interpretation registry_frames: frame_invariant "\<lambda>R. registry R = v" cfg sid for v cfg sid
  by unfold_locales (simp_all add: keeps_def with_link_def with_session_def allocate_def adopt_ip_def inside_run modify_run)

interpretation pool_frames: frame_invariant "pool_sound cfg" cfg sid for cfg sid
proof
  fix m :: "(session, unit) act" and mac ip ds other p
  show "keeps (pool_sound cfg) (allocate cfg mac)"
    unfolding allocate_def
    by (intro keeps_inside) (simp add: pool_sound_def allocate_ok dhcp.acquire_exclusive [where cfg = cfg])
qed (simp_all add: keeps_def with_link_def with_session_def adopt_ip_def inside_run modify_run pool_sound_def)


section \<open>The machine\<close>

datatype relay_event =
    Frame nat frame_env bytes
  | In_Session nat session_event
  | Udp_Response nat nat bytes string nat
  | Host_Datagram nat string nat bytes string nat "nat list"
  | Connect ws_lib string string
  | Text_Message nat string
  | Close nat
  | Open_To_VM string nat u32
  | Cleanup nat nat nat js_error
  | Admin_Request admin_lib admin_req
  | Forward_Socket forward_event

fun relay_step :: "config \<Rightarrow> relay_event \<Rightarrow> (relay, unit) act" where
  "relay_step cfg (Frame sid env frame) = handleEthernetFrame cfg env sid frame"
| "relay_step cfg (In_Session sid e) = with_session sid (session_step cfg e)"
| "relay_step cfg (Udp_Response sid fid payload address port) =
     modify (upd_session sid (udp_response cfg fid payload address port))"
| "relay_step cfg (Host_Datagram ruleId vm vmPort msg address port draws) =
     host_message cfg ruleId vm vmPort msg address port draws"
| "relay_step cfg (Connect lib ip uuid) = ignore (on_connection cfg lib ip uuid)"
| "relay_step cfg (Text_Message sid str) = modify (on_text sid str)"
| "relay_step cfg (Close sid) = modify (on_close sid)"
| "relay_step cfg (Open_To_VM vm port isn) = modify (\<lambda>R. snd (connect_vm cfg vm port isn R))"
| "relay_step cfg (Cleanup sid key cid err) = with_session sid (proxy_cleanup cfg key cid err)"
| "relay_step cfg (Admin_Request lib rq) = ignore (admin_request lib rq)"
| "relay_step cfg (Forward_Socket e) = modify (\<lambda>R. R\<lparr>proxy := forward_step (proxy R) e\<rparr>)"

definition after_relay :: "config \<Rightarrow> relay \<Rightarrow> relay_event \<Rightarrow> relay" where
  "after_relay cfg R e = exec (relay_step cfg e) R"

text \<open>
  What the runtime guarantees: a session id is new; a WebSocket closes once; the events inside a
  session are those of its timers, sockets and streams (the others come through the relay); a VM port
  fits a TCP header; a cleanup belongs to a connection that was made.
\<close>

fun internal :: "session_event \<Rightarrow> bool" where
  "internal (From_VM raw isn) = False"
| "internal (Open_Reverse port isn next) = False"
| "internal (Adopt_IP ip) = False"
| "internal (Learn_MAC mac) = False"
| "internal Close_Session = False"
| "internal _ = True"

fun relay_ok :: "relay \<Rightarrow> relay_event \<Rightarrow> bool" where
  "relay_ok R (In_Session sid e) = (sid < next_session R \<and> internal e \<and> event_ok (session_of R sid) e)"
| "relay_ok R (Connect lib ip uuid) = (\<not> map_has (activeSessions R) uuid)"
| "relay_ok R (Close sid) = (map_get (activeSessions R) (snd (closure R sid)) = Some sid)"
| "relay_ok R (Open_To_VM vm port isn) = (port \<le> 65535)"
| "relay_ok R (Cleanup sid key cid err) = (sid < next_session R \<and> cid < next_conn (session_of R sid))"
| "relay_ok R _ = True"

definition at_start :: "relay \<Rightarrow> bool" where
  "at_start R \<longleftrightarrow> pool R = new_address_pool \<and> next_session R = 0 \<and> activeSessions R = []
     \<and> connectionsPerIP R = [] \<and> nextProxyPort R = 30000 \<and> proxy R = new_proxy \<and> hostDatagrams R = []"

definition service_ok :: "config \<Rightarrow> bool" where
  "service_ok cfg \<longleftrightarrow> gateway_ok cfg \<and> 1 \<le> MAX_UDP_FLOWS_PER_SESSION cfg \<and> 0 < UDP_FLOW_IDLE_TIMEOUT_MS cfg
     \<and> 0 < RATE_LIMIT_BPS cfg"

lemma new_session_made:
  assumes "service_ok cfg"
  shows "\<exists>S. new_session cfg lib ip = Inr S"
  using assms by (simp add: service_ok_def new_session_def bind_result_def new_udp_manager_def new_rate_limiter_def
      isInteger_def isFinite_def)

section \<open>All sessions stay sound\<close>

lemma ports_stay:
  "30000 \<le> nxt \<Longrightarrow> nxt \<le> 65535 \<Longrightarrow> 30000 \<le> snd (pick_port n taken nxt) \<and> snd (pick_port n taken nxt) \<le> 65535"
  by (induction n arbitrary: nxt) (simp_all add: Let_def)

lemma createTCPConnection_next:
  "fst (createTCPConnection cfg port isn nxt S) = snd (pick_port 1000 (port_taken S) nxt)"
  by (auto simp: createTCPConnection_def Let_def split: prod.split option.split sum.split)

lemma keeps_sound_parts:
  "keeps sound (forwardUdpPacket cfg payload vmPort address port ruleId ephemeralPort)"
  "tables (udp_response cfg fid payload address port S) = tables S"
  "conns (udp_response cfg fid payload address port S) = conns S"
proof -
  show "keeps sound (forwardUdpPacket cfg payload vmPort address port ruleId ephemeralPort)"
    unfolding forwardUdpPacket_def
    by (intro keeps_intros link_keeps modify_keeps) (simp_all add: tables_def add_task_def)
  show "tables (udp_response cfg fid payload address port S) = tables S"
    "conns (udp_response cfg fid payload address port S) = conns S"
    by (simp_all add: udp_response_def on_session_link_def inside_run Let_def tables_def split: option.split)
qed

lemma event_sound:
  assumes "gateway_ok cfg" "all_sound R" "sid < next_session R" "event_ok (session_of R sid) e"
  shows "all_sound (exec (with_session sid (session_step cfg e)) R)"
proof -
  have "sound (after_event cfg (session_of R sid) e)"
    using assms step_evolves(3) by (simp add: all_sound_def)
  then show ?thesis
    using assms(2) by (simp add: with_session_def inside_run all_sound_def after_event_def)
qed

lemma connect_vm_sound:
  assumes "gateway_ok cfg" "all_sound R" "port \<le> 65535" "nextProxyPort R \<le> 65535"
  shows "all_sound (snd (connect_vm cfg vm port isn R))"
proof (cases "map_get (ipToSession (pool R)) vm")
  case None
  then show ?thesis using assms(2) by (simp add: connect_vm_def)
next
  case (Some sid)
  obtain gb where "net_ok cfg" "ipv4Bytes (AddrString (GATEWAY_IP cfg)) = Inr gb"
    using assms(1) by (auto simp: gateway_ok_def)
  then have "sound (snd (snd (createTCPConnection cfg port isn (nextProxyPort R) (session_of R sid))))"
    if "sid < next_session R"
    using that evolves_createTCPConnection [of cfg gb port "nextProxyPort R" "session_of R sid" isn] assms(2-4)
    by (auto simp: evolves_def all_sound_def)
  then show ?thesis
    using Some assms(2) by (auto simp: connect_vm_def all_sound_def split: prod.split)
qed


lemma cleanup_sound:
  assumes "config_ok cfg" "all_sound R" "sid < next_session R" "cid < next_conn (session_of R sid)"
  shows "all_sound (exec (with_session sid (proxy_cleanup cfg key cid err)) R)"
proof -
  have "sound (session_of R sid)" using assms(2,3) by (simp add: all_sound_def)
  then obtain S' where "proxy_cleanup cfg key cid err (session_of R sid) = (Inr (), S')" "sound S'"
    using proxy_cleanup_runs [OF assms(1) _ assms(4)] by blast
  then show ?thesis using assms(2) by (simp add: with_session_def inside_run all_sound_def)
qed

lemma host_sound: "keeps all_sound (host_message cfg ruleId vm vmPort msg address port draws)"
  unfolding host_message_def
  by (intro keeps_intros keeps_with_session keeps_sound_parts)

lemma connection_sound: "keeps all_sound (on_connection cfg lib ip uuid)"
proof (rule keepsI)
  fix R assume R: "all_sound R"
  show "all_sound (exec (on_connection cfg lib ip uuid) R)"
    using R new_session_sound(1) [of cfg lib ip]
    by (auto simp: on_connection_def reads_def andthen_def modify_def ret_def lift_result_def count_connection_def
        all_sound_def less_Suc_eq split: sum.split)
qed

lemma admin_sound: "keeps all_sound (admin_request lib rq)"
proof -
  have "keeps all_sound (set_nickname lib sessionId body)" for sessionId body
    unfolding set_nickname_def
    by (intro keeps_intros keeps_modify) (auto simp: all_sound_def tables_def elim!: inv_same)
  moreover have "keeps all_sound (on_proxy m)" for m :: "(proxy_state, admin_res) act"
    unfolding on_proxy_def by (intro keeps_inside) (simp add: all_sound_def)
  ultimately show ?thesis
    unfolding admin_request_def Let_def by (intro keeps_intros)
qed

lemma close_sound: "all_sound R \<Longrightarrow> all_sound (on_close sid R)"
  using evolves_close_session [where isn = 0]
  by (auto simp: on_close_def Let_def count_connection_def all_sound_def evolves_def split: prod.split option.split)

lemma text_sound: "all_sound R \<Longrightarrow> all_sound (on_text sid str R)"
  by (auto simp: on_text_def all_sound_def tables_def set_link_def elim!: inv_same)

lemma relay_step_sound:
  assumes "gateway_ok cfg" "all_sound R" "relay_ok R e" "nextProxyPort R \<le> 65535"
  shows "all_sound (after_relay cfg R e)"
proof -
  have c: "net_ok cfg" "config_ok cfg" using assms(1) by (simp_all add: gateway_ok_def net_ok_def)
  show ?thesis
  proof (cases e)
    case (Udp_Response sid fid payload address port)
    then show ?thesis using assms(2) keeps_sound_parts(2,3)
      by (auto simp: after_relay_def modify_run all_sound_def elim!: inv_same)
  qed (use assms c in \<open>auto simp: after_relay_def modify_run ignore_run text_sound close_sound connect_vm_sound event_sound cleanup_sound
      intro: keepsD [OF sound_frames.frame] keepsD [OF host_sound] keepsD [OF connection_sound] keepsD [OF admin_sound]
      simp: all_sound_def [of "_\<lparr>proxy := _\<rparr>"] all_sound_def [symmetric]\<close>)
qed


section \<open>Sessions come and go\<close>

text \<open>
  The count of an address is the number of its open sessions, at most the limit; every session is
  entered under the id its handlers close over; and the proxy ports stay in their range.
\<close>

definition from_ip :: "relay \<Rightarrow> string \<Rightarrow> (string \<times> nat) list" where
  "from_ip R ip = filter (\<lambda>(uuid, sid). fst (closure R sid) = ip) (activeSessions R)"

definition registry_ok :: "config \<Rightarrow> relay \<Rightarrow> bool" where
  "registry_ok cfg R \<longleftrightarrow> distinct (map fst (activeSessions R))
     \<and> (\<forall>(uuid, sid) \<in> set (activeSessions R). sid < next_session R \<and> snd (closure R sid) = uuid)
     \<and> (\<forall>ip. connections_from R ip = length (from_ip R ip))
     \<and> (\<forall>ip. int (connections_from R ip) \<le> max 0 (MAX_CONNECTIONS_PER_IP cfg))
     \<and> 30000 \<le> nextProxyPort R \<and> nextProxyPort R \<le> 65535"

lemma registry_ok_same: "registry R' = registry R \<Longrightarrow> registry_ok cfg R' = registry_ok cfg R"
  by (simp add: registry_def registry_ok_def from_ip_def connections_from_def)

lemma registry_same:
  "registry (exec (with_session sid m) R) = registry R" "registry (exec (admin_request lib rq) R) = registry R"
  "registry (on_text sid str R) = registry R"
  "registry (exec (host_message cfg ruleId vm vmPort msg address port draws) R) = registry R"
proof -
  show "registry (exec (with_session sid m) R) = registry R"
    by (simp add: with_session_def inside_run)
  show "registry (on_text sid str R) = registry R" by (simp add: on_text_def)
  show "registry (exec (host_message cfg ruleId vm vmPort msg address port draws) R) = registry R"
    by (auto simp: host_message_def reads_def ret_def with_session_def inside_run split: option.split)
  have "keeps (\<lambda>R. registry R = v) (on_proxy m)" for v and m :: "(proxy_state, admin_res) act"
    unfolding on_proxy_def by (intro keeps_inside) simp
  moreover have "keeps (\<lambda>R. registry R = v) (set_nickname lib sessionId body)" for v sessionId body
    unfolding set_nickname_def by (intro keeps_intros keeps_modify) simp
  ultimately have "keeps (\<lambda>R'. registry R' = registry R) (admin_request lib rq)"
    unfolding admin_request_def Let_def by (intro keeps_intros)
  then show "registry (exec (admin_request lib rq) R) = registry R" by (simp add: keeps_def)
qed

lemma connect_registry:
  assumes "service_ok cfg" "registry_ok cfg R" "\<not> map_has (activeSessions R) uuid"
  shows "registry_ok cfg (exec (on_connection cfg lib ip uuid) R)"
proof (cases "int (connections_from R ip) \<ge> MAX_CONNECTIONS_PER_IP cfg")
  case True
  then show ?thesis using assms(2) by (simp add: on_connection_def reads_def ret_def)
next
  case False
  obtain S where "new_session cfg lib ip = Inr S" using new_session_made [OF assms(1)] by blast
  let ?R = "(count_connection ip (connections_from R ip + 1) R)\<lparr>session_of := (session_of R)(next_session R := S),
      next_session := next_session R + 1, activeSessions := activeSessions R @ [(uuid, next_session R)],
      closure := (closure R)(next_session R := (ip, uuid))\<rparr>"
  have fresh: "uuid \<notin> fst ` set (activeSessions R)"
    using assms(3) by (simp add: map_has_def map_of_eq_None_iff)
  have "exec (on_connection cfg lib ip uuid) R = ?R"
    using False \<open>new_session cfg lib ip = Inr S\<close> fresh
    by (simp add: on_connection_def reads_def andthen_def modify_def ret_def lift_result_def count_connection_def map_set_fresh)
  moreover have "from_ip ?R ip' = (if ip' = ip then from_ip R ip @ [(uuid, next_session R)] else from_ip R ip')" for ip'
    using assms(2) by (auto simp: from_ip_def registry_ok_def count_connection_def intro!: filter_cong)
  moreover have "connections_from ?R ip' = (if ip' = ip then connections_from R ip + 1 else connections_from R ip')" for ip'
    by (simp add: connections_from_def count_connection_def)
  ultimately show ?thesis
    using assms(2) False fresh by (auto simp: registry_ok_def count_connection_def)
qed

lemma close_registry:
  assumes "registry_ok cfg R" "map_get (activeSessions R) (snd (closure R sid)) = Some sid"
  shows "registry_ok cfg (on_close sid R)"
proof -
  obtain ip uuid where c: "closure R sid = (ip, uuid)" by fastforce
  let ?R = "on_close sid R"
  have f: "activeSessions ?R = map_delete uuid (activeSessions R)" "closure ?R = closure R"
    "next_session ?R = next_session R" "nextProxyPort ?R = nextProxyPort R"
    "connectionsPerIP ?R = map_set ip (connections_from R ip - 1) (connectionsPerIP R)"
    using c by (simp_all add: on_close_def Let_def count_connection_def upd_session_def split: option.split)
  have d: "distinct (map fst (activeSessions R))" using assms(1) by (simp add: registry_ok_def)
  have mem: "(uuid, sid) \<in> set (activeSessions R)" using assms(2) c by (simp add: map_of_SomeD)
  have only: "snd r = sid" if "r \<in> set (activeSessions R)" "fst r = uuid" for r
    using that mem d by (metis eq_key_imp_eq_value prod.collapse)
  obtain xs ys where xs: "activeSessions R = xs @ (uuid, sid) # ys" using mem by (auto simp: in_set_conv_decomp)
  then have un: "uuid \<notin> fst ` set xs" "uuid \<notin> fst ` set ys" using d by auto
  then have a: "activeSessions ?R = xs @ ys"
    unfolding f(1) xs map_delete_filter by (auto simp: filter_empty_conv intro!: arg_cong2 [where f = append] filter_True)
  have "from_ip ?R ip' = filter (\<lambda>(u, s). fst (closure R s) = ip') (xs @ ys)" for ip'
    by (simp add: from_ip_def a f(2))
  then have len: "length (from_ip R ip') = length (from_ip ?R ip') + (if ip' = ip then 1 else 0)" for ip'
    using c by (simp add: from_ip_def xs)
  have counts: "connections_from ?R ip' = (if ip' = ip then connections_from R ip - 1 else connections_from R ip')" for ip'
    by (simp add: connections_from_def f(5))
  have before: "connections_from R ip' = length (from_ip R ip')"
    "int (connections_from R ip') \<le> max 0 (MAX_CONNECTIONS_PER_IP cfg)" for ip'
    using assms(1) unfolding registry_ok_def by blast+
  have "connections_from ?R ip' = length (from_ip ?R ip')" for ip'
    using counts len before(1) by auto
  moreover have "connections_from ?R ip' \<le> connections_from R ip'" for ip' by (simp add: counts)
  then have "int (connections_from ?R ip') \<le> max 0 (MAX_CONNECTIONS_PER_IP cfg)" for ip'
    using before(2) [of ip'] by (meson of_nat_le_iff order_trans)
  moreover have "distinct (map fst (activeSessions ?R))" "set (activeSessions ?R) \<subseteq> set (activeSessions R)"
    using a xs d by auto
  ultimately show ?thesis
    using assms(1) unfolding registry_ok_def f(2-4) by auto
qed


lemma connect_vm_registry:
  assumes "registry_ok cfg R"
  shows "registry_ok cfg (snd (connect_vm cfg vm port isn R))"
proof (cases "map_get (ipToSession (pool R)) vm")
  case None
  then show ?thesis using assms by (simp add: connect_vm_def)
next
  case (Some sid)
  obtain nxt r S where c: "createTCPConnection cfg port isn (nextProxyPort R) (session_of R sid) = (nxt, r, S)"
    by (cases "createTCPConnection cfg port isn (nextProxyPort R) (session_of R sid)") blast
  have n: "30000 \<le> nxt \<and> nxt \<le> 65535"
    using createTCPConnection_next [of cfg port isn "nextProxyPort R" "session_of R sid"] c
      ports_stay [of "nextProxyPort R" 1000 "port_taken (session_of R sid)"] assms
    by (simp add: registry_ok_def)
  let ?R = "(upd_session sid (\<lambda>_. S) R)\<lparr>nextProxyPort := nxt\<rparr>"
  have e: "activeSessions ?R = activeSessions R" "closure ?R = closure R" "next_session ?R = next_session R"
    "connections_from ?R = connections_from R" "from_ip ?R = from_ip R" "nextProxyPort ?R = nxt"
    by (simp_all add: upd_session_def connections_from_def from_ip_def fun_eq_iff)
  have "registry_ok cfg ?R" using assms n unfolding registry_ok_def e by blast
  then show ?thesis using Some c by (simp add: connect_vm_def)
qed

lemma relay_step_registry:
  assumes "service_ok cfg" "registry_ok cfg R" "relay_ok R e"
  shows "registry_ok cfg (after_relay cfg R e)"
proof -
  have net: "net_ok cfg" using assms(1) by (simp add: service_ok_def gateway_ok_def)
  have fr: "registry (exec (handleEthernetFrame cfg env sid f) R) = registry R" for env sid f
    by (rule keepsD [where P = "\<lambda>R'. registry R' = registry R", OF registry_frames.frame [OF net] refl])
  have same: "registry R' = registry R \<Longrightarrow> registry_ok cfg R'" for R'
    using registry_ok_same [of R' R cfg] assms(2) by blast
  show ?thesis
  proof (cases e)
    case (Connect lib ip uuid)
    then show ?thesis using connect_registry [OF assms(1,2)] assms(3) by (simp add: after_relay_def ignore_run)
  next
    case (Close sid)
    then show ?thesis using close_registry [OF assms(2)] assms(3) by (simp add: after_relay_def modify_run)
  next
    case (Open_To_VM vm port isn)
    then show ?thesis using connect_vm_registry [OF assms(2)] by (simp add: after_relay_def modify_run)
  next
    case (Frame sid env f)
    then show ?thesis using fr by (intro same) (simp add: after_relay_def)
  qed (rule same; simp add: after_relay_def modify_run ignore_run registry_same)+
qed

text \<open>The address pool, which only the frames and the end of a session touch.\<close>

lemma pool_same:
  "pool (exec (with_session sid m) R) = pool R" "pool (on_text sid str R) = pool R"
  "pool (exec (host_message cfg ruleId vm vmPort msg address port draws) R) = pool R"
  "pool (snd (connect_vm cfg vm port isn R)) = pool R" "pool (exec (on_connection cfg lib ip uuid) R) = pool R"
  by (auto simp: with_session_def inside_run on_text_def host_message_def connect_vm_def on_connection_def reads_def
      andthen_def modify_def ret_def lift_result_def count_connection_def split: option.split prod.split sum.split)

lemma admin_pool: "pool (exec (admin_request lib rq) R) = pool R"
proof -
  have "keeps (\<lambda>R. pool R = v) (on_proxy m)" for v and m :: "(proxy_state, admin_res) act"
    unfolding on_proxy_def by (intro keeps_inside) simp
  moreover have "keeps (\<lambda>R. pool R = v) (set_nickname lib sessionId body)" for v sessionId body
    unfolding set_nickname_def by (intro keeps_intros keeps_modify) simp
  ultimately have "keeps (\<lambda>R'. pool R' = pool R) (admin_request lib rq)"
    unfolding admin_request_def Let_def by (intro keeps_intros)
  then show ?thesis by (simp add: keeps_def)
qed

lemma close_pool:
  "pool (on_close sid R) = (case vmMAC (session_of R sid) of Some mac \<Rightarrow> releaseIP mac (pool R) | None \<Rightarrow> pool R)"
  by (simp add: on_close_def Let_def count_connection_def split: prod.split option.split)

lemma relay_step_pool:
  assumes "service_ok cfg" "pool_sound cfg R"
  shows "pool_sound cfg (after_relay cfg R e)"
proof -
  have net: "net_ok cfg" using assms(1) by (simp add: service_ok_def gateway_ok_def)
  have same: "pool R' = pool R \<Longrightarrow> pool_sound cfg R'" for R' using assms(2) by (simp add: pool_sound_def)
  show ?thesis
  proof (cases e)
    case (Frame sid env f)
    then show ?thesis using keepsD [OF pool_frames.frame [OF net] assms(2)] by (simp add: after_relay_def)
  next
    case (Close sid)
    have "pool_sound cfg (on_close sid R)"
      using assms(2) release_ok dhcp.release_exclusive [where cfg = cfg]
      by (auto simp: pool_sound_def close_pool split: option.split)
    then show ?thesis by (simp add: Close after_relay_def modify_run)
  qed (rule same; simp add: after_relay_def modify_run ignore_run pool_same admin_pool)+
qed

definition relay_inv :: "config \<Rightarrow> relay \<Rightarrow> bool" where
  "relay_inv cfg R \<longleftrightarrow> all_sound R \<and> registry_ok cfg R \<and> pool_sound cfg R"

interpretation relays: machine relay_ok "after_relay cfg" "\<lambda>R. service_ok cfg \<and> relay_inv cfg R" for cfg
proof
  fix R e assume a: "service_ok cfg \<and> relay_inv cfg R" "relay_ok R e"
  then have "all_sound (after_relay cfg R e)"
    by (intro relay_step_sound) (simp_all add: service_ok_def relay_inv_def registry_ok_def)
  then show "service_ok cfg \<and> relay_inv cfg (after_relay cfg R e)"
    using a relay_step_registry relay_step_pool by (simp add: relay_inv_def)
qed

lemma at_start_inv: "at_start R \<Longrightarrow> relay_inv cfg R"
  by (simp add: at_start_def relay_inv_def all_sound_def registry_ok_def pool_sound_def new_pool_ok new_pool_exclusive
      connections_from_def from_ip_def)

lemma relay_run_inv:
  assumes "service_ok cfg" "at_start R" "admissible relay_ok (after_relay cfg) R es"
  shows "relay_inv cfg (run (after_relay cfg) R es)"
  using relays.run_inv [of cfg R es] assms at_start_inv by simp

section \<open>What one VM can do to another\<close>

text \<open>The packet as another session sends it to its VM.\<close>

definition delivered_to :: "config \<Rightarrow> bytes \<Rightarrow> session \<Rightarrow> session" where
  "delivered_to cfg packet S = exec (on_session_link (sendIPToVM cfg packet)) S"

lemma with_link_session:
  "session_of (exec (with_link sid m) R) other =
     (if other = sid then exec (on_session_link m) (session_of R sid) else session_of R other)"
  by (simp add: with_link_def with_session_def inside_run)

lemma with_link_views:
  "activeSessions (exec (with_link sid m) R) = activeSessions R" "pool (exec (with_link sid m) R) = pool R"
  by (simp_all add: with_link_def with_session_def inside_run upd_session_def)

lemma isolated_owner: "other \<noteq> sid \<Longrightarrow> frame_owner (\<lambda>R. session_of R other = S) cfg sid"
  by unfold_locales (simp_all add: keeps_def with_session_def allocate_def adopt_ip_def inside_run modify_run)

lemma broadcast_each:
  fixes cfg :: config and packet :: bytes and src :: string
  assumes "distinct (map snd xs)"
  defines "m \<equiv> \<lambda>(uuid :: string, other). reads (\<lambda>R. vmIP (session_of R other)) (\<lambda>ip.
       whenever (ip \<noteq> None \<and> ip \<noteq> Some src) (with_link other (sendIPToVM cfg packet)))"
  shows "session_of (exec (each m xs) R) other =
    (if other \<in> snd ` set xs \<and> vmIP (session_of R other) \<noteq> None \<and> vmIP (session_of R other) \<noteq> Some src
     then delivered_to cfg packet (session_of R other) else session_of R other)"
  using assms(1)
proof (induction xs arbitrary: R)
  case (Cons x xs)
  obtain u s where x: "x = (u, s)" by fastforce
  let ?R = "exec (m x) R"
  have o: "outcome (m x) R = Inr ()"
    by (simp add: x m_def reads_def whenever_def ret_def with_link_def with_session_def inside_run on_session_link_def
        sendIPToVM_def sendToVM_def act_simps)
  have e: "exec (each m (x # xs)) R = exec (each m xs) ?R"
    using o by (cases "m x R") (simp add: seq_act_Inr)
  have s: "session_of ?R t = (if t = s \<and> vmIP (session_of R s) \<noteq> None \<and> vmIP (session_of R s) \<noteq> Some src
      then delivered_to cfg packet (session_of R s) else session_of R t)" for t
    by (cases "vmIP (session_of R s)")
      (simp_all add: x m_def reads_def whenever_def ret_def with_link_session delivered_to_def)
  have "distinct (map snd xs)" "s \<notin> snd ` set xs" using Cons.prems x by auto
  then show ?case
    unfolding e Cons.IH [OF \<open>distinct (map snd xs)\<close>] s by (auto simp: x)
qed (simp add: ret_def)

lemma isolated_ipv4:
  assumes "net_ok cfg" "other \<noteq> sid" "distinct (map snd (activeSessions R))"
  shows "session_of (exec (handleIPv4 cfg env sid raw) R) other = session_of R other
    \<or> ENABLE_VM_TO_VM cfg \<and> (\<exists>p. parseIPv4Packet raw = Some p
        \<and> (map_get (ipToSession (pool R)) (ip_dstIP p) = Some other
           \<or> ip_dstIP p = broadcast_address \<and> other \<in> snd ` set (activeSessions R))
        \<and> session_of (exec (handleIPv4 cfg env sid raw) R) other = delivered_to cfg (ip_packet p) (session_of R other))"
proof (cases "parseIPv4Packet raw")
  case None
  then show ?thesis by (simp add: handleIPv4_def ret_def)
next
  case (Some p)
  note own = isolated_owner [OF assms(2), of "session_of R other" cfg]
  have rev: "session_of (exec (with_session sid (handleReverseTCP cfg p)) R) other = session_of R other"
    using keepsD [OF frame_owner.reverse [OF own assms(1) Some]] by simp
  have net: "session_of (exec (internet_bound cfg env sid p) R) other = session_of R other"
    using keepsD [OF frame_owner.internet [OF own assms(1) Some]] by simp
  have bc: "session_of (exec (broadcast cfg p) R) other = session_of R other
      \<or> other \<in> snd ` set (activeSessions R)
        \<and> session_of (exec (broadcast cfg p) R) other = delivered_to cfg (ip_packet p) (session_of R other)"
    using broadcast_each [OF assms(3), of "ip_srcIP p" cfg "ip_packet p" R other] by (auto simp: broadcast_def reads_def)
  have lk: "session_of (exec (with_link target (sendIPToVM cfg (ip_packet p))) R) other = session_of R other
      \<or> target = other \<and> session_of (exec (with_link target (sendIPToVM cfg (ip_packet p))) R) other
          = delivered_to cfg (ip_packet p) (session_of R other)" for target
    by (simp add: with_link_session delivered_to_def)
  have "handleIPv4 cfg env sid raw R =
     (if ip_protocol p = 6 \<and> ip_dstIP p = GATEWAY_IP cfg
      then if ip_moreFragments p \<or> ip_fragmentOffset p \<noteq> 0 then (Inr (), R) else with_session sid (handleReverseTCP cfg p) R
      else if ENABLE_VM_TO_VM cfg \<and> ip_dstIP p = broadcast_address \<and> ip_protocol p = 17 then broadcast cfg p R
      else if ENABLE_VM_TO_VM cfg \<and> in_vm_network (ip_dstIP p) \<and> ip_dstIP p \<noteq> GATEWAY_IP cfg
        \<and> ip_dstIP p \<noteq> broadcast_address
      then (case map_get (ipToSession (pool R)) (ip_dstIP p) of
              Some target \<Rightarrow> with_link target (sendIPToVM cfg (ip_packet p)) R
            | None \<Rightarrow> internet_bound cfg env sid p R)
      else internet_bound cfg env sid p R)"
    by (cases "map_get (ipToSession (pool R)) (ip_dstIP p)";
        simp only: handleIPv4_def Some option.case Let_def if_distribR reads_run ret_run)
  then show ?thesis
    using rev net bc lk Some by (auto split: option.split)
qed

lemma isolated_frame:
  assumes "net_ok cfg" "other \<noteq> sid" "distinct (map snd (activeSessions R))"
  shows "session_of (exec (handleEthernetFrame cfg env sid frame) R) other = session_of R other
    \<or> ENABLE_VM_TO_VM cfg \<and> u16be frame 12 = 0x0800 \<and> (\<exists>p. parseIPv4Packet (drop 14 frame) = Some p
        \<and> (map_get (ipToSession (pool R)) (ip_dstIP p) = Some other
           \<or> ip_dstIP p = broadcast_address \<and> other \<in> snd ` set (activeSessions R))
        \<and> session_of (exec (handleEthernetFrame cfg env sid frame) R) other
          = delivered_to cfg (ip_packet p) (session_of R other))"
proof -
  define R1 where "R1 = upd_session sid (\<lambda>S. S\<lparr>bytesReceived := bytesReceived S + length frame\<rparr>) R"
  define R2 where "R2 = upd_session sid (learn_mac (subarray frame 6 12)) R1"
  have v: "session_of R1 other = session_of R other" "session_of R2 other = session_of R other"
    "activeSessions R2 = activeSessions R" "pool R2 = pool R"
    using assms(2) by (simp_all add: R1_def R2_def upd_session_def)
  have arp: "session_of (exec (handleARP cfg sid (drop 14 frame)) R2) other = session_of R2 other"
    by (rule keepsD [OF frame_owner.arp [OF isolated_owner [OF assms(2)]]]) simp
  have "exec (handleEthernetFrame cfg env sid frame) R =
     (if length frame < 14 then R1
      else if u16be frame 12 = 0x0806 then exec (handleARP cfg sid (drop 14 frame)) R2
      else if u16be frame 12 = 0x0800 then exec (handleIPv4 cfg env sid (drop 14 frame)) R2
      else R2)"
    by (simp add: handleEthernetFrame_def attempt_def act_simps R1_def R2_def)
  then show ?thesis
    using isolated_ipv4 [OF assms(1,2), of R2 env "drop 14 frame"] assms(3) arp v
    by (auto split: if_splits)
qed

lemma active_distinct: "registry_ok cfg R \<Longrightarrow> distinct (map snd (activeSessions R))"
proof -
  assume ok: "registry_ok cfg R"
  then have "map fst (activeSessions R) = map (snd \<circ> closure R) (map snd (activeSessions R))"
    by (auto simp: registry_ok_def)
  then show ?thesis using ok unfolding registry_ok_def by (metis distinct_map)
qed

section \<open>Properties\<close>




text \<open>
  C6: isolation of the VMs. Handling a frame of one VM leaves the session of every other VM as it is,
  unless VM-to-VM traffic is enabled and the frame carries an IPv4 packet for the address registered
  for the other session, or a broadcast; then its only effect there is that the other VM is sent
  this packet, unchanged.
\<close>

theorem vm_isolation:
  assumes "service_ok cfg" "at_start R0" "admissible relay_ok (after_relay cfg) R0 es" "other \<noteq> sid"
  shows "let R = run (after_relay cfg) R0 es; R' = after_relay cfg R (Frame sid env frame) in
     session_of R' other = session_of R other
     \<or> ENABLE_VM_TO_VM cfg \<and> u16be frame 12 = 0x0800 \<and> (\<exists>p. parseIPv4Packet (drop 14 frame) = Some p
          \<and> (map_get (ipToSession (pool R)) (ip_dstIP p) = Some other
             \<or> ip_dstIP p = broadcast_address \<and> other \<in> snd ` set (activeSessions R))
          \<and> session_of R' other = exec (on_session_link (sendIPToVM cfg (ip_packet p))) (session_of R other))"
proof -
  have "net_ok cfg" using assms(1) by (simp add: service_ok_def gateway_ok_def)
  moreover have "distinct (map snd (activeSessions (run (after_relay cfg) R0 es)))"
    using active_distinct relay_run_inv [OF assms(1-3)] by (auto simp: relay_inv_def)
  ultimately show ?thesis
    using isolated_frame [OF _ assms(4), of cfg "run (after_relay cfg) R0 es" env frame]
    by (simp add: Let_def after_relay_def delivered_to_def)
qed

text \<open>
  C12: admission. Whatever happens, the number of connections the relay counts for a client address is
  the number of its open sessions, and at most the configured limit; every session is open under one
  id only; and no two VM hardware addresses hold the same IP address.
\<close>

theorem admission_accounts:
  assumes "service_ok cfg" "at_start R0" "admissible relay_ok (after_relay cfg) R0 es"
  shows "let R = run (after_relay cfg) R0 es in
     (\<forall>ip. connections_from R ip = length (filter (\<lambda>(uuid, sid). fst (closure R sid) = ip) (activeSessions R))
       \<and> int (connections_from R ip) \<le> max 0 (MAX_CONNECTIONS_PER_IP cfg))
     \<and> distinct (map fst (activeSessions R)) \<and> distinct (map snd (activeSessions R))
     \<and> (\<forall>mac mac' ip. map_get (macToIP (pool R)) mac = Some ip \<and> map_get (macToIP (pool R)) mac' = Some ip \<longrightarrow> mac = mac')"
  using relay_run_inv [OF assms] active_distinct
  unfolding relay_inv_def registry_ok_def pool_sound_def dhcp.exclusive_def from_ip_def Let_def by blast

text \<open>A relay with one session.\<close>

definition new_relay :: "session \<Rightarrow> relay" where
  "new_relay S = \<lparr>pool = new_address_pool, session_of = (\<lambda>_. S), next_session = 0, activeSessions = [],
     closure = (\<lambda>_. ([], [])), connectionsPerIP = [], nextProxyPort = 30000, proxy = new_proxy, hostDatagrams = []\<rparr>"

lemma new_relay_at_start: "at_start (new_relay S)"
  by (simp add: at_start_def new_relay_def)

lemma default_service: "service_ok default_config"
  using default_gateway(1) by (simp add: service_ok_def default_config_def RATE_LIMIT_BPS_def)

lemma example_connect:
  assumes "new_session default_config example_lib ''1.2.3.4'' = Inr S"
  defines "R \<equiv> run (after_relay default_config) (new_relay S) [Connect example_lib ''1.2.3.4'' ''id'']"
  shows "admissible relay_ok (after_relay default_config) (new_relay S) [Connect example_lib ''1.2.3.4'' ''id'']"
    and "next_session R = 1" "activeSessions R = [(''id'', 0)]" "session_of R 0 = S"
  using assms(1) unfolding R_def
  by (simp_all add: after_relay_def ignore_run on_connection_def reads_def andthen_def modify_def ret_def lift_result_def
      connections_from_def count_connection_def new_relay_def map_has_def) (simp_all add: default_config_def)


theorem vm_isolation_witness:
  "\<exists>S. let R = run (after_relay default_config) (new_relay S) [Connect example_lib ''1.2.3.4'' ''id'']
   in session_of (after_relay default_config R (Frame 1 \<lparr>e_isn = 0, e_socket = None, e_sending = None\<rparr> [1, 2, 3])) 0
      = session_of R 0"
proof -
  obtain S where S: "new_session default_config example_lib ''1.2.3.4'' = Inr S"
    using new_session_made [OF default_service] by blast
  have "\<not> u16be [1, 2, 3] 12 = 0x0800" by (simp add: u16be_def byte_at_def)
  then show ?thesis
    using vm_isolation [OF default_service new_relay_at_start example_connect(1) [OF S], of 0 1
        "\<lparr>e_isn = 0, e_socket = None, e_sending = None\<rparr>" "[1, 2, 3]"]
    by (intro exI [of _ S]) (simp only: Let_def, simp)
qed

theorem admission_accounts_witness:
  "\<exists>S. int (connections_from (run (after_relay default_config) (new_relay S) [Connect example_lib ''1.2.3.4'' ''id'']) ''1.2.3.4'')
     \<le> max 0 (MAX_CONNECTIONS_PER_IP default_config)"
proof -
  obtain S where S: "new_session default_config example_lib ''1.2.3.4'' = Inr S"
    using new_session_made [OF default_service] by blast
  show ?thesis
    using admission_accounts [OF default_service new_relay_at_start example_connect(1) [OF S]]
    unfolding Let_def by blast
qed

end
