(* ===== verification/Vm_Replies.thy ===== *)
theory Vm_Replies
  imports Relay_Run
begin

text \<open>
  The packets the relay itself sends to a VM, read back the way a VM reads them: the addresses it
  writes, UDP datagrams, DHCP replies with their options, and ICMP echo replies.
\<close>

section \<open>Addresses in packets\<close>

text \<open>A part of a dotted address is the byte its decimal digits say.\<close>

lemma js_Number_digits:
  assumes "list_all is_digit s" "s \<noteq> []" "dec_value s < 256"
  shows "js_Number s = Num (of_nat (dec_value s))"
proof -
  have d: "\<forall>c \<in> set s. is_digit c" using assms(1) by (simp add: list_all_iff)
  then have sp: "\<forall>c \<in> set s. \<not> is_space c" using not_space_digit by blast
  obtain c t where c: "s = c # t" "is_digit c" using assms(1,2) by (cases s) auto
  have sign: "split_sign s = (False, s)" using c digit_not_sign by (simp add: split_sign_def)
  have trim: "rev (dropWhile is_space (rev (dropWhile is_space s))) = s"
    using sp by (simp add: dropWhile_eq_self_iff) (metis dropWhile_eq_self_iff hd_in_set rev_rev_ident set_rev)
  have p: "take 2 s \<noteq> [CHR ''0'', x]" if "\<not> is_digit x" for x
    using d that in_set_takeD [of x 2 s] by force
  have i: "s \<noteq> ''Infinity''" using d by (auto simp: is_digit_def)
  have "decimal_literal s = Some (of_nat (dec_value s))"
    using d assms(2) by (simp add: decimal_literal_def takeWhile_eq_all_conv [THEN iffD2] dropWhile_eq_Nil_conv [THEN iffD2])
  moreover have "to_double (of_nat (dec_value s)) = Num (of_nat (dec_value s))"
  proof -
    have "of_nat (dec_value s) < (256 :: rat)" using assms(3) by simp
    moreover have "(256 :: rat) \<le> 2 ^ 1024 - 2 ^ 970" by simp
    ultimately show ?thesis by (simp add: to_double_def)
  qed
  moreover have "take 2 s \<noteq> ''0x''" "take 2 s \<noteq> ''0X''" "take 2 s \<noteq> ''0o''" "take 2 s \<noteq> ''0O''"
    "take 2 s \<noteq> ''0b''" "take 2 s \<noteq> ''0B''"
    using p by (simp_all add: is_digit_def)
  ultimately show ?thesis
    using assms(2) by (simp add: js_Number_def trim sign i)
qed

lemma number_byte_digits:
  assumes "list_all is_digit s" "s \<noteq> []" "dec_value s < 256"
  shows "number_byte (js_Number s) = word_of_nat (dec_value s)"
  by (simp add: js_Number_digits [OF assms] number_byte_def)


lemma dotted_bytes_ipv4:
  assumes "ipv4Bytes (AddrString s) = Inr b"
  shows "dotted_bytes s = b"
proof -
  let ?parts = "split_on CHR ''.'' s"
  have p: "list_all octet_text ?parts" "list_all (\<lambda>part. dec_value part \<le> 255) ?parts" "b = map (word_of_nat \<circ> dec_value) ?parts"
    using assms by (auto simp: ipv4Bytes_def Let_def list_ex_iff list_all_iff split: if_splits)
  have "number_byte (js_Number part) = word_of_nat (dec_value part)" if "part \<in> set ?parts" for part
  proof -
    have "octet_text part" "dec_value part \<le> 255" using p that by (auto simp: list_all_iff)
    then show ?thesis by (intro number_byte_digits) (auto simp: octet_text_def)
  qed
  then show ?thesis using p(3) by (simp add: dotted_bytes_def)
qed

lemma dotted_bytes_pool:
  assumes "0 \<le> i" "i \<le> 255"
  shows "dotted_bytes (pool_ip i) = [10, 0, 2, word_of_int i]"
proof -
  have "number_byte (js_Number ''10'') = 10" "number_byte (js_Number ''0'') = 0" "number_byte (js_Number ''2'') = 2"
    by (subst number_byte_digits; simp add: is_digit_def dec_value_def digit_value_def)+
  moreover have "number_byte (js_Number (show_int i)) = word_of_int i"
    using assms dec_digits by (subst number_byte_digits) (auto simp: show_int_def list_all_iff)
  ultimately show ?thesis by (simp add: dotted_bytes_def split_pool_ip)
qed

section \<open>UDP datagrams\<close>

definition udp_bytes :: "nat \<Rightarrow> nat \<Rightarrow> nat \<Rightarrow> bytes \<Rightarrow> bytes" where
  "udp_bytes sp dp cks payload =
     u16_bytes sp @ u16_bytes dp @ u16_bytes (8 + length payload) @ u16_bytes cks @ payload"

lemma length_udp_bytes [simp]: "length (udp_bytes sp dp cks payload) = 8 + length payload"
  by (simp add: udp_bytes_def)

lemma udp_writes:
  assumes "length mem = 8 + length payload" "length a = 2" "length b = 2" "length c = 2" "length d = 2"
  shows "put (put (put (put (put mem 0 a) 2 b) 4 c) 6 d) 8 payload = a @ b @ c @ d @ payload"
proof -
  have "put (put (put (put (put mem 0 a) 2 b) 4 c) 6 d) 8 payload =
      ((((a @ b) @ c) @ d) @ payload) @ drop (8 + length payload) mem"
    using assms by (simp add: put_first put_next del: append_assoc)
  then show ?thesis using assms(1) by simp
qed

lemma dhcp_datagram_bytes: "dhcp_datagram dhcp = udp_bytes 67 68 0 dhcp"
  by (simp add: dhcp_datagram_def udp_bytes_def Let_def udp_writes)

lemma udp_segment_bytes:
  "sp < 65536 \<Longrightarrow> dp < 65536 \<Longrightarrow> 8 + length payload < 65536 \<Longrightarrow>
   udp_segment sp dp payload = Inr (udp_bytes sp dp 0 payload)"
  by (simp add: udp_segment_def udp_bytes_def Let_def writeUInt16BE_def udp_writes)

lemma udp_segment_InrE:
  assumes "udp_segment sp dp payload = Inr udp"
  obtains "sp < 65536" "dp < 65536" "8 + length payload < 65536" "udp = udp_bytes sp dp 0 payload"
proof -
  have "sp < 65536" "dp < 65536" "8 + length payload < 65536"
    using assms by (auto simp: udp_segment_def Let_def writeUInt16BE_def bind_result_def split: if_splits)
  then show thesis using that assms by (simp add: udp_segment_bytes)
qed

text \<open>A packet with such a datagram is parsed to its ports and payload.\<close>

lemma udp_reads_back:
  fixes k :: nat
  assumes "length s = 4" "length d = 4" "28 + length payload < 65536" "sp < 65536" "dp < 65536" "i < 65536" "c < 65536"
  defines "p \<equiv> ipv4_header (28 + length payload) i 17 s d c @ udp_bytes sp dp k payload"
  shows "parseIPv4Packet p = Some \<lparr>ip_packet = p, ip_headerLength = 20, ip_totalLength = 28 + length payload,
      ip_protocol = 17, ip_srcIP = formatIPv4 s 0, ip_dstIP = formatIPv4 d 0, ip_moreFragments = False,
      ip_fragmentOffset = 0\<rparr>"
    and "parseUDPDatagram (parseIPv4Packet p) = Some \<lparr>udp_srcPort = sp, udp_dstPort = dp,
      udp_length = 8 + length payload, udp_payload = payload\<rparr>"
proof -
  show q: "parseIPv4Packet p = Some \<lparr>ip_packet = p, ip_headerLength = 20, ip_totalLength = 28 + length payload,
      ip_protocol = 17, ip_srcIP = formatIPv4 s 0, ip_dstIP = formatIPv4 d 0, ip_moreFragments = False,
      ip_fragmentOffset = 0\<rparr>"
    using parse_header [where trailer = "[]" and n = "28 + length payload" and payload = "udp_bytes sp dp k payload"] assms
    unfolding p_def by simp
  have h: "length (ipv4_header (28 + length payload) i 17 s d c) = 20" using assms by simp
  have "u16be p 20 = sp" "u16be p 22 = dp" "u16be p 24 = 8 + length payload"
    using assms(3-5) u16_value [OF assms(4)] u16_value [OF assms(5)] u16_value [of "8 + length payload"]
    by (simp_all add: p_def u16be_append2 h udp_bytes_def u16_bytes_def u16be_def byte_at_append2)
  moreover have "length p = 28 + length payload" "subarray p 28 (28 + length payload) = payload"
    using h by (simp_all add: p_def subarray_def udp_bytes_def)
  ultimately show "parseUDPDatagram (parseIPv4Packet p) = Some \<lparr>udp_srcPort = sp, udp_dstPort = dp,
      udp_length = 8 + length payload, udp_payload = payload\<rparr>"
    unfolding q parseUDPDatagram_def by simp
qed


section \<open>The bytes of a DHCP reply\<close>

lemma put_later:
  "length pre = k \<Longrightarrow> k \<le> off \<Longrightarrow> off + length src \<le> length mem \<Longrightarrow>
   put (pre @ drop k mem) off src = (pre @ take (off - k) (drop k mem) @ src) @ drop (off + length src) mem"
  by (simp add: put_def add.commute)

lemma dhcp_fixed_writes:
  assumes "length (mem :: bytes) = 300" "length a = 4" "length b = 4" "length c = 2" "length d = 2" "length e = 4"
    "length f = 4" "length g = 4" "length h = 4" "length i = 6" "length j = 4"
  shows "put (put (put (put (put (put (put (put (put (put mem 0 a) 4 b) 8 c) 10 d) 12 e) 16 f) 20 g) 24 h) 28 i) 236 j
    = ((((((((((a @ b) @ c) @ d) @ e) @ f) @ g) @ h) @ i) @ take 202 (drop 34 mem)) @ j) @ drop 240 mem"
  using assms by (simp add: put_first put_next put_later del: append_assoc)

lemma dhcp_option_writes:
  assumes "length (mem :: bytes) = 300" "length pre = 240" "length a = 5" "length b = 4" "length c = 2" "length d = 4"
    "length e = 2" "length f = 4" "length g = 2" "length h = 4" "length i = 2" "length j = 4" "length k = 2"
    "length l = 2" "length m = 1"
  shows "take 278 (put (put (put (put (put (put (put (put (put (put (put (put (put (pre @ drop 240 mem) 240 a) 245 b) 249 c)
      251 d) 255 e) 257 f) 261 g) 263 h) 267 i) 269 j) 273 k) 275 l) 277 m)
    = pre @ a @ b @ c @ d @ e @ f @ g @ h @ i @ j @ k @ l @ m"
proof -
  have "put (put (put (put (put (put (put (put (put (put (put (put (put (pre @ drop 240 mem) 240 a) 245 b) 249 c)
      251 d) 255 e) 257 f) 261 g) 263 h) 267 i) 269 j) 273 k) 275 l) 277 m
    = (((((((((((((pre @ a) @ b) @ c) @ d) @ e) @ f) @ g) @ h) @ i) @ j) @ k) @ l) @ m) @ drop 278 mem"
    using assms by (simp add: put_next del: append_assoc)
  then show ?thesis using assms by simp
qed

definition dhcp_bytes :: "config \<Rightarrow> u32 \<Rightarrow> bytes \<Rightarrow> bytes \<Rightarrow> bytes" where
  "dhcp_bytes cfg xid mac ip =
     (let gw = dotted_bytes (GATEWAY_IP cfg)
      in [2, 1, 6, 0] @ u32_bytes xid @ replicate 8 0 @ ip @ gw @ gw @ mac @ replicate 202 0 @ u32_bytes dhcp_cookie)"

definition dhcp_option_bytes :: "config \<Rightarrow> byte \<Rightarrow> bytes" where
  "dhcp_option_bytes cfg msgType =
     (let gw = dotted_bytes (GATEWAY_IP cfg)
      in [53, 1, msgType, 54, 4] @ gw @ [51, 4] @ u32_bytes 3600 @ [1, 4] @ [255, 255, 255, 0] @ [3, 4] @ gw
        @ [6, 4] @ dotted_bytes (DNS_SERVER_IP cfg) @ [26, 2] @ u16_bytes (nat (VM_MTU cfg)) @ [255])"

lemma u16_zero: "u16_bytes 0 = [0, 0]"
  by (simp add: u16_bytes_def)

lemma dhcp_reply_bytes:
  assumes "length (dotted_bytes (GATEWAY_IP cfg)) = 4" "length (dotted_bytes (DNS_SERVER_IP cfg)) = 4"
    "length (dotted_bytes ip) = 4" "length mac = 6"
  shows "dhcp_reply cfg xid mac msgType ip = dhcp_bytes cfg xid mac (dotted_bytes ip) @ dhcp_option_bytes cfg msgType"
proof -
  have h: "dhcp_header cfg xid mac ip = dhcp_bytes cfg xid mac (dotted_bytes ip) @ drop 240 (alloc 300)"
    unfolding dhcp_header_def Let_def
    by (subst dhcp_fixed_writes) (simp_all add: assms dhcp_bytes_def Let_def u16_zero alloc_def numeral_eq_Suc)
  have "length (dhcp_bytes cfg xid mac (dotted_bytes ip)) = 240"
    by (simp add: dhcp_bytes_def Let_def assms)
  then show ?thesis
    unfolding dhcp_reply_def dhcp_reply_options_def Let_def h dhcp_option_bytes_def
    by (subst dhcp_option_writes) (simp_all add: assms)
qed


section \<open>Frames with datagrams\<close>

lemma sendIPToVM_sent:
  "ws_open l \<Longrightarrow> \<exists>l'. sendIPToVM cfg p l = (Inr (), l') \<and> frames l' = frames l @ [ip_frame (vmMACBytes l) p]"
  by (simp add: sendIPToVM_def sendToVM_def act_simps Let_def)

text \<open>What a VM reads in a frame: sender and receiver of the packet, ports and payload.\<close>

definition read_udp :: "bytes \<Rightarrow> (bytes result \<times> bytes result \<times> udp_datagram) option" where
  "read_udp frame =
     (case parseIPv4Packet (drop 14 frame) of
        None \<Rightarrow> None
      | Some r \<Rightarrow> map_option (\<lambda>d. (ipv4Bytes (AddrString (ip_srcIP r)), ipv4Bytes (AddrString (ip_dstIP r)), d))
          (parseUDPDatagram (Some r)))"

lemma udp_checksum_write: "put (udp_bytes sp dp k payload) 6 (u16_bytes c) = udp_bytes sp dp c payload"
  by (simp add: udp_bytes_def put_def u16_bytes_def)

lemma read_udp_bytes:
  assumes "length s = 4" "length d = 4" "28 + length payload < 65536" "sp < 65536" "dp < 65536" "i < 65536" "c < 65536"
  shows "read_udp (ip_frame mac (ipv4_header (28 + length payload) i 17 s d c @ udp_bytes sp dp k payload)) =
    Some (Inr s, Inr d, \<lparr>udp_srcPort = sp, udp_dstPort = dp, udp_length = 8 + length payload, udp_payload = payload\<rparr>)"
proof -
  have a: "ipv4Bytes (AddrString (formatIPv4 x 0)) = Inr x" if "length x = 4" for x
    using that ipv4Bytes_formatIPv4 [of 0 x] by (simp add: subarray_def)
  show ?thesis
    using udp_reads_back(2) [OF assms, of k] unfolding read_udp_def drop_ip_frame udp_reads_back(1) [OF assms]
    by (simp add: a assms(1,2))
qed

lemma read_udp_frame:
  assumes "buildIPv4Packet (udp_bytes sp dp 0 payload) src dst 17 i = Inr p" "sp < 65536" "dp < 65536"
  shows "read_udp (ip_frame mac (put p 26 (u16_bytes k))) = Some (ipv4Bytes src, ipv4Bytes dst,
    \<lparr>udp_srcPort = sp, udp_dstPort = dp, udp_length = 8 + length payload, udp_payload = payload\<rparr>)"
    and "read_udp (ip_frame mac p) = Some (ipv4Bytes src, ipv4Bytes dst,
    \<lparr>udp_srcPort = sp, udp_dstPort = dp, udp_length = 8 + length payload, udp_payload = payload\<rparr>)"
proof -
  obtain s d c where sd: "ipv4Bytes src = Inr s" "ipv4Bytes dst = Inr d" "length s = 4" "length d = 4"
    and b: "20 + length (udp_bytes sp dp 0 payload) \<le> 65535" "i \<le> 65535" "c < 65536"
    and p: "p = ipv4_header (20 + length (udp_bytes sp dp 0 payload)) i 17 s d c @ udp_bytes sp dp 0 payload"
    by (rule buildIPv4Packet_InrE [OF assms(1)])
  have p': "p = ipv4_header (28 + length payload) i 17 s d c @ udp_bytes sp dp 0 payload"
    unfolding p by (simp add: add.commute)
  have h: "length (ipv4_header (28 + length payload) i 17 s d c) = 20" using sd by simp
  have "put p 26 (u16_bytes k) = ipv4_header (28 + length payload) i 17 s d c @ udp_bytes sp dp k payload"
    using put_append2 [OF h, of "udp_bytes sp dp 0 payload" 6] unfolding p' by (simp add: udp_checksum_write)
  moreover have "28 + length payload < 65536" "i < 65536" using b by simp_all
  ultimately show "read_udp (ip_frame mac (put p 26 (u16_bytes k))) = Some (ipv4Bytes src, ipv4Bytes dst,
      \<lparr>udp_srcPort = sp, udp_dstPort = dp, udp_length = 8 + length payload, udp_payload = payload\<rparr>)"
    "read_udp (ip_frame mac p) = Some (ipv4Bytes src, ipv4Bytes dst,
      \<lparr>udp_srcPort = sp, udp_dstPort = dp, udp_length = 8 + length payload, udp_payload = payload\<rparr>)"
    unfolding sd using read_udp_bytes [OF sd(3,4)] assms(2,3) b(3) by (simp_all add: p')
qed

lemma buildIP_runs:
  assumes "ipv4Bytes src = Inr s" "ipv4Bytes dst = Inr d" "length payload \<le> 65515"
  shows "\<exists>p i. buildIP payload src dst pr l = (Inr p, l\<lparr>drawn := drawn l + 1\<rparr>) \<and> buildIPv4Packet payload src dst pr i = Inr p"
proof -
  have "idents l (drawn l) mod 65535 \<le> 65535" by (simp add: less_imp_le)
  then show ?thesis
    using build_succeeds [OF assms] by (fastforce simp: buildIP_def draw_ident_def andthen_def lift_result_def)
qed


lemma sendUDPToVM_runs:
  assumes "ipv4Bytes src = Inr s" "ipv4Bytes dst = Inr d" "sp < 65536" "dp < 65536" "28 + length payload \<le> 65535" "ws_open l"
  shows "\<exists>l' frame. sendUDPToVM cfg payload sp dp src dst l = (Inr (), l') \<and> frames l' = frames l @ [frame]
    \<and> transport_valid (drop 14 frame) 17
    \<and> read_udp frame = Some (Inr s, Inr d,
        \<lparr>udp_srcPort = sp, udp_dstPort = dp, udp_length = 8 + length payload, udp_payload = payload\<rparr>)"
proof -
  let ?udp = "udp_bytes sp dp 0 payload"
  obtain p i where p: "buildIP ?udp src dst 17 l = (Inr p, l\<lparr>drawn := drawn l + 1\<rparr>)" "buildIPv4Packet ?udp src dst 17 i = Inr p"
    using buildIP_runs [OF assms(1,2), of ?udp 17 l] assms(5) by auto
  obtain c where c: "transportChecksum p 17 6 = Inr c" "c < 65536" "transport_valid (put p (20 + 6) (u16_bytes c)) 17"
    by (rule built_checksum [OF p(2), of 6]) (use assms(5) in simp_all)
  have w: "with_checksum udpChecksum 6 p = Inr (put p 26 (u16_bytes c))"
    using c by (simp add: with_checksum_def udpChecksum_def writeUInt16BE_Inr)
  have seg: "udp_segment sp dp payload = Inr ?udp" using assms(3-5) by (simp add: udp_segment_bytes)
  obtain l' where l': "sendIPToVM cfg (put p 26 (u16_bytes c)) (l\<lparr>drawn := drawn l + 1\<rparr>) = (Inr (), l')"
    "frames l' = frames l @ [ip_frame (vmMACBytes l) (put p 26 (u16_bytes c))]"
    using sendIPToVM_sent [of "l\<lparr>drawn := drawn l + 1\<rparr>" cfg "put p 26 (u16_bytes c)"] assms(6) by auto
  have "sendUDPToVM cfg payload sp dp src dst l = (Inr (), l')"
    by (simp add: sendUDPToVM_def seg lift_result_def andthen_def p(1) w l'(1) [simplified])
  then show ?thesis
    using l'(2) c(3) read_udp_frame(1) [OF p(2) assms(3,4)] assms(1,2) by auto
qed

lemma sendUDPToVM_throws:
  assumes "sp > 65535 \<or> dp > 65535 \<or> 28 + length payload > 65535 \<or> (\<exists>e. ipv4Bytes src = Inl e \<or> ipv4Bytes dst = Inl e)"
  shows "\<exists>e l'. sendUDPToVM cfg payload sp dp src dst l = (Inl e, l') \<and> frames l' = frames l"
proof (cases "udp_segment sp dp payload")
  case (Inl e)
  then show ?thesis by (simp add: sendUDPToVM_def lift_result_def andthen_def)
next
  case (Inr udp)
  then have udp: "sp < 65536" "dp < 65536" "udp = udp_bytes sp dp 0 payload" by (auto elim: udp_segment_InrE)
  let ?i = "idents l (drawn l) mod 65535"
  have "\<exists>e. buildIPv4Packet udp src dst 17 ?i = Inl e"
    unfolding buildIPv4Packet_def by (rule buildIPv4Packet_error) (use assms udp in auto)
  then show ?thesis
    by (auto simp: sendUDPToVM_def Inr lift_result_def andthen_def buildIP_def draw_ident_def)
qed

section \<open>DHCP replies\<close>

text \<open>The options of a DHCP message as a client reads them: type, length and value up to the end option.\<close>

function dhcp_tlv :: "bytes \<Rightarrow> (byte \<times> bytes) list option" where
  "dhcp_tlv [] = Some []"
| "dhcp_tlv (t # r) =
     (if t = 255 then Some []
      else if t = 0 then dhcp_tlv r
      else (case r of
              [] \<Rightarrow> None
            | n # v \<Rightarrow> if length v < unat n then None
                       else map_option ((#) (t, take (unat n) v)) (dhcp_tlv (drop (unat n) v))))"
  by pat_completeness auto
termination
  by (relation "measure length") auto

lemma dhcp_tlv_option:
  "t \<noteq> 0 \<Longrightarrow> t \<noteq> 255 \<Longrightarrow> length v = unat n \<Longrightarrow>
   dhcp_tlv (t # n # v @ r) = map_option ((#) (t, v)) (dhcp_tlv r)"
  by simp

lemma dhcp_options_read:
  assumes "length (dotted_bytes (GATEWAY_IP cfg)) = 4" "length (dotted_bytes (DNS_SERVER_IP cfg)) = 4"
  shows "dhcp_tlv (dhcp_option_bytes cfg m) = Some [(53, [m]), (54, dotted_bytes (GATEWAY_IP cfg)), (51, u32_bytes 3600),
    (1, [255, 255, 255, 0]), (3, dotted_bytes (GATEWAY_IP cfg)), (6, dotted_bytes (DNS_SERVER_IP cfg)),
    (26, u16_bytes (nat (VM_MTU cfg)))]"
proof -
  obtain g0 g1 g2 g3 where g: "dotted_bytes (GATEWAY_IP cfg) = [g0, g1, g2, g3]" using assms(1) by (rule list4_cases)
  obtain d0 d1 d2 d3 where d: "dotted_bytes (DNS_SERVER_IP cfg) = [d0, d1, d2, d3]" using assms(2) by (rule list4_cases)
  have u: "u16_bytes n = [word_of_nat (n div 256), word_of_nat n]" for n by (simp add: u16_bytes_def)
  show ?thesis unfolding dhcp_option_bytes_def g d Let_def u u32_bytes_def by simp
qed

lemma dhcp_message_fields:
  fixes cfg :: config and xid :: u32 and options mac ip :: bytes
  assumes "length (dotted_bytes (GATEWAY_IP cfg)) = 4" "length ip = 4" "length mac = 6"
  defines "m \<equiv> dhcp_bytes cfg xid mac ip @ options"
  shows "take 4 m = [2, 1, 6, 0]" "u32be m 4 = xid" "subarray m 16 20 = ip"
    "subarray m 28 34 = mac" "u32be m 236 = dhcp_cookie" "drop 240 m = options"
proof -
  have r: "u32be (a @ b) (length a) = u32be b 0" for a b
    by (simp add: u32be_append2)
  show "take 4 m = [2, 1, 6, 0]" "subarray m 16 20 = ip" "subarray m 28 34 = mac" "drop 240 m = options"
    using assms(1-3) by (simp_all add: m_def dhcp_bytes_def Let_def subarray_def)
  have "u32be ([2, 1, 6, 0] @ u32_bytes xid @ rest) 4 = xid" for rest
    using u32be_append2 [of "[2, 1, 6, 0]" 4 "u32_bytes xid @ rest"] by simp
  then show "u32be m 4 = xid" by (simp add: m_def dhcp_bytes_def Let_def del: append_Cons)
  show "u32be m 236 = dhcp_cookie"
    using r [of "[2, 1, 6, 0] @ u32_bytes xid @ replicate 8 0 @ ip @ dotted_bytes (GATEWAY_IP cfg) @ dotted_bytes (GATEWAY_IP cfg)
        @ mac @ replicate 202 0" "u32_bytes dhcp_cookie @ options"] assms(1-3)
    by (simp add: m_def dhcp_bytes_def Let_def)
qed


lemma handleDHCP_runs:
  assumes "parse_dhcp udp = Some (xid, mac, t)" "t \<in> {1, 3}"
    and "allocateIP cfg (mac_string mac) (pool R) = (Inr ip, p)"
  shows "\<exists>R1. handleDHCP cfg sid udp R = with_link sid (sendDHCP cfg xid mac (if t = 1 then 2 else 5) ip) R1
    \<and> s_link (session_of R1 sid) = s_link (session_of R sid) \<and> macToIP (pool R1) = macToIP p"
proof -
  let ?R = "R\<lparr>pool := p\<rparr>"
  let ?R1 = "if vmIP (session_of R sid) = None then adopt_ip sid ip ?R else ?R"
  have "handleDHCP cfg sid udp R = with_link sid (sendDHCP cfg xid mac (if t = 1 then 2 else 5) ip) ?R1"
    using assms by (auto simp: handleDHCP_def or_return_def allocate_def inside_def act_simps seq_act_def andthen_def)
  moreover have "s_link (session_of ?R1 sid) = s_link (session_of R sid)" "macToIP (pool ?R1) = macToIP p"
    by (auto simp: adopt_ip_def upd_session_def register_session_def)
  ultimately show ?thesis by blast
qed

lemma sendDHCP_runs:
  assumes "ipv4Bytes (AddrString (GATEWAY_IP cfg)) = Inr gw" "length (dhcp_reply cfg xid mac t ip) = 278" "ws_open l"
  shows "\<exists>l' frame. sendDHCP cfg xid mac t ip l = (Inr (), l') \<and> frames l' = frames l @ [frame]
    \<and> read_udp frame = Some (Inr gw, Inr [255, 255, 255, 255],
        \<lparr>udp_srcPort = 67, udp_dstPort = 68, udp_length = 286, udp_payload = dhcp_reply cfg xid mac t ip\<rparr>)"
proof -
  let ?m = "dhcp_reply cfg xid mac t ip"
  have b: "ipv4Bytes (AddrString ''255.255.255.255'') = Inr [255, 255, 255, 255]" by code_simp
  obtain p i where p: "buildIP (udp_bytes 67 68 0 ?m) (AddrString (GATEWAY_IP cfg)) (AddrString ''255.255.255.255'') 17 l
        = (Inr p, l\<lparr>drawn := drawn l + 1\<rparr>)"
      "buildIPv4Packet (udp_bytes 67 68 0 ?m) (AddrString (GATEWAY_IP cfg)) (AddrString ''255.255.255.255'') 17 i = Inr p"
    using buildIP_runs [OF assms(1) b, of "udp_bytes 67 68 0 ?m" 17 l] assms(2) by auto
  obtain l' where l': "sendIPToVM cfg p (l\<lparr>drawn := drawn l + 1\<rparr>) = (Inr (), l')"
    "frames l' = frames l @ [ip_frame (vmMACBytes l) p]"
    using sendIPToVM_sent [of "l\<lparr>drawn := drawn l + 1\<rparr>" cfg p] assms(3) by auto
  have "sendDHCP cfg xid mac t ip l = (Inr (), l')"
    by (simp add: sendDHCP_def dhcp_datagram_bytes andthen_def p(1) l'(1) [simplified])
  then show ?thesis using l'(2) read_udp_frame(2) [OF p(2)] by (auto simp: assms b)
qed


section \<open>ICMP echo replies\<close>

lemma put_middle: "length pre = k \<Longrightarrow> length x = length y \<Longrightarrow> put (pre @ x @ post) k y = pre @ y @ post"
  by (simp add: put_def)

lemma checksum_field:
  fixes a b :: bytes
  assumes "even (length a)"
  defines "c \<equiv> internetChecksum (a @ u16_bytes 0 @ b)"
  shows "internetChecksum (a @ u16_bytes c @ b) = 0"
proof -
  let ?z = "a @ u16_bytes 0 @ b"
  have c: "c < 65536" unfolding c_def by (rule internetChecksum_lt)
  have "words16 (put ?z (length a) (u16_bytes c)) = words16 ?z - int (u16be ?z (length a)) + int c"
    using assms(1) c by (intro words16_put) simp_all
  moreover have "u16be ?z (length a) = 0" by (simp add: u16be_append2)
  ultimately have "words16 (a @ u16_bytes c @ b) = words16 ?z + int (checksum_of (words16 ?z))"
    by (simp add: put_middle c_def internetChecksum_words)
  moreover have "checksum_of (words16 ?z + int (checksum_of (words16 ?z))) = 0"
    by (subst checksum_of_def) (simp add: checksum_of_self words16_nonneg)
  ultimately show ?thesis by (simp add: internetChecksum_words)
qed

text \<open>The reply to a request with head \<open>a\<close>, checksums \<open>c\<close> and \<open>k\<close>, addresses \<open>s\<close> and \<open>d\<close>, IP options and ICMP rest.\<close>

lemma icmp_reply_shape:
  fixes a c s d k options rest :: bytes and code :: byte
  assumes "length a = 10" "length c = 2" "length s = 4" "length d = 4" "length k = 2"
  defines "icmp \<equiv> [0, code] @ u16_bytes (internetChecksum ([0, code] @ u16_bytes 0 @ rest)) @ rest"
  shows "icmp_reply (a @ c @ s @ d @ options @ [t, code] @ k @ rest) (20 + length options) =
    a @ u16_bytes (internetChecksum (a @ u16_bytes 0 @ d @ s @ options)) @ d @ s @ options @ icmp"
proof -
  let ?p = "a @ c @ s @ d @ options @ [t, code] @ k @ rest" and ?n = "20 + length options"
  let ?x = "internetChecksum ([0, code] @ u16_bytes 0 @ rest)"
  have cut: "subarray ?p 16 20 = d" "subarray ?p 12 16 = s" using assms(1-5) by (simp_all add: subarray_def)
  have 1: "put (alloc (length ?p)) 0 ?p = ?p" by (simp add: put_def alloc_def)
  have 2: "put ?p 12 d = a @ c @ d @ d @ options @ [t, code] @ k @ rest"
    using assms(1-4) put_middle [of "a @ c" 12 s d] by simp
  have 3: "put (a @ c @ d @ d @ options @ [t, code] @ k @ rest) 16 s = a @ c @ d @ s @ options @ [t, code] @ k @ rest"
    using assms(1-4) put_middle [of "a @ c @ d" 16 d s] by simp
  have 4: "put (a @ c @ d @ s @ options @ [t, code] @ k @ rest) ?n [0] = a @ c @ d @ s @ options @ [0, code] @ k @ rest"
    using assms(1-4) put_middle [of "a @ c @ d @ s @ options" ?n "[t]" "[0]"] by simp
  have 5: "put (a @ c @ d @ s @ options @ [0, code] @ y @ rest) (?n + 2) z = a @ c @ d @ s @ options @ [0, code] @ z @ rest"
    if "length y = length z" for y z
    using assms(1-4) that put_middle [of "a @ c @ d @ s @ options @ [0, code]" "?n + 2" y z] by simp
  have 6: "drop ?n (a @ c @ d @ s @ options @ [0, code] @ y) = [0, code] @ y" for y
    using assms(1-4) by simp
  have 7: "put (a @ y @ d @ s @ options @ icmp) 10 z = a @ z @ d @ s @ options @ icmp" if "length y = length z" for y z
    using assms(1) that by (rule put_middle)
  have 8: "subarray (a @ y @ d @ s @ options @ icmp) 0 ?n = a @ y @ d @ s @ options" if "length y = 2" for y
    using assms(1-4) that by (simp add: subarray_def)
  show ?thesis
    unfolding icmp_reply_def Let_def cut 1 2 3 4
    using assms(2,5) by (simp only: 5 6 7 8 length_u16_bytes icmp_def [symmetric])
qed


lemma packet_parts:
  fixes p :: bytes
  assumes "20 \<le> n" "n + 8 \<le> length p"
  obtains a c s d options t code k rest
  where "p = a @ c @ s @ d @ options @ [t, code] @ k @ rest" "length a = 10" "length c = 2" "length s = 4" "length d = 4"
    "length k = 2" "n = 20 + length options"
proof -
  have part: "\<exists>a b. q = a @ b \<and> length a = m" if "m \<le> length q" for q :: bytes and m
    using that by (intro exI [of _ "take m q"] exI [of _ "drop m q"]) simp
  obtain a p1 where a: "p = a @ p1" "length a = 10" using part [of 10 p] assms by auto
  obtain c p2 where c: "p1 = c @ p2" "length c = 2" using part [of 2 p1] assms a by auto
  obtain s p3 where s: "p2 = s @ p3" "length s = 4" using part [of 4 p2] assms a c by auto
  obtain d p4 where d: "p3 = d @ p4" "length d = 4" using part [of 4 p3] assms a c s by auto
  have rest4: "n - 20 \<le> length p4" using assms a c s d by simp
  obtain options p5 where o: "p4 = options @ p5" "length options = n - 20"
    using part [of "n - 20" p4] rest4 by blast
  have "4 \<le> length p5" using assms a c s d o by simp
  then obtain tc p6 where tc: "p5 = tc @ p6" "length tc = 2" "2 \<le> length p6" using part [of 2 p5] by auto
  then obtain k rest where k: "p6 = k @ rest" "length k = 2" using part [of 2 p6] by auto
  obtain t code where "tc = [t, code]" using tc(2) by (auto simp: numeral_2_eq_2 length_Suc_conv)
  then show thesis using that [of a c s d options t code k rest] a c s d o tc k assms(1) by simp
qed

lemma parse_again:
  assumes "parseIPv4Packet raw = Some r"
  defines "p \<equiv> ip_packet r"
  shows "20 \<le> ip_headerLength r" "ip_headerLength r = unat (byte_at p 0 AND 15) * 4"
    and "length q = length p \<Longrightarrow> take 10 q = take 10 p \<Longrightarrow>
      parseIPv4Packet q = Some (r\<lparr>ip_packet := q, ip_srcIP := formatIPv4 q 12, ip_dstIP := formatIPv4 q 16\<rparr>)"
    and "ip_srcIP r = formatIPv4 p 12" "ip_dstIP r = formatIPv4 p 16"
proof -
  define N where "N = u16be raw 2"
  have r: "20 \<le> unat (byte_at raw 0 AND 15) * 4" "unat (byte_at raw 0 AND 15) * 4 \<le> N" "N \<le> length raw"
    "unat (drop_bit 4 (byte_at raw 0)) = 4"
    "r = \<lparr>ip_packet = take N raw, ip_headerLength = unat (byte_at raw 0 AND 15) * 4, ip_totalLength = N,
      ip_protocol = unat (byte_at raw 9), ip_srcIP = formatIPv4 raw 12, ip_dstIP = formatIPv4 raw 16,
      ip_moreFragments = (u16be raw 6 AND 0x2000 \<noteq> 0), ip_fragmentOffset = u16be raw 6 AND 0x1fff\<rparr>"
    using assms(1) by (auto simp: parseIPv4Packet_def Let_def subarray_def N_def split: if_splits)
  have at: "byte_at p i = byte_at raw i" if "i < 20" for i
    using r that by (simp add: p_def byte_at_def)
  then have u: "u16be p i = u16be raw i" if "i < 19" for i using that by (simp add: u16be_def)
  show "20 \<le> ip_headerLength r" "ip_headerLength r = unat (byte_at p 0 AND 15) * 4"
    "ip_srcIP r = formatIPv4 p 12" "ip_dstIP r = formatIPv4 p 16"
    using r by (simp_all add: at formatIPv4_def)
  assume q: "length q = length p" "take 10 q = take 10 p"
  have len: "length p = N" using r by (simp add: p_def)
  have b: "byte_at q i = byte_at p i" if "i < 10" for i
    using q that len r by (metis byte_at_def nth_take order_less_le_trans)
  then have "u16be q i = u16be p i" if "i < 9" for i using that by (simp add: u16be_def)
  then show "parseIPv4Packet q = Some (r\<lparr>ip_packet := q, ip_srcIP := formatIPv4 q 12, ip_dstIP := formatIPv4 q 16\<rparr>)"
    using r q len by (simp add: parseIPv4Packet_def Let_def b at u N_def [symmetric] subarray_def)
qed

lemma echo_reply:
  assumes "parseIPv4Packet raw = Some r" "ip_headerLength r + 8 \<le> length (ip_packet r)"
  defines "p \<equiv> ip_packet r" and "n \<equiv> ip_headerLength r"
  defines "q \<equiv> icmp_reply p n"
  shows "parseIPv4Packet q = Some (r\<lparr>ip_packet := q, ip_srcIP := ip_dstIP r, ip_dstIP := ip_srcIP r\<rparr>)"
    and "internetChecksum (take n q) = 0" "internetChecksum (drop n q) = 0"
    and "byte_at q n = 0" "byte_at q (n + 1) = byte_at p (n + 1)" "drop (n + 4) q = drop (n + 4) p"
proof -
  note again = parse_again [OF assms(1), folded p_def n_def]
  obtain a c s d options t code k rest where p: "p = a @ c @ s @ d @ options @ [t, code] @ k @ rest"
    and len: "length a = 10" "length c = 2" "length s = 4" "length d = 4" "length k = 2" "n = 20 + length options"
    using packet_parts [of n p] again(1) assms(2) unfolding p_def n_def by blast
  let ?h = "a @ u16_bytes (internetChecksum (a @ u16_bytes 0 @ d @ s @ options)) @ d @ s @ options"
  let ?i = "[0, code] @ u16_bytes (internetChecksum ([0, code] @ u16_bytes 0 @ rest)) @ rest"
  have q: "q = ?h @ ?i"
    unfolding q_def p len(6) by (subst icmp_reply_shape) (simp_all add: len)
  have h: "length ?h = n" using len by simp
  have "internetChecksum ?h = 0" "internetChecksum ?i = 0"
    using checksum_field [of a "d @ s @ options"] checksum_field [of "[0, code]" rest] len(1) by simp_all
  then show "internetChecksum (take n q) = 0" "internetChecksum (drop n q) = 0"
    using h unfolding q by (simp_all del: append_assoc)
  show "byte_at q n = 0" "byte_at q (n + 1) = byte_at p (n + 1)" "drop (n + 4) q = drop (n + 4) p"
    using h len by (simp_all add: q p byte_at_append2)
  have "formatIPv4 q 12 = formatIPv4 p 16" "formatIPv4 q 16 = formatIPv4 p 12"
    using len by (simp_all add: q p formatIPv4_def byte_at_append2 byte_at_append1)
  then show "parseIPv4Packet q = Some (r\<lparr>ip_packet := q, ip_srcIP := ip_dstIP r, ip_dstIP := ip_srcIP r\<rparr>)"
    using again(3) [of q] len by (simp add: q p again(4,5))
qed

section \<open>Properties\<close>

text \<open>
  C18: what sendUDPToVM sends to an open VM is one frame with a valid UDP checksum from which the VM
  reads back the two addresses, the two ports and the payload; addresses that are not dotted quads,
  ports over 65535 and payloads that do not fit a packet throw, and nothing is sent.
\<close>
theorem udp_frames_read_back:
  assumes "ws_open l"
  shows "let (res, l') = sendUDPToVM cfg payload sp dp src dst l
    in case res of
         Inr _ \<Rightarrow> \<exists>frame. frames l' = frames l @ [frame] \<and> transport_valid (drop 14 frame) 17
           \<and> read_udp frame = Some (ipv4Bytes src, ipv4Bytes dst,
               \<lparr>udp_srcPort = sp, udp_dstPort = dp, udp_length = 8 + length payload, udp_payload = payload\<rparr>)
       | Inl _ \<Rightarrow> frames l' = frames l
           \<and> (sp > 65535 \<or> dp > 65535 \<or> 28 + length payload > 65535 \<or> (\<exists>e. ipv4Bytes src = Inl e \<or> ipv4Bytes dst = Inl e))"
proof (cases "sp > 65535 \<or> dp > 65535 \<or> 28 + length payload > 65535 \<or> (\<exists>e. ipv4Bytes src = Inl e \<or> ipv4Bytes dst = Inl e)")
  case True
  then obtain e l' where "sendUDPToVM cfg payload sp dp src dst l = (Inl e, l')" "frames l' = frames l"
    using sendUDPToVM_throws by blast
  with True show ?thesis by simp
next
  case False
  then obtain s d where "ipv4Bytes src = Inr s" "ipv4Bytes dst = Inr d"
    by (metis obj_sumE)
  with False show ?thesis
    using sendUDPToVM_runs [of src s dst d sp dp payload l cfg] assms by fastforce
qed

text \<open>
  C14: a DHCP DISCOVER or REQUEST is answered exactly when the pool has an address for the client:
  then one datagram from the gateway's port 67 to port 68 of the broadcast address is sent, whose
  message has the transaction and hardware address of the request, the address the pool has recorded
  for the client, and the options OFFER or ACK, server, lease time, netmask, router, name server and
  MTU; otherwise nothing changes.
\<close>
theorem dhcp_reply_correct:
  assumes "parse_dhcp udp = Some (xid, mac, t)" "t \<in> {1, 3}" "pool_ok cfg (pool R)" "0 \<le> DHCP_START cfg" "DHCP_END cfg \<le> 255"
    and "ipv4Bytes (AddrString (GATEWAY_IP cfg)) = Inr gw" "ipv4Bytes (AddrString (DNS_SERVER_IP cfg)) = Inr dns"
    and "ws_open (s_link (session_of R sid))"
  shows "let (res, R') = handleDHCP cfg sid udp R
    in res = Inr () \<and>
      (case map_get (macToIP (pool R')) (mac_string mac) of
         None \<Rightarrow> R' = R
       | Some ip \<Rightarrow> \<exists>i frame m. ip = pool_ip i \<and> DHCP_START cfg \<le> i \<and> i \<le> DHCP_END cfg
           \<and> frames (s_link (session_of R' sid)) = frames (s_link (session_of R sid)) @ [frame]
           \<and> read_udp frame = Some (Inr gw, Inr [255, 255, 255, 255],
               \<lparr>udp_srcPort = 67, udp_dstPort = 68, udp_length = 286, udp_payload = m\<rparr>)
           \<and> take 4 m = [2, 1, 6, 0] \<and> u32be m 4 = xid \<and> subarray m 16 20 = [10, 0, 2, word_of_int i]
           \<and> subarray m 28 34 = mac \<and> u32be m 236 = dhcp_cookie
           \<and> dhcp_tlv (drop 240 m) = Some [(53, [if t = 1 then 2 else 5]), (54, gw), (51, u32_bytes 3600),
                (1, [255, 255, 255, 0]), (3, gw), (6, dns), (26, u16_bytes (nat (VM_MTU cfg)))])"
proof -
  obtain r p where a: "allocateIP cfg (mac_string mac) (pool R) = (r, p)" by (cases "allocateIP cfg (mac_string mac) (pool R)")
  show ?thesis
  proof (cases r)
    case (Inl e)
    then show ?thesis
      using assms(1) a
      by (auto elim!: allocate_cases simp: handleDHCP_def or_return_def allocate_def inside_def)
  next
    case (Inr ip)
    have held: "map_get (macToIP p) (mac_string mac) = Some ip" using a Inr by (auto elim: allocate_cases)
    have "pool_ok cfg p" using allocate_ok [OF assms(3), of "mac_string mac"] a by simp
    then obtain i where i: "ip = pool_ip i" "DHCP_START cfg \<le> i" "i \<le> DHCP_END cfg"
      using held unfolding pool_ok_def by blast
    let ?t = "if t = 1 then 2 else 5"
    let ?m = "dhcp_reply cfg xid mac ?t ip"
    have mac: "length mac = 6"
      using assms(1) by (auto simp: parse_dhcp_def subarray_def split: if_splits option.splits)
    have d: "dotted_bytes (GATEWAY_IP cfg) = gw" "dotted_bytes (DNS_SERVER_IP cfg) = dns" "dotted_bytes ip = [10, 0, 2, word_of_int i]"
      using assms(4,5) i by (simp_all add: dotted_bytes_ipv4 [OF assms(6)] dotted_bytes_ipv4 [OF assms(7)] dotted_bytes_pool)
    note len = ipv4Bytes_length [OF assms(6)] ipv4Bytes_length [OF assms(7)]
    have m: "?m = dhcp_bytes cfg xid mac [10, 0, 2, word_of_int i] @ dhcp_option_bytes cfg ?t"
      using dhcp_reply_bytes [of cfg ip mac xid ?t] by (simp add: d len mac)
    have "length ?m = 278" unfolding m by (simp add: dhcp_bytes_def dhcp_option_bytes_def Let_def d len mac)
    then obtain l' frame where sent: "sendDHCP cfg xid mac ?t ip (s_link (session_of R sid)) = (Inr (), l')"
      "frames l' = frames (s_link (session_of R sid)) @ [frame]"
      "read_udp frame = Some (Inr gw, Inr [255, 255, 255, 255],
        \<lparr>udp_srcPort = 67, udp_dstPort = 68, udp_length = 286, udp_payload = ?m\<rparr>)"
      using sendDHCP_runs [OF assms(6) _ assms(8)] by blast
    obtain R1 where R1: "handleDHCP cfg sid udp R = with_link sid (sendDHCP cfg xid mac ?t ip) R1"
      "s_link (session_of R1 sid) = s_link (session_of R sid)" "macToIP (pool R1) = macToIP p"
      using handleDHCP_runs [OF assms(1,2)] a Inr by blast
    have run: "handleDHCP cfg sid udp R = (Inr (), exec (with_link sid (sendDHCP cfg xid mac ?t ip)) R1)"
      "s_link (session_of (exec (with_link sid (sendDHCP cfg xid mac ?t ip)) R1) sid) = l'"
      "pool (exec (with_link sid (sendDHCP cfg xid mac ?t ip)) R1) = pool R1"
      unfolding R1(1) by (simp_all add: with_link_def with_session_def on_session_link_def inside_run upd_session_def R1(2) sent(1))
    note fields = dhcp_message_fields [of cfg "[10, 0, 2, word_of_int i]" mac xid "dhcp_option_bytes cfg ?t", folded m]
    note options = dhcp_options_read [of cfg ?t, unfolded d]
    show ?thesis
      unfolding run(1) Let_def case_prod_conv run(2,3) R1(3) held sent(2)
      using i sent(3) fields options len mac d by simp
  qed
qed

text \<open>
  C19: an echo request to the gateway is answered with one packet, any other ICMP message with none.
  The reply has the length, header and options of the request with the addresses exchanged, type 0,
  the same code, identifier, sequence number and data, and both its checksums are right.
\<close>
theorem echo_reply_correct:
  assumes "parseIPv4Packet raw = Some r" "ws_open l"
  shows "let p = ip_packet r; off = ip_headerLength r; (res, l') = handleICMP cfg r l
    in res = Inr () \<and>
      (if off + 8 \<le> length p \<and> byte_at p off = 8 \<and> ip_dstIP r = GATEWAY_IP cfg
       then \<exists>q. frames l' = frames l @ [ip_frame (vmMACBytes l) q]
         \<and> parseIPv4Packet q = Some (r\<lparr>ip_packet := q, ip_srcIP := ip_dstIP r, ip_dstIP := ip_srcIP r\<rparr>)
         \<and> internetChecksum (take off q) = 0 \<and> internetChecksum (drop off q) = 0
         \<and> byte_at q off = 0 \<and> byte_at q (off + 1) = byte_at p (off + 1) \<and> drop (off + 4) q = drop (off + 4) p
       else l' = l)"
proof (cases "ip_headerLength r + 8 \<le> length (ip_packet r) \<and> byte_at (ip_packet r) (ip_headerLength r) = 8
    \<and> ip_dstIP r = GATEWAY_IP cfg")
  case False
  then show ?thesis by (auto simp: handleICMP_def act_simps Let_def)
next
  case True
  let ?p = "ip_packet r" and ?n = "ip_headerLength r"
  obtain l' where l': "sendIPToVM cfg (icmp_reply ?p ?n) l = (Inr (), l')"
    "frames l' = frames l @ [ip_frame (vmMACBytes l) (icmp_reply ?p ?n)]"
    using sendIPToVM_sent [OF assms(2)] by blast
  have "handleICMP cfg r l = (Inr (), l')" using True l' by (simp add: handleICMP_def act_simps Let_def)
  then show ?thesis using l'(2) True echo_reply [OF assms(1)] by (auto simp: Let_def)
qed



section \<open>Witnesses\<close>

lemma example_link: "\<exists>S :: session. new_session default_config example_lib ''1.2.3.4'' = Inr S \<and> ws_open (s_link S) \<and> frames (s_link S) = []"
  using new_session_made [OF default_service]
  by (fastforce simp: new_session_def new_link_def bind_result_def split: sum.splits)

theorem udp_frames_read_back_witness:
  "\<exists>(S :: session) l' frame. sendUDPToVM default_config [1, 2, 3] 53 1024 (AddrBuffer [8, 8, 8, 8]) (AddrBuffer [10, 0, 2, 15]) (s_link S) = (Inr (), l')
    \<and> frames l' = [frame] \<and> read_udp frame = Some (Inr [8, 8, 8, 8], Inr [10, 0, 2, 15],
        \<lparr>udp_srcPort = 53, udp_dstPort = 1024, udp_length = 11, udp_payload = [1, 2, 3]\<rparr>)"
proof -
  obtain S :: session where S: "ws_open (s_link S)" "frames (s_link S) = []" using example_link by blast
  have "ipv4Bytes (AddrBuffer [8, 8, 8, 8]) = Inr [8, 8, 8, 8]" "ipv4Bytes (AddrBuffer [10, 0, 2, 15]) = Inr [10, 0, 2, 15]"
    by (simp_all add: ipv4Bytes_def)
  note b = this
  obtain res l' where run: "sendUDPToVM default_config [1, 2, 3] 53 1024 (AddrBuffer [8, 8, 8, 8]) (AddrBuffer [10, 0, 2, 15]) (s_link S) = (res, l')"
    by fastforce
  show ?thesis
    using udp_frames_read_back [OF S(1), where cfg = default_config and payload = "[1, 2, 3]" and sp = 53 and dp = 1024
        and src = "AddrBuffer [8, 8, 8, 8]" and dst = "AddrBuffer [10, 0, 2, 15]"] S(2)
    unfolding run Let_def case_prod_conv b
    by (intro exI [of _ S], cases res) (auto simp: run)
qed

definition example_request :: bytes where
  "example_request = [1, 1, 6, 0, 0, 0, 0, 7] @ replicate 20 0 @ [2, 0, 0, 0, 0, 1] @ replicate 202 0 @ [99, 130, 83, 99, 53, 1, 1, 255]"

lemma example_request_parsed: "parse_dhcp example_request = Some (7, [2, 0, 0, 0, 0, 1], 1)"
proof -
  let ?t = "[99, 130, 83, 99, 53, 1, 1, 255] :: bytes"
  have len: "length example_request = 244" by (simp add: example_request_def)
  have late: "byte_at example_request i = byte_at ?t (i - 236)" if "236 \<le> i" for i
    using that by (simp add: example_request_def byte_at_append2 del: append_Cons)
  have "u16be example_request 4 = u16be [1, 1, 6, 0, 0, 0, 0, 7] 4" "u16be example_request 6 = u16be [1, 1, 6, 0, 0, 0, 0, 7] 6"
    by (simp_all add: example_request_def u16be_def byte_at_append1 del: append_Cons)
  then have xid: "u32be example_request 4 = 7" by (simp add: u32be_def u16be_def byte_at_def)
  have mac: "subarray example_request 28 34 = [2, 0, 0, 0, 0, 1]"
    by (simp add: example_request_def subarray_def)
  have cookie: "u32be example_request 236 = dhcp_cookie"
    unfolding u32be_def u16be_def by (simp add: late) (simp add: byte_at_def dhcp_cookie_def)
  have "dhcp_options example_request 243 1 = Some 1"
    by (subst dhcp_options.simps) (simp add: late len; simp add: byte_at_def)
  then have "dhcp_options example_request 240 0 = Some 1"
    by (subst dhcp_options.simps) (simp add: late len; simp add: byte_at_def)
  then show ?thesis by (simp add: parse_dhcp_def len xid mac cookie)
qed

theorem dhcp_reply_correct_witness:
  "\<exists>S R' frame m. handleDHCP default_config 0 example_request (new_relay S) = (Inr (), R')
    \<and> frames (s_link (session_of R' 0)) = [frame]
    \<and> (\<exists>s d. read_udp frame = Some (s, d, \<lparr>udp_srcPort = 67, udp_dstPort = 68, udp_length = 286, udp_payload = m\<rparr>))
    \<and> u32be m 4 = 7 \<and> subarray m 16 20 = [10, 0, 2, 15]"
proof -
  obtain S :: session where S: "ws_open (s_link S)" "frames (s_link S) = []" using example_link by blast
  note rq = example_request_parsed
  have t: "(1 :: byte) \<in> {1, 3}" by simp
  have gw: "ipv4Bytes (AddrString (GATEWAY_IP default_config)) = Inr [10, 0, 2, 2]"
    "ipv4Bytes (AddrString (DNS_SERVER_IP default_config)) = Inr [8, 8, 8, 8]" by code_simp+
  have a: "allocateIP default_config (mac_string [2, 0, 0, 0, 0, 1]) new_address_pool
      = (Inr (pool_ip 15), new_address_pool\<lparr>usedIPs := {15, 2}, macToIP := map_set (mac_string [2, 0, 0, 0, 0, 1]) (pool_ip 15) []\<rparr>)"
    by (simp add: allocateIP_def new_address_pool_def default_config_def free_octet.simps Let_def)
  obtain R1 where R1: "handleDHCP default_config 0 example_request (new_relay S) = with_link 0 (sendDHCP default_config 7 [2, 0, 0, 0, 0, 1] 2 (pool_ip 15)) R1"
    "macToIP (pool R1) = map_set (mac_string [2, 0, 0, 0, 0, 1]) (pool_ip 15) []"
    using handleDHCP_runs [OF rq, where cfg = default_config and R = "new_relay S" and sid = 0] a
    by (auto simp: new_relay_def new_address_pool_def)
  define R' where "R' = exec (with_link 0 (sendDHCP default_config 7 [2, 0, 0, 0, 0, 1] 2 (pool_ip 15))) R1"
  have held: "map_get (macToIP (pool R')) (mac_string [2, 0, 0, 0, 0, 1]) = Some (pool_ip 15)"
    unfolding R'_def with_link_views R1(2) by simp
  have cfg: "0 \<le> DHCP_START default_config" "DHCP_END default_config \<le> 255" by (simp_all add: default_config_def)
  have p: "pool_ok default_config (pool (new_relay S))" by (simp add: new_relay_def new_pool_ok)
  have s: "s_link (session_of (new_relay S) 0) = s_link S" by (simp add: new_relay_def)
  obtain res where run: "handleDHCP default_config 0 example_request (new_relay S) = (res, R')"
    unfolding R1(1) R'_def by (metis prod.collapse)
  have "res = Inr () \<and> (\<exists>i frame m. pool_ip 15 = pool_ip i \<and> frames (s_link (session_of R' 0)) = [] @ [frame]
      \<and> read_udp frame = Some (Inr [10, 0, 2, 2], Inr [255, 255, 255, 255],
          \<lparr>udp_srcPort = 67, udp_dstPort = 68, udp_length = 286, udp_payload = m\<rparr>)
      \<and> u32be m 4 = 7 \<and> subarray m 16 20 = [10, 0, 2, word_of_int i])"
    using dhcp_reply_correct [OF rq t p cfg gw, of 0, unfolded run Let_def case_prod_conv held option.case s, OF S(1)] S(2)
    by auto
  then show ?thesis using run by (intro exI [of _ S] exI [of _ R']) auto
qed

theorem echo_reply_correct_witness:
  "\<exists>(S :: session) r l' q. parseIPv4Packet ([69, 0, 0, 28, 0, 1, 0, 0, 64, 1, 0, 0, 10, 0, 2, 15, 10, 0, 2, 2] @ [8, 0, 0, 0, 0, 1, 0, 2]) = Some r
    \<and> handleICMP default_config r (s_link S) = (Inr (), l') \<and> frames l' = [q]"
proof -
  let ?p = "[69, 0, 0, 28, 0, 1, 0, 0, 64, 1, 0, 0, 10, 0, 2, 15, 10, 0, 2, 2] @ [8, 0, 0, 0, 0, 1, 0, 2] :: bytes"
  obtain S :: session where S: "ws_open (s_link S)" "frames (s_link S) = []" using example_link by blast
  obtain r where r: "parseIPv4Packet ?p = Some r" "ip_packet r = ?p" "ip_headerLength r = 20" "ip_dstIP r = GATEWAY_IP default_config"
  proof -
    have "case parseIPv4Packet ?p of None \<Rightarrow> False
      | Some r \<Rightarrow> ip_packet r = ?p \<and> ip_headerLength r = 20 \<and> ip_dstIP r = GATEWAY_IP default_config"
      by code_simp
    then show thesis using that by (auto split: option.splits)
  qed
  obtain res l' where run: "handleICMP default_config r (s_link S) = (res, l')" by (cases "handleICMP default_config r (s_link S)")
  have "byte_at ?p 20 = 8" by code_simp
  then show ?thesis
    using echo_reply_correct [OF r(1) S(1), where cfg = default_config] r S(2) unfolding run Let_def case_prod_conv
    by (intro exI [of _ S]) (auto simp: run)
qed

end
