(* ===== verification/Spec2Isabelle.thy ===== *)
theory Spec2Isabelle
  imports Packet_Utils Rate_Limiter Tcp_Utils Tcp_Receive Tcp_Pacer Tcp_Retransmission Udp_Flow_Manager Relay_Config Address_Pool Effects Relay_Link Dns_Filter Tcp_Sender Tcp_Session Tcp_Handlers Dhcp_Server Proxy_Rules Relay_Core Tcp_Wire Session_Stream Session_Drain Proxy_Forwards Admin_Http Url_Path Proxy_Exchange Relay_Run Vm_Replies
begin

text \<open>
  Verification of RootlessRelay.
\<close>

end
